(* ===== verification/Prelude.thy ===== *)
theory Prelude
  imports Main "HOL-Library.Word"
begin

text \<open>
  Shared vocabulary of the development: the machine types of the Go sources, the
  result type of fallible operations on a piece of mutable state, big-endian integers
  (\<^verbatim>\<open>encoding/binary\<close>, \<^verbatim>\<open>math/big\<close>) and the search functions of the Go package
  \<^verbatim>\<open>bytes\<close>, with the generic lemmas every component uses.
\<close>

unbundle bit_operations_syntax

named_theorems go_consts "numeric constants of the sources"
named_theorems op_simps "evaluation of fallible state operations"

section \<open>Machine types\<close>

type_synonym byte = "8 word"
type_synonym bytes = "byte list"
type_synonym u32 = "32 word"
type_synonym u64 = "64 word"
type_synonym i64 = "64 word"

text \<open>The largest value of Go's \<^verbatim>\<open>int\<close> on a 64-bit platform.\<close>

definition max_int :: nat where
  [go_consts]: "max_int = 0x7FFFFFFFFFFFFFFF"

text \<open>\<^verbatim>\<open>byte(n)\<close> of an integer below 256.\<close>

definition byte_of :: "nat \<Rightarrow> byte" where
  "byte_of n = of_nat n"

lemma unat_byte_of [simp]: "n < 256 \<Longrightarrow> unat (byte_of n) = n"
  by (simp add: byte_of_def unat_of_nat)

lemma byte_of_unat [simp]: "byte_of (unat b) = b"
  by (simp add: byte_of_def)

section \<open>Fallible operations on mutable state\<close>

text \<open>
  A Go method that mutates its receiver and returns \<^verbatim>\<open>(value, error)\<close> is a function from
  the receiver's state to the result and the new state. The state is returned on the
  error branch too, because the Go code has already mutated it there.
\<close>

type_synonym ('s, 'e, 'a) op = "'s \<Rightarrow> ('e + 'a) \<times> 's"

definition ret :: "'a \<Rightarrow> ('s, 'e, 'a) op" where
  "ret x s = (Inr x, s)"

definition fail :: "'e \<Rightarrow> ('s, 'e, 'a) op" where
  "fail e s = (Inl e, s)"

text \<open>\<^verbatim>\<open>x, err := m(); if err != nil { return err }; ...\<close>\<close>

definition andThen :: "('s, 'e, 'a) op \<Rightarrow> ('a \<Rightarrow> ('s, 'e, 'b) op) \<Rightarrow> ('s, 'e, 'b) op" where
  "andThen m f s = (case m s of (Inl e, s') \<Rightarrow> (Inl e, s') | (Inr x, s') \<Rightarrow> f x s')"

lemma andThen_cong [fundef_cong]:
  assumes "s = s'" and "m s' = m' s'"
    and "\<And>x t. m' s' = (Inr x, t) \<Longrightarrow> f x t = f' x t"
  shows "andThen m f s = andThen m' f' s'"
  using assms by (auto simp: andThen_def split: prod.splits sum.splits)

lemma ret_app [simp, op_simps]: "ret x s = (Inr x, s)"
  by (simp add: ret_def)

lemma fail_app [simp, op_simps]: "fail e s = (Inl e, s)"
  by (simp add: fail_def)

lemma andThen_Inl [simp, op_simps]: "m s = (Inl e, s') \<Longrightarrow> andThen m f s = (Inl e, s')"
  by (simp add: andThen_def)

lemma andThen_Inr [simp, op_simps]: "m s = (Inr x, s') \<Longrightarrow> andThen m f s = f x s'"
  by (simp add: andThen_def)

lemma andThen_eq_Inr:
  "andThen m f s = (Inr y, t) \<longleftrightarrow> (\<exists>x s'. m s = (Inr x, s') \<and> f x s' = (Inr y, t))"
  by (auto simp: andThen_def split: prod.splits sum.splits)

lemma andThen_InrE:
  assumes "andThen m f s = (Inr y, t)"
  obtains x s' where "m s = (Inr x, s')" and "f x s' = (Inr y, t)"
  using assms by (auto simp: andThen_eq_Inr)

text \<open>
  \<^verbatim>\<open>for _, x := range xs { if err := f(x); err != nil { return err } }\<close>, without and with a
  value that the loop updates.
\<close>

lemma andThen_andThen: "andThen (andThen f g) h = andThen f (\<lambda>x. andThen (g x) h)"
  and andThen_ret: "andThen (ret x) g = g x"
  by (auto simp: fun_eq_iff andThen_def ret_def split: prod.splits sum.splits)

fun seq_ops :: "('s, 'e, unit) op list \<Rightarrow> ('s, 'e, unit) op" where
  "seq_ops [] = ret ()"
| "seq_ops (m # ms) = andThen m (\<lambda>_. seq_ops ms)"

fun fold_ops :: "('a \<Rightarrow> 'x \<Rightarrow> ('s, 'e, 'a) op) \<Rightarrow> 'a \<Rightarrow> 'x list \<Rightarrow> ('s, 'e, 'a) op" where
  "fold_ops f a [] = ret a"
| "fold_ops f a (x # xs) = andThen (f a x) (\<lambda>a'. fold_ops f a' xs)"

lemma fold_ops_cong [fundef_cong]:
  assumes "xs = ys" and "a = b" and "\<And>a x. x \<in> set ys \<Longrightarrow> f a x = g a x"
  shows "fold_ops f a xs = fold_ops g b ys"
proof -
  have "fold_ops f b ys = fold_ops g b ys"
    using assms(3) by (induction ys arbitrary: b) (auto intro!: arg_cong [where f = "andThen _"] ext)
  with assms(1,2) show ?thesis by simp
qed

section \<open>Big-endian integers\<close>

text \<open>
  \<open>be_bytes n v\<close> is the low \<open>8 * n\<close> bits of \<open>v\<close> written most significant byte first
  (\<^verbatim>\<open>binary.BigEndian.AppendUint16/32/64\<close>); \<open>be_val\<close> reads a byte string back
  (\<^verbatim>\<open>binary.BigEndian.Uint16/32/64\<close> and \<^verbatim>\<open>big.Int.SetBytes\<close>).
\<close>

fun be_bytes :: "nat \<Rightarrow> nat \<Rightarrow> bytes" where
  "be_bytes 0 v = []"
| "be_bytes (Suc n) v = be_bytes n (v div 256) @ [of_nat v]"

definition be_val :: "bytes \<Rightarrow> nat" where
  "be_val bs = foldl (\<lambda>a b. a * 256 + unat b) 0 bs"

lemma be_val_Nil [simp]: "be_val [] = 0"
  by (simp add: be_val_def)

lemma be_val_snoc [simp]: "be_val (bs @ [b]) = be_val bs * 256 + unat b"
  by (simp add: be_val_def)

lemma unat_byte_less [simp]: "unat (b :: byte) < 256"
  using unsigned_less [of b] by simp

lemma length_be_bytes [simp]: "length (be_bytes n v) = n"
  by (induction n arbitrary: v) auto

lemma be_val_be_bytes: "be_val (be_bytes n v) = v mod 256 ^ n"
proof (induction n arbitrary: v)
  case 0
  show ?case by simp
next
  case (Suc n)
  have "be_val (be_bytes (Suc n) v) = (v div 256 mod 256 ^ n) * 256 + v mod 256"
    by (simp add: Suc.IH unat_of_nat)
  also have "\<dots> = v mod (256 * 256 ^ n)"
    by (simp add: mod_mult2_eq mult.commute add.commute)
  finally show ?case by simp
qed

lemma be_val_be_bytes_id [simp]: "v < 256 ^ n \<Longrightarrow> be_val (be_bytes n v) = v"
  by (simp add: be_val_be_bytes)

lemma be_val_less: "be_val bs < 256 ^ length bs"
proof (induction bs rule: rev_induct)
  case Nil
  show ?case by simp
next
  case (snoc b bs)
  have "unat b < 256" by simp
  with snoc have "be_val bs * 256 + unat b < (be_val bs + 1) * 256" by simp
  also have "\<dots> \<le> 256 ^ length bs * 256" using snoc by (intro mult_right_mono) auto
  finally show ?case by (simp add: mult.commute)
qed

lemma be_bytes_be_val [simp]: "be_bytes (length bs) (be_val bs) = bs"
proof (induction bs rule: rev_induct)
  case Nil
  show ?case by simp
next
  case (snoc b bs)
  have "(be_val bs * 256 + unat b) div 256 = be_val bs" by simp
  moreover have "of_nat (be_val bs * 256 + unat b) = b"
    by (rule word_unat_eq_iff [THEN iffD2]) (simp add: unat_of_nat del: of_nat_add of_nat_mult)
  ultimately show ?case using snoc by simp
qed

lemma be_bytes_inject: "v < 256 ^ n \<Longrightarrow> w < 256 ^ n \<Longrightarrow> be_bytes n v = be_bytes n w \<longleftrightarrow> v = w"
  by (metis be_val_be_bytes_id)

lemma be_val_Cons: "be_val (b # bs) = unat b * 256 ^ length bs + be_val bs"
proof (induction bs rule: rev_induct)
  case (snoc x xs)
  have "be_val (b # xs @ [x]) = be_val (b # xs) * 256 + unat x" using be_val_snoc [of "b # xs" x] by simp
  then show ?case using snoc by (simp add: algebra_simps)
qed (simp add: be_val_def)

section \<open>The Go packages \<^verbatim>\<open>bytes\<close> and \<^verbatim>\<open>strings\<close>\<close>

text \<open>\<^verbatim>\<open>strings.Split(s, sep)\<close> for a one-character separator: always at least one part.\<close>

fun split_on :: "'a \<Rightarrow> 'a list \<Rightarrow> 'a list list" where
  "split_on c [] = [[]]"
| "split_on c (x # xs) =
     (if x = c then [] # split_on c xs
      else (case split_on c xs of [] \<Rightarrow> [[x]] | p # ps \<Rightarrow> (x # p) # ps))"

lemma split_on_nonempty [simp]: "split_on c xs \<noteq> []"
  by (induction xs) (auto split: list.splits)

definition has_prefix :: "'a list \<Rightarrow> 'a list \<Rightarrow> bool" where
  "has_prefix s p \<longleftrightarrow> take (length p) s = p"

definition has_suffix :: "'a list \<Rightarrow> 'a list \<Rightarrow> bool" where
  "has_suffix s p \<longleftrightarrow> length p \<le> length s \<and> drop (length s - length p) s = p"

text \<open>\<^verbatim>\<open>bytes.Index\<close>: the first position of \<open>p\<close> in \<open>s\<close>, \<open>None\<close> for -1.\<close>

fun index_of :: "'a list \<Rightarrow> 'a list \<Rightarrow> nat option" where
  "index_of s p =
     (if has_prefix s p then Some 0
      else case s of [] \<Rightarrow> None | _ # s' \<Rightarrow> map_option Suc (index_of s' p))"

declare index_of.simps [simp del]

text \<open>\<^verbatim>\<open>bytes.ReplaceAll(s, old, nil)\<close> for a non-empty \<open>old\<close>: drop every occurrence, left to right.\<close>

function remove_all :: "'a list \<Rightarrow> 'a list \<Rightarrow> 'a list" where
  "remove_all s p =
     (case s of [] \<Rightarrow> []
      | c # s' \<Rightarrow> if p \<noteq> [] \<and> has_prefix s p then remove_all (drop (length p) s) p
                 else c # remove_all s' p)"
  by pat_completeness auto
termination
  by (relation "measure (\<lambda>(s, p). length s)") auto

declare remove_all.simps [simp del]

lemma has_prefix_append [simp]: "has_prefix (p @ s) p"
  by (simp add: has_prefix_def)

lemma has_prefix_iff: "has_prefix s p \<longleftrightarrow> (\<exists>t. s = p @ t)"
  by (metis append_take_drop_id has_prefix_append has_prefix_def)

lemma has_suffix_append [simp]: "has_suffix (s @ p) p"
  by (simp add: has_suffix_def)

lemma has_suffix_iff: "has_suffix s p \<longleftrightarrow> (\<exists>t. s = t @ p)"
  by (metis append_take_drop_id has_suffix_append has_suffix_def)

lemma index_of_Some:
  "index_of s p = Some i \<Longrightarrow> \<exists>t. s = take i s @ p @ t \<and> i + length p \<le> length s"
proof (induction s p arbitrary: i rule: index_of.induct)
  case (1 s p)
  show ?case
  proof (cases "has_prefix s p")
    case True
    with "1.prems" show ?thesis
      by (subst (asm) index_of.simps) (auto simp: has_prefix_iff)
  next
    case False
    with "1.prems" obtain c s' j where s: "s = c # s'" and j: "index_of s' p = Some j" "i = Suc j"
      by (subst (asm) index_of.simps) (auto split: list.splits)
    with "1.IH" [OF False s] show ?thesis by auto
  qed
qed

text \<open>The first occurrence lies where the text before it cannot contain the first byte of the pattern.\<close>

lemma index_of_skip:
  assumes "x \<notin> set u"
  shows "index_of (u @ x # p @ t) (x # p) = Some (length u)"
  using assms
proof (induction u)
  case Nil
  have "has_prefix (x # p @ t) (x # p)" by (simp add: has_prefix_def)
  then show ?case by (subst index_of.simps) simp
next
  case (Cons c u)
  then have "\<not> has_prefix ((c # u) @ x # p @ t) (x # p)"
    by (auto simp: has_prefix_def)
  then show ?case using Cons by (subst index_of.simps) simp
qed

section \<open>Strict codecs\<close>

text \<open>
  The contract of the sources' pairs of a serialisation and a strict parser: parsing accepts
  the serialisation of every supported value and nothing else.
\<close>

locale strict_codec =
  fixes enc :: "'a \<Rightarrow> 'b"
    and dec :: "'b \<Rightarrow> 'e + 'a"
    and ok :: "'a \<Rightarrow> bool"
  assumes dec_enc: "ok x \<Longrightarrow> dec (enc x) = Inr x"
    and dec_only: "dec s = Inr x \<Longrightarrow> ok x \<and> s = enc x"
begin

lemma dec_iff: "dec s = Inr x \<longleftrightarrow> ok x \<and> s = enc x"
  using dec_enc dec_only by blast

lemma enc_inject: "ok x \<Longrightarrow> ok y \<Longrightarrow> enc x = enc y \<longleftrightarrow> x = y"
  using dec_enc by (metis sum.inject(2))

lemma rejects: "(\<nexists>x. ok x \<and> s = enc x) \<longleftrightarrow> (\<exists>e. dec s = Inl e)"
  using dec_iff by (metis Inl_Inr_False sumE)

text \<open>A second codec in front: a parser of the text that feeds this one.\<close>

lemma compose:
  assumes outer: "\<And>s y. dec' s = Inr y \<longleftrightarrow> ok' y \<and> s = enc' y"
    and total: "\<And>x. ok x \<Longrightarrow> ok' (enc x)"
  shows "(case dec' s of Inl e \<Rightarrow> Inl (f e) | Inr y \<Rightarrow> dec y) = Inr x \<longleftrightarrow> ok x \<and> s = enc' (enc x)"
proof (cases "dec' s")
  case (Inl e)
  have "\<not> (ok x \<and> s = enc' (enc x))" using outer total Inl by (metis Inl_Inr_False)
  then show ?thesis by (simp add: Inl)
next
  case (Inr y)
  have "dec y = Inr x \<longleftrightarrow> ok x \<and> y = enc x" by (rule dec_iff)
  moreover have "s = enc' (enc x) \<longleftrightarrow> y = enc x" if "ok x" using that outer total Inr by (metis sum.inject(2))
  ultimately show ?thesis using Inr by auto
qed

end

end
