(* ===== verification/Stream_Core.thy ===== *)
theory Stream_Core
  imports Prelude
begin

text \<open>
  The chunked stream encryption of \<^verbatim>\<open>src/stream/stream.go\<close>: nonces, sizes, and the state
  machines \<open>EncryptWriter\<close>, \<open>EncryptReader\<close>, \<open>DecryptReader\<close> and \<open>DecryptReaderAt\<close>, each a
  record of the fields of its Go struct with one function per method. The AEAD is a
  parameter (the record \<open>aead\<close> of the two methods that are called). A run-time panic is the
  error value \<open>Panic\<close>, a loop that would never end is \<open>Diverge\<close>.

  An \<^verbatim>\<open>io.Reader\<close> is a \<open>source\<close>: the bytes it delivers, the error it reports from then on, and
  whether it may report that error together with its last bytes, as the interface allows;
  \<^verbatim>\<open>io.ReadFull\<close> and \<^verbatim>\<open>io.CopyN\<close> hide how the bytes are split over calls. An \<^verbatim>\<open>io.Writer\<close> and an
  \<^verbatim>\<open>io.ReaderAt\<close> are functions.
\<close>

section \<open>Constants, errors, AEAD, nonces\<close>

definition ChunkSize :: nat where "ChunkSize = 65536"

definition Overhead :: nat where "Overhead = 16"

definition encChunkSize :: nat where "encChunkSize = ChunkSize + Overhead"

definition lastChunkFlag :: byte where "lastChunkFlag = 1"

datatype stream_error =
    EOF
  | UnexpectedEOF
  | BadKey
  | InvalidPayloadSize
  | LastChunkEmpty
  | DecryptFailed
  | TrailingData
  | NonEOFAfterEnd stream_error
  | AlreadyClosed
  | ReadFailed stream_error
  | OffsetOutOfRange
  | OtherError nat \<comment> \<open>an error of the underlying reader or writer\<close>
  | Panic
  | Diverge

record aead =
  seal :: "bytes \<Rightarrow> bytes \<Rightarrow> bytes" \<comment> \<open>nonce, plaintext\<close>
  aopen :: "bytes \<Rightarrow> bytes \<Rightarrow> bytes option" \<comment> \<open>nonce, ciphertext\<close>

definition zeroNonce :: bytes where
  "zeroNonce = replicate 12 0"

text \<open>\<open>inc_at i\<close> is the loop of \<^verbatim>\<open>incNonce\<close> with the indices below \<open>i\<close> still to visit.\<close>

fun inc_at :: "nat \<Rightarrow> bytes \<Rightarrow> bytes option" where
  "inc_at 0 nonce = None"
| "inc_at (Suc i) nonce =
     (let nonce' = nonce[i := nonce ! i + 1]
      in if nonce' ! i \<noteq> 0 then Some nonce' else inc_at i nonce')"

definition incNonce :: "bytes \<Rightarrow> bytes option" where
  "incNonce nonce = inc_at (length nonce - 1) nonce"

definition nonceForChunk :: "int \<Rightarrow> bytes" where
  "nonceForChunk chunkIndex = [0, 0, 0] @ be_bytes 8 (nat (chunkIndex mod 2 ^ 64)) @ [0]"

definition setLastChunkFlag :: "bytes \<Rightarrow> bytes" where
  "setLastChunkFlag nonce = nonce[length nonce - 1 := lastChunkFlag]"

definition nonceIsZero :: "bytes \<Rightarrow> bool" where
  "nonceIsZero nonce \<longleftrightarrow> nonce = zeroNonce"

section \<open>Sizes\<close>

text \<open>Arithmetic of \<^verbatim>\<open>int64\<close>: results wrap around, division truncates towards zero.\<close>

definition wrap64 :: "int \<Rightarrow> int" where
  "wrap64 x = (x + 2 ^ 63) mod 2 ^ 64 - 2 ^ 63"

definition go_div :: "int \<Rightarrow> int \<Rightarrow> int" where
  "go_div a b = (if 0 \<le> a then a div b else - ((- a) div b))" \<comment> \<open>for a positive divisor\<close>

definition EncryptedChunkCount :: "int \<Rightarrow> stream_error + int" where
  "EncryptedChunkCount encryptedSize =
     (let chunks = go_div (wrap64 (wrap64 (encryptedSize + int encChunkSize) - 1)) (int encChunkSize);
          plaintextSize = wrap64 (encryptedSize - wrap64 (chunks * int Overhead));
          expChunks = (if plaintextSize = 0 then 1
            else go_div (wrap64 (wrap64 (plaintextSize + int ChunkSize) - 1)) (int ChunkSize))
      in if expChunks \<noteq> chunks then Inl InvalidPayloadSize else Inr chunks)"

definition PlaintextSize :: "int \<Rightarrow> stream_error + int" where
  "PlaintextSize encryptedSize =
     (case EncryptedChunkCount encryptedSize of
        Inl e \<Rightarrow> Inl e
      | Inr chunks \<Rightarrow> Inr (wrap64 (encryptedSize - wrap64 (chunks * int Overhead))))"

section \<open>EncryptWriter\<close>

record 'd encrypt_writer =
  ew_dst :: 'd
  ew_buf :: bytes
  ew_nonce :: bytes
  ew_err :: "stream_error option"

text \<open>\<^verbatim>\<open>chacha20poly1305.New\<close> is the parameter \<open>new\<close>; \<open>dw\<close> is the \<^verbatim>\<open>Write\<close> of the destination.\<close>

definition NewEncryptWriter :: "(bytes \<Rightarrow> aead option) \<Rightarrow> bytes \<Rightarrow> 'd \<Rightarrow> stream_error + aead \<times> 'd encrypt_writer" where
  "NewEncryptWriter new key dst =
     (case new key of
        None \<Rightarrow> Inl BadKey
      | Some a \<Rightarrow> Inr (a, \<lparr>ew_dst = dst, ew_buf = [], ew_nonce = zeroNonce, ew_err = None\<rparr>))"

definition flushChunk :: "aead \<Rightarrow> (bytes \<Rightarrow> 'd \<Rightarrow> stream_error option \<times> 'd) \<Rightarrow> bool \<Rightarrow>
    ('d encrypt_writer, stream_error, unit) op" where
  "flushChunk a dw isLast w =
     (if \<not> isLast \<and> length (ew_buf w) \<noteq> ChunkSize then fail Panic w
      else
        let nonce = (if isLast then setLastChunkFlag (ew_nonce w) else ew_nonce w);
            ciphertext = seal a nonce (ew_buf w);
            (err, dst) = dw ciphertext (ew_dst w)
        in case incNonce nonce of
             None \<Rightarrow> fail Panic (w\<lparr>ew_dst := dst, ew_nonce := nonce\<rparr>)
           | Some nonce' \<Rightarrow>
               ((case err of None \<Rightarrow> Inr () | Some e \<Rightarrow> Inl e),
                w\<lparr>ew_dst := dst, ew_nonce := nonce', ew_buf := []\<rparr>))"

text \<open>Records an error of \<open>flushChunk\<close> in the writer, a panic excepted.\<close>

definition noteErr :: "('d encrypt_writer, stream_error, 'a) op \<Rightarrow> ('d encrypt_writer, stream_error, 'a) op" where
  "noteErr m w =
     (case m w of
        (Inl e, w') \<Rightarrow> (Inl e, if e = Panic then w' else w'\<lparr>ew_err := Some e\<rparr>)
      | (Inr x, w') \<Rightarrow> (Inr x, w'))"

lemma flushChunk_buf: "flushChunk a dw isLast w = (Inr (), w') \<Longrightarrow> ew_buf w' = []"
  by (auto simp: flushChunk_def Let_def split: if_splits prod.splits option.splits)

lemma noteErr_Inr [simp]: "noteErr m w = (Inr x, w') \<longleftrightarrow> m w = (Inr x, w')"
  by (auto simp: noteErr_def split: prod.splits sum.splits)

function write_loop :: "aead \<Rightarrow> (bytes \<Rightarrow> 'd \<Rightarrow> stream_error option \<times> 'd) \<Rightarrow> bytes \<Rightarrow>
    ('d encrypt_writer, stream_error, unit) op" where
  "write_loop a dw p w =
     (if p = [] then ret () w
      else if length (ew_buf w) > ChunkSize then fail Panic w \<comment> \<open>\<^verbatim>\<open>p[:n]\<close> with a negative \<open>n\<close>\<close>
      else
        let n = min (length p) (ChunkSize - length (ew_buf w));
            w' = w\<lparr>ew_buf := ew_buf w @ take n p\<rparr>;
            p' = drop n p
        in if length (ew_buf w') = ChunkSize \<and> p' \<noteq> []
           then andThen (noteErr (flushChunk a dw False)) (\<lambda>_. write_loop a dw p') w'
           else write_loop a dw p' w')"
  by pat_completeness auto
termination
proof (relation "measure (\<lambda>(a, dw, p, w). 2 * length p + (if length (ew_buf w) = ChunkSize then 1 else 0))", goal_cases)
  case (2 a dw p w n w' p' u w'')
  then have "ew_buf w'' = []" by (auto intro: flushChunk_buf)
  then have "length (ew_buf w'') \<noteq> ChunkSize" by (simp add: ChunkSize_def)
  with 2 show ?case by (auto simp: min_def split: if_splits)
next
  case (3 a dw p w n w' p')
  then show ?case by (auto simp: min_def split: if_splits)
qed simp

declare write_loop.simps [simp del]

definition Write :: "aead \<Rightarrow> (bytes \<Rightarrow> 'd \<Rightarrow> stream_error option \<times> 'd) \<Rightarrow> bytes \<Rightarrow>
    ('d encrypt_writer, stream_error, nat) op" where
  "Write a dw p w =
     (case ew_err w of
        Some e \<Rightarrow> fail e w
      | None \<Rightarrow>
          if p = [] then ret 0 w
          else andThen (write_loop a dw p) (\<lambda>_. ret (length p)) w)"

definition Close :: "aead \<Rightarrow> (bytes \<Rightarrow> 'd \<Rightarrow> stream_error option \<times> 'd) \<Rightarrow>
    ('d encrypt_writer, stream_error, unit) op" where
  "Close a dw w =
     (case ew_err w of
        Some e \<Rightarrow> fail e w
      | None \<Rightarrow> andThen (noteErr (flushChunk a dw True)) (\<lambda>_ w'. ret () (w'\<lparr>ew_err := Some AlreadyClosed\<rparr>)) w)"

section \<open>Sources\<close>

record source =
  s_rest :: bytes
  s_fin :: stream_error
  s_eager :: bool \<comment> \<open>the last bytes may come together with \<open>s_fin\<close>\<close>

definition ReadFull :: "nat \<Rightarrow> source \<Rightarrow> bytes \<times> stream_error option \<times> source" where
  "ReadFull n src =
     (if n \<le> length (s_rest src) then (take n (s_rest src), None, src\<lparr>s_rest := drop n (s_rest src)\<rparr>)
      else if s_rest src = [] then ([], Some (s_fin src), src)
      else (s_rest src, Some (if s_fin src = EOF then UnexpectedEOF else s_fin src), src\<lparr>s_rest := []\<rparr>))"

text \<open>\<^verbatim>\<open>io.CopyN\<close> into a buffer: the copied bytes are there on an error too.\<close>

definition CopyN :: "nat \<Rightarrow> source \<Rightarrow> bytes \<times> stream_error option \<times> source" where
  "CopyN n src =
     (if n \<le> length (s_rest src) then (take n (s_rest src), None, src\<lparr>s_rest := drop n (s_rest src)\<rparr>)
      else (s_rest src, Some (s_fin src), src\<lparr>s_rest := []\<rparr>))"

text \<open>One \<^verbatim>\<open>Read\<close> of a one-byte buffer.\<close>

definition Read1 :: "source \<Rightarrow> stream_error option \<times> source" where
  "Read1 src =
     (case s_rest src of
        [] \<Rightarrow> (Some (s_fin src), src)
      | b # bs \<Rightarrow> ((if s_eager src \<and> bs = [] then Some (s_fin src) else None), src\<lparr>s_rest := bs\<rparr>))"

section \<open>EncryptReader\<close>

record encrypt_reader =
  er_src :: source
  er_ready :: nat
  er_buf :: bytes
  er_nonce :: bytes
  er_err :: "stream_error option"

definition NewEncryptReader :: "(bytes \<Rightarrow> aead option) \<Rightarrow> bytes \<Rightarrow> source \<Rightarrow> stream_error + aead \<times> encrypt_reader" where
  "NewEncryptReader new key src =
     (case new key of
        None \<Rightarrow> Inl BadKey
      | Some a \<Rightarrow> Inr (a, \<lparr>er_src = src, er_ready = 0, er_buf = [], er_nonce = zeroNonce, er_err = None\<rparr>))"

definition feedBuffer :: "aead \<Rightarrow> (encrypt_reader, stream_error, unit) op" where
  "feedBuffer a r =
     (if er_ready r > 0 then fail Panic r
      else
        let (bs, err, src) = CopyN (ChunkSize - length (er_buf r) + 1) (er_src r);
            buf = er_buf r @ bs;
            r = r\<lparr>er_src := src, er_buf := buf\<rparr>
        in if err \<noteq> None \<and> err \<noteq> Some EOF then fail (the err) r
           else if length buf \<le> ChunkSize then
             let nonce = setLastChunkFlag (er_nonce r); ciphertext = seal a nonce buf
             in case incNonce nonce of
                  None \<Rightarrow> fail Panic (r\<lparr>er_nonce := nonce\<rparr>)
                | Some nonce' \<Rightarrow>
                    let out = take (length buf + Overhead) ciphertext
                    in ret () (r\<lparr>er_nonce := nonce', er_buf := out, er_ready := length out, er_err := Some EOF\<rparr>)
           else if length buf \<noteq> ChunkSize + 1 then fail Panic r
           else
             let tailByte = buf ! ChunkSize; ciphertext = seal a (er_nonce r) (take ChunkSize buf)
             in case incNonce (er_nonce r) of
                  None \<Rightarrow> fail Panic r
                | Some nonce' \<Rightarrow>
                    ret () (r\<lparr>er_nonce := nonce', er_buf := take (ChunkSize + Overhead) ciphertext @ [tailByte],
                      er_ready := ChunkSize + Overhead\<rparr>))"

text \<open>\<^verbatim>\<open>r.buf.Read(p[:min(len(p), r.ready)])\<close>; \<open>n\<close> is \<^verbatim>\<open>len(p)\<close>. The data read is returned.\<close>

definition drain :: "nat \<Rightarrow> encrypt_reader \<Rightarrow> (bytes \<times> stream_error option) \<times> encrypt_reader" where
  "drain n r =
     (let m = min n (er_ready r)
      in if er_buf r = [] then (([], if m = 0 then None else Some EOF), r)
         else let out = take m (er_buf r)
              in ((out, None), r\<lparr>er_buf := drop m (er_buf r), er_ready := er_ready r - length out\<rparr>))"

definition EncryptReader_Read :: "aead \<Rightarrow> nat \<Rightarrow> encrypt_reader \<Rightarrow> (bytes \<times> stream_error option) \<times> encrypt_reader" where
  "EncryptReader_Read a n r =
     (if er_ready r > 0 then drain n r
      else case er_err r of
        Some e \<Rightarrow> (([], Some e), r)
      | None \<Rightarrow>
          if n = 0 then (([], None), r)
          else case feedBuffer a r of
            (Inl e, r') \<Rightarrow> (([], Some e), if e = Panic then r' else r'\<lparr>er_err := Some e\<rparr>)
          | (Inr _, r') \<Rightarrow> drain n r')"

section \<open>DecryptReader\<close>

record decrypt_reader =
  dr_src :: source
  dr_unread :: bytes
  dr_nonce :: bytes
  dr_err :: "stream_error option"

definition NewDecryptReader :: "(bytes \<Rightarrow> aead option) \<Rightarrow> bytes \<Rightarrow> source \<Rightarrow> stream_error + aead \<times> decrypt_reader" where
  "NewDecryptReader new key src =
     (case new key of
        None \<Rightarrow> Inl BadKey
      | Some a \<Rightarrow> Inr (a, \<lparr>dr_src = src, dr_unread = [], dr_nonce = zeroNonce, dr_err = None\<rparr>))"

text \<open>The part of \<^verbatim>\<open>readChunk\<close> after the chunk is in memory.\<close>

definition openChunk :: "aead \<Rightarrow> bytes \<Rightarrow> bool \<Rightarrow> (decrypt_reader, stream_error, bool) op" where
  "openChunk a inp isLast r =
     (let retry = setLastChunkFlag (dr_nonce r);
          (out, nonce, isLast') =
            (case aopen a (dr_nonce r) inp of
               Some out \<Rightarrow> (Some out, dr_nonce r, isLast)
             | None \<Rightarrow> if \<not> isLast then (aopen a retry inp, retry, True) else (None, dr_nonce r, isLast))
      in case out of
           None \<Rightarrow> fail DecryptFailed (r\<lparr>dr_nonce := nonce\<rparr>)
         | Some out \<Rightarrow>
             (case incNonce nonce of
                None \<Rightarrow> fail Panic (r\<lparr>dr_nonce := nonce\<rparr>)
              | Some nonce' \<Rightarrow> ret isLast' (r\<lparr>dr_nonce := nonce', dr_unread := take encChunkSize out\<rparr>)))"

definition readChunk :: "aead \<Rightarrow> (decrypt_reader, stream_error, bool) op" where
  "readChunk a r =
     (if dr_unread r \<noteq> [] then fail Panic r
      else
        let (inp, err, src) = ReadFull encChunkSize (dr_src r); r = r\<lparr>dr_src := src\<rparr>
        in case err of
             None \<Rightarrow> openChunk a inp False r
           | Some e \<Rightarrow>
               if e = EOF then fail UnexpectedEOF r
               else if e = UnexpectedEOF then
                 (if \<not> nonceIsZero (dr_nonce r) \<and> length inp = Overhead then fail LastChunkEmpty r
                  else openChunk a inp True (r\<lparr>dr_nonce := setLastChunkFlag (dr_nonce r)\<rparr>))
               else fail e r)"

definition DecryptReader_Read :: "aead \<Rightarrow> nat \<Rightarrow> decrypt_reader \<Rightarrow> (bytes \<times> stream_error option) \<times> decrypt_reader" where
  "DecryptReader_Read a n r =
     (if dr_unread r \<noteq> [] then ((take n (dr_unread r), None), r\<lparr>dr_unread := drop n (dr_unread r)\<rparr>)
      else case dr_err r of
        Some e \<Rightarrow> (([], Some e), r)
      | None \<Rightarrow>
          if n = 0 then (([], None), r)
          else case readChunk a r of
            (Inl e, r') \<Rightarrow> (([], Some e), if e = Panic then r' else r'\<lparr>dr_err := Some e\<rparr>)
          | (Inr isLast, r') \<Rightarrow>
              let out = take n (dr_unread r'); r' = r'\<lparr>dr_unread := drop n (dr_unread r')\<rparr>
              in if \<not> isLast then ((out, None), r')
                 else
                   let (err, src) = Read1 (dr_src r');
                       e = (case err of None \<Rightarrow> TrailingData
                            | Some e \<Rightarrow> if e \<noteq> EOF then NonEOFAfterEnd e else EOF)
                   in ((out, None), r'\<lparr>dr_src := src, dr_err := Some e\<rparr>))"

section \<open>DecryptReaderAt\<close>

text \<open>
  The \<^verbatim>\<open>io.ReaderAt\<close> is a function of the offset and the length of the buffer; it returns the
  bytes read, fewer than asked for only with an error, as the interface demands.
\<close>

type_synonym reader_at = "int \<Rightarrow> int \<Rightarrow> bytes \<times> stream_error option"

record decrypt_reader_at =
  ra_size :: int
  ra_chunks :: int
  ra_cache :: "(int \<times> bytes) option"

definition NewDecryptReaderAt :: "(bytes \<Rightarrow> aead option) \<Rightarrow> bytes \<Rightarrow> reader_at \<Rightarrow> int \<Rightarrow>
    stream_error + aead \<times> decrypt_reader_at" where
  "NewDecryptReaderAt new key src encSize =
     (case new key of
        None \<Rightarrow> Inl BadKey
      | Some a \<Rightarrow>
          (case EncryptedChunkCount encSize of
             Inl e \<Rightarrow> Inl e
           | Inr chunks \<Rightarrow>
               let finalChunkIndex = wrap64 (chunks - 1);
                   finalChunkOff = wrap64 (finalChunkIndex * int encChunkSize);
                   finalChunkSize = wrap64 (encSize - finalChunkOff)
               in if finalChunkSize < 0 then Inl Panic
                  else case src finalChunkOff finalChunkSize of
                    (_, Some e) \<Rightarrow> Inl (ReadFailed e)
                  | (finalChunk, None) \<Rightarrow>
                      (case aopen a (setLastChunkFlag (nonceForChunk finalChunkIndex)) finalChunk of
                         None \<Rightarrow> Inl DecryptFailed
                       | Some plaintext \<Rightarrow>
                           Inr (a, \<lparr>ra_size = wrap64 (encSize - wrap64 (chunks * int Overhead)), ra_chunks = chunks,
                             ra_cache = Some (finalChunkOff, plaintext)\<rparr>))))"

text \<open>Reads and opens the chunk at \<open>chunkOff\<close>, past the cache.\<close>

definition fetchChunk :: "aead \<Rightarrow> reader_at \<Rightarrow> decrypt_reader_at \<Rightarrow> int \<Rightarrow> int \<Rightarrow> int \<Rightarrow> stream_error + bytes" where
  "fetchChunk a src r chunkIndex chunkOff chunkSize =
     (if chunkSize < 0 then Inl Panic
      else
        let (bs, err) = src chunkOff chunkSize;
            err = (if err = Some EOF then (if int (length bs) \<noteq> chunkSize then Some UnexpectedEOF else None) else err)
        in case err of
             Some e \<Rightarrow> Inl (ReadFailed e)
           | None \<Rightarrow>
               let nonce = nonceForChunk chunkIndex;
                   nonce = (if chunkIndex = wrap64 (ra_chunks r - 1) then setLastChunkFlag nonce else nonce)
               in (case aopen a nonce bs of None \<Rightarrow> Inl DecryptFailed | Some plaintext \<Rightarrow> Inr plaintext))"

text \<open>
  One round of the loop of \<^verbatim>\<open>ReadAt\<close>: \<open>np\<close> bytes of \<^verbatim>\<open>p\<close> are still to be filled from \<open>off\<close> on. The
  result is what is copied, and \<^verbatim>\<open>cacheUpdate\<close>. A round that copies nothing would be repeated
  forever.
\<close>

definition readAt_round :: "aead \<Rightarrow> reader_at \<Rightarrow> decrypt_reader_at \<Rightarrow> nat \<Rightarrow> int \<Rightarrow> stream_error + bytes \<times> (int \<times> bytes) option" where
  "readAt_round a src r np off =
     (let chunkIndex = go_div off (int ChunkSize);
          chunkOff = wrap64 (chunkIndex * int encChunkSize);
          encSize = wrap64 (ra_size r + wrap64 (ra_chunks r * int Overhead));
          chunkSize = min (wrap64 (encSize - chunkOff)) (int encChunkSize);
          got = (case ra_cache r of
              Some (o', d) \<Rightarrow> if o' = chunkOff then Inr (d, None)
                else map_sum id (\<lambda>d. (d, Some (chunkOff, d))) (fetchChunk a src r chunkIndex chunkOff chunkSize)
            | None \<Rightarrow> map_sum id (\<lambda>d. (d, Some (chunkOff, d))) (fetchChunk a src r chunkIndex chunkOff chunkSize))
      in case got of
           Inl e \<Rightarrow> Inl e
         | Inr (plaintext, cacheUpdate) \<Rightarrow>
             let plainChunkOff = wrap64 (off - wrap64 (chunkIndex * int ChunkSize));
                 copySize = min (int (length plaintext) - plainChunkOff) (int np)
             in if plainChunkOff < 0 \<or> copySize < 0 then Inl Panic
                else if copySize = 0 then Inl Diverge
                else Inr (take (nat copySize) (drop (nat plainChunkOff) plaintext), cacheUpdate))"

lemma readAt_round_length: "readAt_round a src r np off = Inr (bs, cu) \<Longrightarrow> bs \<noteq> [] \<and> length bs \<le> np"
  by (auto simp: readAt_round_def Let_def min_def split: sum.splits if_splits)

text \<open>
  The loop; \<open>acc\<close> has been copied and \<open>cu\<close> is \<^verbatim>\<open>cacheUpdate\<close>. The result is what \<^verbatim>\<open>p\<close> holds, the
  early error, the final \<^verbatim>\<open>off\<close> and \<^verbatim>\<open>cacheUpdate\<close>.
\<close>

function readAt_loop :: "aead \<Rightarrow> reader_at \<Rightarrow> decrypt_reader_at \<Rightarrow> nat \<Rightarrow> int \<Rightarrow> bytes \<Rightarrow> (int \<times> bytes) option \<Rightarrow>
    bytes \<times> stream_error option \<times> int \<times> (int \<times> bytes) option" where
  "readAt_loop a src r np off acc cu =
     (if np = 0 \<or> off \<ge> ra_size r then (acc, None, off, cu)
      else case readAt_round a src r np off of
             Inl e \<Rightarrow> (acc, Some e, off, cu)
           | Inr (bs, cu') \<Rightarrow> readAt_loop a src r (np - length bs) (off + int (length bs)) (acc @ bs) cu')"
  by pat_completeness auto
termination
  by (relation "measure (\<lambda>(a, src, r, np, _). np)") (auto dest!: readAt_round_length)

declare readAt_loop.simps [simp del]

definition ReadAt :: "aead \<Rightarrow> reader_at \<Rightarrow> nat \<Rightarrow> int \<Rightarrow> decrypt_reader_at \<Rightarrow>
    (bytes \<times> stream_error option) \<times> decrypt_reader_at" where
  "ReadAt a src np off r =
     (if off < 0 \<or> off > ra_size r then (([], Some OffsetOutOfRange), r)
      else if np = 0 then (([], None), r)
      else case readAt_loop a src r np off [] None of
        (out, Some e, _, _) \<Rightarrow> ((out, Some e), r)
      | (out, None, off', cu) \<Rightarrow>
          ((out, if off' = ra_size r then Some EOF else None),
           case cu of None \<Rightarrow> r | Some c \<Rightarrow> r\<lparr>ra_cache := Some c\<rparr>))"

end
