(* ===== verification/Stream_Format.thy ===== *)
theory Stream_Format
  imports Stream_Core
begin

text \<open>
  The specification of the stream encryption is the format itself, \<open>stream_encrypt\<close>: the
  plaintext cut into chunks of \<open>ChunkSize\<close>, the last one possibly shorter and empty only if it
  is the first, each sealed under a nonce that holds the chunk number and the last-chunk flag.
  Here: the nonces, the format, the size arithmetic of \<open>EncryptedChunkCount\<close> and
  \<open>PlaintextSize\<close>, and the contract \<open>byte_stream\<close> that the readers keep.
\<close>

section \<open>Nonces\<close>

definition chunk_nonce :: "nat \<Rightarrow> bool \<Rightarrow> bytes" where
  "chunk_nonce k isLast = be_bytes 11 k @ [if isLast then lastChunkFlag else 0]"

definition max_chunks :: nat where
  "max_chunks = 256 ^ 11"

lemma inc_at_be_bytes:
  "k < 256 ^ n \<Longrightarrow> inc_at n (be_bytes n k @ s) =
    (if k + 1 < 256 ^ n then Some (be_bytes n (k + 1) @ s) else None)"
proof (induction n arbitrary: k s)
  case 0
  then show ?case by simp
next
  case (Suc n)
  let ?b = "of_nat k :: byte"
  have l: "be_bytes (Suc n) k @ s = be_bytes n (k div 256) @ ?b # s" by simp
  have kd: "k div 256 < 256 ^ n" using Suc.prems by (simp add: less_mult_imp_div_less mult.commute)
  have n1: "(be_bytes n (k div 256) @ ?b # s)[n := x] = be_bytes n (k div 256) @ x # s" for x
    by (simp add: list_update_append)
  have nth: "(be_bytes n (k div 256) @ x # s) ! n = x" for x by (simp add: nth_append)
  have b: "?b + 1 = of_nat (k + 1)" by simp
  show ?case
  proof (cases "k mod 256 = 255")
    case False
    then have d: "Suc k div 256 = k div 256" by (simp add: div_Suc mod_Suc)
    have "unat (of_nat (k + 1) :: byte) = (k + 1) mod 256" by (simp add: unat_of_nat del: of_nat_Suc of_nat_add)
    moreover have "(k + 1) mod 256 \<noteq> 0" using False by (simp add: mod_Suc)
    ultimately have nz: "?b + 1 \<noteq> 0" by (metis b unat_0)
    have "k + 1 < 256 ^ Suc n"
    proof (rule ccontr)
      assume "\<not> k + 1 < 256 ^ Suc n"
      then have "k + 1 = 256 ^ Suc n" using Suc.prems by simp
      then have "(k + 1) mod 256 = 0" by simp
      with \<open>(k + 1) mod 256 \<noteq> 0\<close> show False by simp
    qed
    then show ?thesis using nz unfolding l by (simp add: n1 nth Let_def d)
  next
    case True
    then have d: "Suc k div 256 = k div 256 + 1" by (simp add: div_Suc mod_Suc)
    have "(k + 1) mod 256 = 0" using True by (simp add: mod_Suc)
    then have "unat (of_nat (k + 1) :: byte) = 0" by (simp add: unat_of_nat del: of_nat_Suc of_nat_add)
    then have z: "?b + 1 = 0" by (metis b unsigned_0 word_unat_eq_iff)
    have zb: "(of_nat (k + 1) :: byte) = 0" using z b by simp
    have lt: "k + 1 < 256 ^ Suc n \<longleftrightarrow> k div 256 + 1 < 256 ^ n"
    proof -
      have "k + 1 = (k div 256 + 1) * 256" using True div_mult_mod_eq [of k 256] by simp
      then show ?thesis by (metis mult_less_cancel2 power_Suc2 zero_less_numeral)
    qed
    show ?thesis unfolding l
      using Suc.IH [OF kd, of "0 # s"] z zb lt by (simp add: n1 nth Let_def d del: of_nat_add of_nat_Suc)
  qed
qed

lemma length_chunk_nonce [simp]: "length (chunk_nonce k l) = 12"
  by (simp add: chunk_nonce_def)

lemma incNonce_chunk_nonce:
  "k < max_chunks \<Longrightarrow> incNonce (chunk_nonce k l) =
    (if k + 1 < max_chunks then Some (chunk_nonce (k + 1) l) else None)"
  using inc_at_be_bytes [of k 11] by (simp add: incNonce_def chunk_nonce_def max_chunks_def)

lemma setLastChunkFlag_chunk_nonce [simp]: "setLastChunkFlag (chunk_nonce k l) = chunk_nonce k True"
  by (simp add: setLastChunkFlag_def chunk_nonce_def list_update_append)

lemma be_bytes_zero: "be_bytes m 0 = replicate m 0"
  by (induction m) (simp_all add: replicate_append_same)

lemma zeroNonce_chunk_nonce: "zeroNonce = chunk_nonce 0 False"
proof -
  have "replicate (Suc 11) (0 :: byte) = replicate 11 0 @ [0]" by (simp only: replicate_Suc replicate_append_same)
  then show ?thesis by (simp add: zeroNonce_def chunk_nonce_def be_bytes_zero)
qed

lemma chunk_nonce_inject:
  "j < max_chunks \<Longrightarrow> k < max_chunks \<Longrightarrow> chunk_nonce j l = chunk_nonce k m \<longleftrightarrow> j = k \<and> l = m"
  by (auto simp: chunk_nonce_def max_chunks_def be_bytes_inject lastChunkFlag_def)

lemma nonceIsZero_chunk_nonce: "k < max_chunks \<Longrightarrow> nonceIsZero (chunk_nonce k False) \<longleftrightarrow> k = 0"
  unfolding nonceIsZero_def zeroNonce_chunk_nonce
  by (subst chunk_nonce_inject) (auto simp: max_chunks_def)

lemma be_bytes_pad: "k < 256 ^ n \<Longrightarrow> be_bytes (m + n) k = replicate m 0 @ be_bytes n k"
proof (induction n arbitrary: k)
  case 0
  then show ?case by (simp add: be_bytes_zero)
next
  case (Suc n)
  then have "k div 256 < 256 ^ n" by (simp add: less_mult_imp_div_less mult.commute)
  then show ?case using Suc.IH by simp
qed

lemma nonceForChunk_chunk_nonce: "0 \<le> i \<Longrightarrow> i < 2 ^ 64 \<Longrightarrow> nonceForChunk i = chunk_nonce (nat i) False"
proof -
  assume i: "0 \<le> i" "i < 2 ^ 64"
  then have "nat i < 256 ^ 8" by (simp add: nat_less_iff)
  from be_bytes_pad [OF this, of 3] have "be_bytes 11 (nat i) = [0, 0, 0] @ be_bytes 8 (nat i)"
    by (simp add: numeral_3_eq_3)
  with i show ?thesis by (simp add: nonceForChunk_def chunk_nonce_def mod_pos_pos_trivial)
qed

section \<open>The format\<close>

lemma ChunkSize_pos [simp]: "0 < ChunkSize"
  by (simp add: ChunkSize_def)

function enc_from :: "aead \<Rightarrow> nat \<Rightarrow> bytes \<Rightarrow> bytes" where
  "enc_from a k p =
     (if length p \<le> ChunkSize then seal a (chunk_nonce k True) p
      else seal a (chunk_nonce k False) (take ChunkSize p) @ enc_from a (k + 1) (drop ChunkSize p))"
  by pat_completeness auto
termination
  by (relation "measure (\<lambda>(a, k, p). length p)") (auto intro: diff_less simp: not_le)

declare enc_from.simps [simp del]

definition stream_encrypt :: "aead \<Rightarrow> bytes \<Rightarrow> bytes" where
  "stream_encrypt a p = enc_from a 0 p"

lemma enc_from_last: "length p \<le> ChunkSize \<Longrightarrow> enc_from a k p = seal a (chunk_nonce k True) p"
  by (simp add: enc_from.simps)

lemma enc_from_step:
  "length c = ChunkSize \<Longrightarrow> p \<noteq> [] \<Longrightarrow>
   enc_from a k (c @ p) = seal a (chunk_nonce k False) c @ enc_from a (k + 1) p"
  by (subst enc_from.simps) (cases p; simp)


section \<open>Sizes\<close>

definition stream_chunks :: "int \<Rightarrow> int" where
  "stream_chunks p = (if p = 0 then 1 else (p + 65535) div 65536)"

definition encrypted_size :: "int \<Rightarrow> int" where
  "encrypted_size p = p + 16 * stream_chunks p"

lemma wrap64_id: "- (2 ^ 63) \<le> x \<Longrightarrow> x < 2 ^ 63 \<Longrightarrow> wrap64 x = x"
  by (simp add: wrap64_def mod_pos_pos_trivial)

lemma chunk_consts: "int encChunkSize = 65552" "int ChunkSize = 65536" "int Overhead = 16"
  by (simp_all add: encChunkSize_def ChunkSize_def Overhead_def)

lemma EncryptedChunkCount_eq:
  assumes "- 65551 \<le> n" and "n < 2 ^ 63 - 65552"
  defines "c \<equiv> go_div (n + 65551) 65552"
  shows "EncryptedChunkCount n =
    (if (if n - 16 * c = 0 then 1 else go_div (n - 16 * c + 65535) 65536) = c then Inr c else Inl InvalidPayloadSize)"
proof -
  have c: "c = (n + 65551) div 65552" using assms by (simp add: go_div_def)
  have b: "0 \<le> c" "16 * c \<le> n + 65551" using assms(1,2) unfolding c by (auto simp: pos_imp_zdiv_nonneg_iff)
  have w: "wrap64 (n + 65552) = n + 65552" "wrap64 (n + 65551) = n + 65551" "wrap64 (c * 16) = c * 16"
    "wrap64 (n - c * 16) = n - c * 16" "wrap64 (n - c * 16 + 65536) = n - c * 16 + 65536"
    "wrap64 (n - c * 16 + 65535) = n - c * 16 + 65535"
    using assms(1,2) b by (simp_all add: wrap64_id)
  have "wrap64 (wrap64 (n + 65552) - 1) = n + 65551" unfolding w(1) using w(2) by (simp add: add_diff_eq [symmetric])
  then have g: "go_div (wrap64 (wrap64 (n + 65552) - 1)) 65552 = c" by (simp only: c_def)
  have "wrap64 (wrap64 (n - c * 16 + 65536) - 1) = n - c * 16 + 65535"
    unfolding w(5) using w(6) by (simp add: add_diff_eq [symmetric])
  then show ?thesis unfolding EncryptedChunkCount_def chunk_consts Let_def g w(3) w(4)
    by (simp only: mult.commute [of c 16]) meson
qed

lemma ceil_chunk:
  assumes "0 < (p :: int)"
  shows "c = (p + 65535) div 65536 \<longleftrightarrow> 65536 * (c - 1) < p \<and> p \<le> 65536 * c"
    and "c = (p + 65551) div 65552 \<longleftrightarrow> 65552 * (c - 1) < p \<and> p \<le> 65552 * c"
  by auto

lemma EncryptedChunkCount_iff:
  assumes "0 \<le> n" and "n < 2 ^ 63 - 65552"
  shows "EncryptedChunkCount n = Inr c \<longleftrightarrow> (\<exists>p \<ge> 0. n = encrypted_size p \<and> c = stream_chunks p)"
proof -
  define d where "d = (n + 65551) div 65552"
  have gd: "go_div (n + 65551) 65552 = d" using assms by (simp add: go_div_def d_def)
  have count: "EncryptedChunkCount n = Inr c \<longleftrightarrow> c = d \<and>
      (if n - 16 * d = 0 then 1 else go_div (n - 16 * d + 65535) 65536) = d"
    using EncryptedChunkCount_eq [of n] assms by (auto simp: gd)
  show ?thesis
  proof
    assume "EncryptedChunkCount n = Inr c"
    then have cd: "c = d" and e: "(if n - 16 * d = 0 then 1 else go_div (n - 16 * d + 65535) 65536) = d"
      unfolding count by auto
    define p where "p = n - 16 * d"
    have d0: "0 \<le> d" using assms by (auto simp: d_def pos_imp_zdiv_nonneg_iff)
    have "0 \<le> p"
    proof (rule ccontr)
      assume neg: "\<not> 0 \<le> p"
      have "d \<noteq> 0"
      proof
        assume "d = 0"
        then have "n = 0" using assms(1) by (auto simp: d_def)
        with \<open>d = 0\<close> neg show False by (simp add: p_def)
      qed
      moreover have "go_div (p + 65535) 65536 \<le> 0"
        using neg by (auto simp: go_div_def pos_imp_zdiv_nonneg_iff)
      ultimately show False using e d0 neg by (simp add: p_def)
    qed
    moreover have "stream_chunks p = d"
      using e \<open>0 \<le> p\<close> by (auto simp: stream_chunks_def go_div_def p_def split: if_splits)
    ultimately show "\<exists>p \<ge> 0. n = encrypted_size p \<and> c = stream_chunks p"
      using cd by (intro exI [of _ p]) (simp add: encrypted_size_def p_def)
  next
    assume "\<exists>p \<ge> 0. n = encrypted_size p \<and> c = stream_chunks p"
    then obtain p where p: "0 \<le> p" "n = encrypted_size p" "c = stream_chunks p" by blast
    show "EncryptedChunkCount n = Inr c"
    proof (cases "p = 0")
      case True
      then have n: "n = 16" "c = 1" using p by (simp_all add: encrypted_size_def stream_chunks_def)
      then have "d = 1" by (simp add: d_def)
      with n show ?thesis unfolding count by simp
    next
      case False
      then have "c = (p + 65535) div 65536" "n = p + 16 * c" using p by (simp_all add: stream_chunks_def encrypted_size_def)
      moreover from this have "d = c" unfolding d_def using p(1) False by auto
      ultimately have "c = d \<and> (if n - 16 * d = 0 then 1 else go_div (n - 16 * d + 65535) 65536) = d"
        using p(1) False by (simp add: go_div_def)
      then show ?thesis unfolding count .
    qed
  qed
qed


text \<open>Small negative sizes pass the check, as truncating division rounds them to zero chunks.\<close>

lemma EncryptedChunkCount_negative:
  assumes "- 65535 \<le> n" and "n < 0"
  shows "EncryptedChunkCount n = Inr 0"
  using assms by (simp add: EncryptedChunkCount_eq go_div_def)

lemma PlaintextSize_iff:
  assumes "0 \<le> n" and "n < 2 ^ 63 - 65552"
  shows "PlaintextSize n = Inr p \<longleftrightarrow> 0 \<le> p \<and> n = encrypted_size p"
proof -
  have w: "wrap64 (n - wrap64 (stream_chunks q * 16)) = q" if "0 \<le> q" "n = encrypted_size q" for q
  proof -
    have "0 \<le> stream_chunks q" using that by (simp add: stream_chunks_def pos_imp_zdiv_nonneg_iff)
    then show ?thesis using that assms by (simp add: encrypted_size_def wrap64_id)
  qed
  show ?thesis
  proof
    assume "PlaintextSize n = Inr p"
    then obtain c where c: "EncryptedChunkCount n = Inr c" and p: "p = wrap64 (n - wrap64 (c * 16))"
      by (auto simp: PlaintextSize_def chunk_consts split: sum.splits)
    from c [unfolded EncryptedChunkCount_iff [OF assms]] obtain q where "0 \<le> q" "n = encrypted_size q" "c = stream_chunks q"
      by blast
    then show "0 \<le> p \<and> n = encrypted_size p" using w [of q] p by simp
  next
    assume "0 \<le> p \<and> n = encrypted_size p"
    then have "EncryptedChunkCount n = Inr (stream_chunks p)" using EncryptedChunkCount_iff [OF assms] by blast
    then show "PlaintextSize n = Inr p" using w \<open>0 \<le> p \<and> n = encrypted_size p\<close> by (simp add: PlaintextSize_def chunk_consts)
  qed
qed

section \<open>The contract of a byte stream\<close>

text \<open>
  A caller that reads with buffers of the lengths \<open>ns\<close> in turn and stops at the first error:
  what it got and the error.
\<close>

fun read_seq :: "(nat \<Rightarrow> 's \<Rightarrow> (bytes \<times> stream_error option) \<times> 's) \<Rightarrow> nat list \<Rightarrow> 's \<Rightarrow> bytes \<times> stream_error option" where
  "read_seq rd [] r = ([], None)"
| "read_seq rd (n # ns) r =
     (case rd n r of
        ((q, Some e), r') \<Rightarrow> (q, Some e)
      | ((q, None), r') \<Rightarrow> (case read_seq rd ns r' of (q', x) \<Rightarrow> (q @ q', x)))"

text \<open>
  \<open>rel r out e\<close>: the reader in state \<open>r\<close> has still to deliver \<open>out\<close> and then the error \<open>e\<close>
  (\<open>EOF\<close> where all is well). The laws are those a caller of \<^verbatim>\<open>io.Reader\<close> relies on.
\<close>

locale byte_stream =
  fixes rd :: "nat \<Rightarrow> 's \<Rightarrow> (bytes \<times> stream_error option) \<times> 's"
    and rel :: "'s \<Rightarrow> bytes \<Rightarrow> stream_error \<Rightarrow> bool"
  assumes step: "rel r out e \<Longrightarrow> rd n r = ((q, x), r') \<Longrightarrow>
      length q \<le> n \<and> (\<exists>out'. out = q @ out' \<and> rel r' out' e) \<and> (x = None \<or> (x = Some e \<and> out = []))"
    and progress: "rel r out e \<Longrightarrow> 0 < n \<Longrightarrow> out \<noteq> [] \<Longrightarrow> fst (fst (rd n r)) \<noteq> []"
    and finishes: "rel r [] e \<Longrightarrow> 0 < n \<Longrightarrow> 0 < m \<Longrightarrow>
      snd (fst (rd n r)) = Some e \<or> snd (fst (rd m (snd (rd n r)))) = Some e"
begin

lemma read_prefix:
  "rel r out e \<Longrightarrow> read_seq rd ns r = (q, x) \<Longrightarrow> (x = None \<and> (\<exists>t. out = q @ t)) \<or> (x = Some e \<and> q = out)"
proof (induction ns arbitrary: r out q x)
  case Nil
  then show ?case by simp
next
  case (Cons n ns)
  obtain q1 y r' where rd: "rd n r = ((q1, y), r')" by (metis prod.exhaust)
  from step [OF Cons.prems(1) rd] obtain out' where o: "out = q1 @ out'" "rel r' out' e"
    and y: "y = None \<or> (y = Some e \<and> out = [])" by blast
  from y show ?case
  proof
    assume "y = Some e \<and> out = []"
    then show ?thesis using Cons.prems(2) rd o by simp
  next
    assume none: "y = None"
    obtain q2 z where r2: "read_seq rd ns r' = (q2, z)" by (cases "read_seq rd ns r'")
    with Cons.prems(2) rd none have q: "q = q1 @ q2" "x = z" by simp_all
    from Cons.IH [OF o(2) r2] show ?thesis using o(1) q by auto
  qed
qed

lemma read_complete:
  "rel r out e \<Longrightarrow> \<forall>n \<in> set ns. 0 < n \<Longrightarrow> length out + 2 \<le> length ns \<Longrightarrow> read_seq rd ns r = (out, Some e)"
proof (induction ns arbitrary: r out)
  case Nil
  then show ?case by simp
next
  case (Cons n ns)
  obtain q1 y r' where rd: "rd n r = ((q1, y), r')" by (metis prod.exhaust)
  from step [OF Cons.prems(1) rd] obtain out' where o: "out = q1 @ out'" "rel r' out' e"
    and y: "y = None \<or> (y = Some e \<and> out = [])" by blast
  show ?case
  proof (cases y)
    case (Some z)
    then show ?thesis using y rd o by simp
  next
    case None
    show ?thesis
    proof (cases "out = []")
      case True
      then obtain m ns' where ns: "ns = m # ns'" using Cons.prems(3) by (cases ns) auto
      have "snd (fst (rd m r')) = Some e"
        using finishes [OF Cons.prems(1) [unfolded True], of n m] Cons.prems(2) rd None ns by simp
      moreover have "fst (fst (rd m r')) = []"
        using step [OF o(2), of m] True o(1) by (metis append_is_Nil_conv prod.collapse)
      ultimately show ?thesis using rd None ns True o(1) by (cases "rd m r'"; cases "fst (rd m r')") auto
    next
      case False
      have "q1 \<noteq> []" using progress [OF Cons.prems(1) _ False, of n] Cons.prems(2) rd by simp
      then have "length out' + 2 \<le> length ns" using Cons.prems(3) o(1) by (cases q1) auto
      from Cons.IH [OF o(2) _ this] Cons.prems(2) show ?thesis using rd None o(1) by simp
    qed
  qed
qed

end

end
