(* ===== verification/Stream_Encrypt.thy ===== *)
theory Stream_Encrypt
  imports Stream_Format
begin

text \<open>
  \<open>EncryptWriter\<close> and \<open>EncryptReader\<close> of \<^verbatim>\<open>src/stream/stream.go\<close> produce the format, however
  the plaintext is cut into writes and the ciphertext into reads; the writer never uses a nonce
  twice, whatever its destination does, and repeats its first error for ever.
\<close>

section \<open>What sealing adds\<close>

definition aead_len :: "aead \<Rightarrow> bool" where
  "aead_len a \<longleftrightarrow> (\<forall>n p. length (seal a n p) = length p + Overhead)"

text \<open>An AEAD for examples: the nonce, padded, serves as the tag.\<close>

definition sample_tag :: "bytes \<Rightarrow> bytes" where
  "sample_tag n = take Overhead (n @ replicate Overhead 0)"

definition sample_aead :: aead where
  "sample_aead = \<lparr>seal = \<lambda>n p. p @ sample_tag n,
     aopen = \<lambda>n c. if Overhead \<le> length c \<and> drop (length c - Overhead) c = sample_tag n
       then Some (take (length c - Overhead) c) else None\<rparr>"

lemma sample_tag_length [simp]: "length (sample_tag n) = Overhead"
  by (simp add: sample_tag_def)

lemma sample_aead_len: "aead_len sample_aead"
  by (simp add: aead_len_def sample_aead_def)

section \<open>The length of a stream\<close>

lemma stream_chunks_small: "0 \<le> p \<Longrightarrow> p \<le> 65536 \<Longrightarrow> stream_chunks p = 1"
  using ceil_chunk(1) [of p 1] by (auto simp: stream_chunks_def)

lemma stream_chunks_step: "65536 < p \<Longrightarrow> stream_chunks p = 1 + stream_chunks (p - 65536)"
  using div_add_self2 [of 65536 "p - 65536 + 65535"] by (simp add: stream_chunks_def)

lemma length_enc_from: "aead_len a \<Longrightarrow> int (length (enc_from a k p)) = encrypted_size (int (length p))"
proof (induction a k p rule: enc_from.induct)
  case (1 a k p)
  have len: "length (seal a n q) = length q + 16" for n q using "1.prems" by (simp add: aead_len_def Overhead_def)
  show ?case
  proof (cases "length p \<le> ChunkSize")
    case True
    then have "stream_chunks (int (length p)) = 1" by (intro stream_chunks_small) (simp_all add: ChunkSize_def)
    with True show ?thesis by (simp add: enc_from_last len encrypted_size_def)
  next
    case False
    let ?t = "drop ChunkSize p"
    have "?t \<noteq> []" using False by simp
    then have "enc_from a k p = seal a (chunk_nonce k False) (take ChunkSize p) @ enc_from a (k + 1) ?t"
      using enc_from_step [of "take ChunkSize p" ?t a k] False by simp
    moreover have "stream_chunks (int (length p)) = 1 + stream_chunks (int (length ?t))"
      using stream_chunks_step [of "int (length p)"] False by (simp add: ChunkSize_def of_nat_diff)
    moreover have "int (length p) = 65536 + int (length ?t)" "length (take ChunkSize p) = 65536"
      using False by (simp_all add: ChunkSize_def of_nat_diff)
    ultimately show ?thesis using "1.IH" [OF False "1.prems"] by (simp add: len encrypted_size_def)
  qed
qed

section \<open>The writer\<close>

text \<open>A destination that takes everything, as a buffer does.\<close>

definition append_to :: "bytes \<Rightarrow> bytes \<Rightarrow> stream_error option \<times> bytes" where
  "append_to b d = (None, d @ b)"

text \<open>An open writer that has emitted \<open>k\<close> chunks.\<close>

definition writing :: "nat \<Rightarrow> bytes encrypt_writer \<Rightarrow> bool" where
  "writing k w \<longleftrightarrow> ew_nonce w = chunk_nonce k False \<and> ew_err w = None \<and> length (ew_buf w) \<le> ChunkSize"

lemma flush_full:
  assumes "writing k w" and "length (ew_buf w) = ChunkSize" and "k + 1 < max_chunks"
  shows "flushChunk a append_to False w =
    (Inr (), w\<lparr>ew_dst := ew_dst w @ seal a (chunk_nonce k False) (ew_buf w), ew_nonce := chunk_nonce (k + 1) False, ew_buf := []\<rparr>)"
  using assms by (simp add: flushChunk_def append_to_def writing_def incNonce_chunk_nonce Let_def)

lemma flush_last:
  assumes "writing k w" and "k + 1 < max_chunks"
  shows "flushChunk a append_to True w =
    (Inr (), w\<lparr>ew_dst := ew_dst w @ enc_from a k (ew_buf w), ew_nonce := chunk_nonce (k + 1) True, ew_buf := []\<rparr>)"
  using assms by (simp add: flushChunk_def append_to_def writing_def incNonce_chunk_nonce Let_def enc_from_last)

text \<open>A full buffer with more to come is flushed as one chunk.\<close>

lemma flush_round:
  assumes w: "writing k w" and full: "length (ew_buf w) = ChunkSize" and p: "p \<noteq> []"
    and small: "k * ChunkSize + length (ew_buf w) + length p < max_chunks"
  shows "\<exists>w2. flushChunk a append_to False w = (Inr (), w2) \<and> writing (k + 1) w2 \<and> ew_buf w2 = [] \<and>
    (\<forall>s. ew_dst w2 @ enc_from a (k + 1) (p @ s) = ew_dst w @ enc_from a k (ew_buf w @ p @ s))"
proof -
  have "k \<le> k * ChunkSize" by (simp add: Suc_le_eq)
  moreover have "1 \<le> length p" using p by (cases p) auto
  ultimately have "k + 1 < max_chunks" using small full ChunkSize_pos by linarith
  from flush_full [OF w full this, of a] show ?thesis
    using w enc_from_step [of "ew_buf w" "p @ s" a k for s] full p by (simp add: writing_def)
qed

text \<open>Writing \<open>p\<close> moves \<open>p\<close> from the front of the plaintext to come into the writer.\<close>

lemma write_loop_append:
  assumes "writing k w" and "k * ChunkSize + length (ew_buf w) + length p < max_chunks"
  shows "\<exists>k' w'. write_loop a append_to p w = (Inr (), w') \<and> writing k' w' \<and>
    k' * ChunkSize + length (ew_buf w') = k * ChunkSize + length (ew_buf w) + length p \<and>
    (\<forall>s. ew_dst w' @ enc_from a k' (ew_buf w' @ s) = ew_dst w @ enc_from a k (ew_buf w @ p @ s))"
  using assms
proof (induction "2 * length p + (if length (ew_buf w) = ChunkSize then 1 else 0 :: nat)" arbitrary: p w k rule: less_induct)
  case less
  show ?case
  proof (cases "p = []")
    case True
    then show ?thesis using less.prems by (subst write_loop.simps) auto
  next
    case False
    let ?n = "min (length p) (ChunkSize - length (ew_buf w))"
    let ?w = "w\<lparr>ew_buf := ew_buf w @ take ?n p\<rparr>" and ?p = "drop ?n p"
    have le: "length (ew_buf w) \<le> ChunkSize" using less.prems(1) by (simp add: writing_def)
    have w1: "writing k ?w" using less.prems(1) by (auto simp: writing_def)
    have len: "length (ew_buf ?w) + length ?p = length (ew_buf w) + length p" by simp
    have buf_split: "ew_buf ?w @ ?p @ s = ew_buf w @ p @ s" for s by simp
    show ?thesis
    proof (cases "length (ew_buf ?w) = ChunkSize \<and> ?p \<noteq> []")
      case full: True
      have small: "k * ChunkSize + length (ew_buf ?w) + length ?p < max_chunks" using less.prems(2) len by linarith
      obtain w2 where fl: "flushChunk a append_to False ?w = (Inr (), w2)" and w2: "writing (k + 1) w2" "ew_buf w2 = []"
        and dst: "\<And>s. ew_dst w2 @ enc_from a (k + 1) (?p @ s) = ew_dst ?w @ enc_from a k (ew_buf ?w @ ?p @ s)"
        using flush_round [OF w1 conjunct1 [OF full] conjunct2 [OF full] small] by blast
      have sz: "(k + 1) * ChunkSize + length (ew_buf w2) + length ?p = k * ChunkSize + length (ew_buf w) + length p"
        using full len w2(2) by simp
      have "2 * length ?p + (if length (ew_buf w2) = ChunkSize then 1 else 0 :: nat) <
          2 * length p + (if length (ew_buf w) = ChunkSize then 1 else 0)"
        using False full le ChunkSize_pos w2(2) by (cases "length (ew_buf w) = ChunkSize") auto
      from less.hyps [OF this w2(1), unfolded sz, OF less.prems(2)] obtain k' w' where
        IH: "write_loop a append_to ?p w2 = (Inr (), w')" "writing k' w'"
          "k' * ChunkSize + length (ew_buf w') = k * ChunkSize + length (ew_buf w) + length p"
          "\<And>s. ew_dst w' @ enc_from a k' (ew_buf w' @ s) = ew_dst w2 @ enc_from a (k + 1) (ew_buf w2 @ ?p @ s)"
        by blast
      have "write_loop a append_to p w = write_loop a append_to ?p w2"
        using False le full fl by (subst write_loop.simps) (simp add: Let_def)
      moreover have "ew_dst w2 @ enc_from a (k + 1) (ew_buf w2 @ ?p @ s) = ew_dst w @ enc_from a k (ew_buf w @ p @ s)" for s
        unfolding w2(2) append_Nil dst unfolding buf_split by simp
      ultimately show ?thesis using IH by metis
    next
      case nfull: False
      have n: "0 < ?n"
      proof (rule ccontr)
        assume "\<not> 0 < ?n"
        then have "length (ew_buf ?w) = ChunkSize \<and> ?p \<noteq> []" using le False by auto
        with nfull show False by blast
      qed
      have "2 * length ?p + (if length (ew_buf ?w) = ChunkSize then 1 else 0 :: nat) <
          2 * length p + (if length (ew_buf w) = ChunkSize then 1 else 0)"
        using n by auto
      from less.hyps [OF this w1] less.prems(2) len obtain k' w' where
        IH: "write_loop a append_to ?p ?w = (Inr (), w')" "writing k' w'"
          "k' * ChunkSize + length (ew_buf w') = k * ChunkSize + length (ew_buf w) + length p"
          "\<And>s. ew_dst w' @ enc_from a k' (ew_buf w' @ s) = ew_dst ?w @ enc_from a k (ew_buf ?w @ ?p @ s)"
        by (auto simp: add.assoc)
      have "write_loop a append_to p w = write_loop a append_to ?p ?w"
        using le [folded not_less] by (subst write_loop.simps) (simp only: Let_def False nfull if_False)
      moreover have "ew_dst ?w @ enc_from a k (ew_buf ?w @ ?p @ s) = ew_dst w @ enc_from a k (ew_buf w @ p @ s)" for s
        unfolding buf_split by simp
      ultimately show ?thesis using IH by metis
    qed
  qed
qed


text \<open>A whole session: a list of writes, then \<open>Close\<close>.\<close>

definition write_all :: "aead \<Rightarrow> bytes list \<Rightarrow> (bytes encrypt_writer, stream_error, unit) op" where
  "write_all a ps = seq_ops (map (\<lambda>p. andThen (Write a append_to p) (\<lambda>_. ret ())) ps)"

lemma Write_append:
  assumes "writing k w" and "k * ChunkSize + length (ew_buf w) + length p < max_chunks"
  shows "\<exists>k' w'. Write a append_to p w = (Inr (length p), w') \<and> writing k' w' \<and>
    k' * ChunkSize + length (ew_buf w') = k * ChunkSize + length (ew_buf w) + length p \<and>
    (\<forall>s. ew_dst w' @ enc_from a k' (ew_buf w' @ s) = ew_dst w @ enc_from a k (ew_buf w @ p @ s))"
proof (cases "p = []")
  case True
  then show ?thesis using assms(1) by (intro exI [of _ k] exI [of _ w]) (auto simp: Write_def writing_def)
next
  case False
  have "ew_err w = None" using assms(1) by (simp add: writing_def)
  then have "Write a append_to p w = andThen (write_loop a append_to p) (\<lambda>_. ret (length p)) w"
    using False by (simp add: Write_def)
  with write_loop_append [OF assms, of a] show ?thesis by fastforce
qed

lemma write_all_append:
  assumes "writing k w" and "k * ChunkSize + length (ew_buf w) + length (concat ps) < max_chunks"
  shows "\<exists>k' w'. write_all a ps w = (Inr (), w') \<and> writing k' w' \<and>
    k' * ChunkSize + length (ew_buf w') = k * ChunkSize + length (ew_buf w) + length (concat ps) \<and>
    (\<forall>s. ew_dst w' @ enc_from a k' (ew_buf w' @ s) = ew_dst w @ enc_from a k (ew_buf w @ concat ps @ s))"
  using assms
proof (induction ps arbitrary: k w)
  case Nil
  then show ?case by (auto simp: write_all_def)
next
  case (Cons p ps)
  have "k * ChunkSize + length (ew_buf w) + length p < max_chunks" using Cons.prems(2) by simp
  from Write_append [OF Cons.prems(1) this, of a] obtain k1 w1 where
    1: "Write a append_to p w = (Inr (length p), w1)" "writing k1 w1"
      "k1 * ChunkSize + length (ew_buf w1) = k * ChunkSize + length (ew_buf w) + length p"
      "\<And>s. ew_dst w1 @ enc_from a k1 (ew_buf w1 @ s) = ew_dst w @ enc_from a k (ew_buf w @ p @ s)"
    by blast
  have "k1 * ChunkSize + length (ew_buf w1) + length (concat ps) < max_chunks" using 1(3) Cons.prems(2) by simp
  from Cons.IH [OF 1(2) this] obtain k2 w2 where
    2: "write_all a ps w1 = (Inr (), w2)" "writing k2 w2"
      "k2 * ChunkSize + length (ew_buf w2) = k1 * ChunkSize + length (ew_buf w1) + length (concat ps)"
      "\<And>s. ew_dst w2 @ enc_from a k2 (ew_buf w2 @ s) = ew_dst w1 @ enc_from a k1 (ew_buf w1 @ concat ps @ s)"
    by blast
  have "write_all a (p # ps) w = (Inr (), w2)" using 1(1) 2(1) by (simp add: write_all_def)
  moreover have "k2 * ChunkSize + length (ew_buf w2) = k * ChunkSize + length (ew_buf w) + length (concat (p # ps))"
    using 1(3) 2(3) by simp
  moreover have "ew_dst w2 @ enc_from a k2 (ew_buf w2 @ s) = ew_dst w @ enc_from a k (ew_buf w @ concat (p # ps) @ s)" for s
    by (simp add: 1(4) 2(4))
  ultimately show ?case using 2(2) by blast
qed

definition fresh_writer :: "'d \<Rightarrow> 'd encrypt_writer" where
  "fresh_writer dst = \<lparr>ew_dst = dst, ew_buf = [], ew_nonce = zeroNonce, ew_err = None\<rparr>"

lemma writer_session:
  assumes "length (concat ps) + 1 < max_chunks"
  shows "\<exists>w. andThen (write_all a ps) (\<lambda>_. Close a append_to) (fresh_writer d) = (Inr (), w) \<and>
    ew_dst w = d @ stream_encrypt a (concat ps) \<and> ew_err w = Some AlreadyClosed"
proof -
  have "writing 0 (fresh_writer d)" by (simp add: writing_def fresh_writer_def zeroNonce_chunk_nonce)
  from write_all_append [OF this, of ps a] assms obtain k w where
    w: "write_all a ps (fresh_writer d) = (Inr (), w)" "writing k w"
      "k * ChunkSize + length (ew_buf w) = length (concat ps)"
      "\<And>s. ew_dst w @ enc_from a k (ew_buf w @ s) = d @ enc_from a 0 (concat ps @ s)"
    by (auto simp: fresh_writer_def)
  have "k \<le> k * ChunkSize" by (simp add: Suc_le_eq)
  then have "k + 1 < max_chunks" using w(3) assms by linarith
  with w(2) have "flushChunk a append_to True w = (Inr (), w\<lparr>ew_dst := ew_dst w @ enc_from a k (ew_buf w),
      ew_nonce := chunk_nonce (k + 1) True, ew_buf := []\<rparr>)" by (rule flush_last)
  moreover have "ew_err w = None" using w(2) by (simp add: writing_def)
  ultimately show ?thesis using w(1) w(4) [of "[]"] by (simp add: Close_def stream_encrypt_def)
qed

text \<open>After an error of the destination the writer is dead: it repeats the error and writes nothing.\<close>

lemma writer_error_sticky:
  assumes "ew_err w = Some e"
  shows "Write a dw p w = (Inl e, w)" and "Close a dw w = (Inl e, w)"
  using assms by (simp_all add: Write_def Close_def)


section \<open>The encrypting reader\<close>

definition er_rel :: "aead \<Rightarrow> encrypt_reader \<Rightarrow> bytes \<Rightarrow> stream_error \<Rightarrow> bool" where
  "er_rel a r out e \<longleftrightarrow> aead_len a \<and> e = EOF \<and> er_ready r \<le> length (er_buf r) \<and>
     ((er_err r = Some EOF \<and> er_ready r = length (er_buf r) \<and> out = er_buf r) \<or>
      (er_err r = None \<and> s_fin (er_src r) = EOF \<and> length (er_buf r) \<le> er_ready r + 1 \<and>
       (\<exists>k. er_nonce r = chunk_nonce k False \<and>
         k + length (drop (er_ready r) (er_buf r) @ s_rest (er_src r)) + 1 < max_chunks \<and>
         out = take (er_ready r) (er_buf r) @ enc_from a k (drop (er_ready r) (er_buf r) @ s_rest (er_src r)))))"

lemma Overhead_pos [simp]: "0 < Overhead"
  by (simp add: Overhead_def)

lemma enc_from_nonempty: "aead_len a \<Longrightarrow> enc_from a k p \<noteq> []"
proof -
  assume "aead_len a"
  then have "seal a n q \<noteq> []" for n q by (metis Overhead_pos aead_len_def add_is_0 length_0_conv neq0_conv)
  then show ?thesis by (subst enc_from.simps) simp
qed

lemma drain_rel:
  assumes "er_rel a r out e" and "0 < er_ready r" and "drain n r = ((q, x), r')"
  shows "length q \<le> n \<and> x = None \<and> (\<exists>out'. out = q @ out' \<and> er_rel a r' out' e) \<and> (0 < n \<longrightarrow> q \<noteq> [])"
proof -
  let ?m = "min n (er_ready r)"
  have b: "er_buf r \<noteq> []" and l: "er_ready r \<le> length (er_buf r)" using assms(1,2) by (auto simp: er_rel_def)
  then have q: "q = take ?m (er_buf r)" "x = None"
    and r': "r' = r\<lparr>er_buf := drop ?m (er_buf r), er_ready := er_ready r - ?m\<rparr>"
    using assms(3) by (auto simp: drain_def Let_def min_def)
  have dd: "drop (er_ready r - ?m) (drop ?m (er_buf r)) = drop (er_ready r) (er_buf r)"
    by (simp add: min_def)
  have tt: "take ?m (er_buf r) @ take (er_ready r - ?m) (drop ?m (er_buf r)) = take (er_ready r) (er_buf r)"
    by (simp add: min_def) (metis append_take_drop_id le_add_diff_inverse nat_le_linear take_add)
  have "\<exists>out'. out = q @ out' \<and> er_rel a r' out' e"
  proof (cases "er_err r = Some EOF")
    case True
    then have "out = er_buf r" "er_ready r = length (er_buf r)" using assms(1) by (auto simp: er_rel_def)
    then show ?thesis using assms(1) True by (intro exI [of _ "drop ?m (er_buf r)"]) (auto simp: er_rel_def q r')
  next
    case False
    with assms(1) obtain k where k: "er_err r = None" "s_fin (er_src r) = EOF" "length (er_buf r) \<le> er_ready r + 1"
        "er_nonce r = chunk_nonce k False"
        "k + length (drop (er_ready r) (er_buf r) @ s_rest (er_src r)) + 1 < max_chunks"
        "out = take (er_ready r) (er_buf r) @ enc_from a k (drop (er_ready r) (er_buf r) @ s_rest (er_src r))"
      by (auto simp: er_rel_def)
    let ?out' = "take (er_ready r - ?m) (drop ?m (er_buf r)) @ enc_from a k (drop (er_ready r) (er_buf r) @ s_rest (er_src r))"
    have "er_rel a r' ?out' e" using assms(1) k l by (auto simp: er_rel_def r' dd min_def)
    moreover have "out = q @ ?out'" unfolding k(6) q by (simp only: append_assoc [symmetric] tt)
    ultimately show ?thesis by blast
  qed
  moreover have "length q \<le> n" "0 < n \<longrightarrow> q \<noteq> []" using assms(2) b by (auto simp: q)
  ultimately show ?thesis using q(2) by blast
qed

lemma seal_length: "aead_len a \<Longrightarrow> length (seal a n p) = length p + Overhead"
  by (simp add: aead_len_def)

lemma feed_last:
  assumes "aead_len a" and "er_ready r = 0" and "er_nonce r = chunk_nonce k False" and "s_fin (er_src r) = EOF"
    and "length (er_buf r) \<le> 1" and "length (er_buf r @ s_rest (er_src r)) \<le> ChunkSize" and "k + 1 < max_chunks"
  shows "feedBuffer a r = (Inr (), r\<lparr>er_src := (er_src r)\<lparr>s_rest := []\<rparr>, er_nonce := chunk_nonce (k + 1) True,
    er_buf := enc_from a k (er_buf r @ s_rest (er_src r)),
    er_ready := length (enc_from a k (er_buf r @ s_rest (er_src r))), er_err := Some EOF\<rparr>)"
proof -
  have "\<not> ChunkSize - length (er_buf r) + 1 \<le> length (s_rest (er_src r))" using assms(5,6) by simp
  then have "CopyN (ChunkSize - length (er_buf r) + 1) (er_src r) =
      (s_rest (er_src r), Some EOF, (er_src r)\<lparr>s_rest := []\<rparr>)"
    unfolding CopyN_def by (simp only: if_False assms(4))
  then show ?thesis using assms
    by (simp add: feedBuffer_def incNonce_chunk_nonce enc_from_last seal_length Let_def)
qed

lemma feed_full:
  assumes "aead_len a" and "er_ready r = 0" and "er_nonce r = chunk_nonce k False" and "length (er_buf r) \<le> 1"
    and P: "er_buf r @ s_rest (er_src r) = c @ t # p" and "length c = ChunkSize" and "k + 1 < max_chunks"
  shows "feedBuffer a r = (Inr (), r\<lparr>er_src := (er_src r)\<lparr>s_rest := p\<rparr>, er_nonce := chunk_nonce (k + 1) False,
    er_buf := seal a (chunk_nonce k False) c @ [t], er_ready := ChunkSize + Overhead\<rparr>)"
proof -
  let ?n = "ChunkSize - length (er_buf r) + 1"
  have C: "1 < ChunkSize" by (simp add: ChunkSize_def)
  have "length (er_buf r @ s_rest (er_src r)) = length (c @ t # p)" by (simp only: P)
  then have len: "length (er_buf r) + length (s_rest (er_src r)) = ChunkSize + 1 + length p" using assms(6) by simp
  have "take (ChunkSize + 1) (er_buf r @ s_rest (er_src r)) = c @ [t]" unfolding P using assms(6) by simp
  then have tk: "er_buf r @ take ?n (s_rest (er_src r)) = c @ [t]" using assms(4) C
    by (simp add: Suc_diff_le)
  have "drop (ChunkSize + 1) (er_buf r @ s_rest (er_src r)) = p" unfolding P using assms(6) by simp
  then have dr: "drop ?n (s_rest (er_src r)) = p" using assms(4) C by (simp add: Suc_diff_le)
  have n: "?n \<le> length (s_rest (er_src r))" using len assms(4) C by linarith
  define u where "u = take ?n (s_rest (er_src r))"
  have "CopyN ?n (er_src r) = (u, None, (er_src r)\<lparr>s_rest := p\<rparr>)"
    unfolding CopyN_def using n by (simp only: if_True dr u_def)
  then have "CopyN (Suc (ChunkSize - length (er_buf r))) (er_src r) = (u, None, (er_src r)\<lparr>s_rest := p\<rparr>)" by simp
  moreover have "er_buf r @ u = c @ [t]" using tk by (simp only: u_def)
  ultimately show ?thesis using assms(1-3,6,7)
    by (simp add: feedBuffer_def incNonce_chunk_nonce seal_length Let_def nth_append)
qed

lemma feed_rel:
  assumes "er_rel a r out e" and "er_ready r = 0" and "er_err r = None"
  shows "\<exists>r'. feedBuffer a r = (Inr (), r') \<and> er_rel a r' out e \<and> 0 < er_ready r'"
proof -
  let ?P = "er_buf r @ s_rest (er_src r)"
  from assms obtain k where k: "aead_len a" "e = EOF" "s_fin (er_src r) = EOF" "length (er_buf r) \<le> 1"
      "er_nonce r = chunk_nonce k False" "k + length ?P + 1 < max_chunks" "out = enc_from a k ?P"
    by (auto simp: er_rel_def)
  show ?thesis
  proof (cases "length ?P \<le> ChunkSize")
    case True
    have "k + 1 < max_chunks" using k(6) by simp
    from feed_last [OF k(1) assms(2) k(5,3,4) True this] show ?thesis using k enc_from_nonempty [OF k(1), of k ?P]
      by (simp add: er_rel_def)
  next
    case False
    then have "drop ChunkSize ?P \<noteq> []" unfolding drop_eq_Nil .
    then obtain t p where tp: "drop ChunkSize ?P = t # p" by (cases "drop ChunkSize ?P") auto
    define c where "c = take ChunkSize ?P"
    have P: "?P = c @ t # p" using tp by (metis append_take_drop_id c_def)
    have c: "length c = ChunkSize" using False by (simp add: c_def)
    have "k + 1 < max_chunks" using k(6) by simp
    note f = feed_full [OF k(1) assms(2) k(5,4) P c this]
    have "out = seal a (chunk_nonce k False) c @ enc_from a (k + 1) (t # p)"
      unfolding k(7) P by (rule enc_from_step [OF c]) simp
    moreover have "k + 1 + length (t # p) + 1 < max_chunks" using k(6) c ChunkSize_pos unfolding P
      by (simp del: ChunkSize_pos)
    ultimately have "er_rel a (r\<lparr>er_src := (er_src r)\<lparr>s_rest := p\<rparr>, er_nonce := chunk_nonce (k + 1) False,
        er_buf := seal a (chunk_nonce k False) c @ [t], er_ready := ChunkSize + Overhead\<rparr>) out e"
      using k(1,2,3) assms(3) c by (auto simp: er_rel_def seal_length)
    then show ?thesis using f by simp
  qed
qed

lemma EncryptReader_step:
  assumes "er_rel a r out e" and "EncryptReader_Read a n r = ((q, x), r')"
  shows "length q \<le> n \<and> (\<exists>out'. out = q @ out' \<and> er_rel a r' out' e) \<and>
    (x = None \<or> (x = Some e \<and> out = [])) \<and> (0 < n \<longrightarrow> out = [] \<longrightarrow> x = Some e) \<and> (0 < n \<longrightarrow> out \<noteq> [] \<longrightarrow> q \<noteq> [])"
proof (cases "0 < er_ready r")
  case True
  then have "drain n r = ((q, x), r')" "out \<noteq> []" using assms enc_from_nonempty by (auto simp: EncryptReader_Read_def er_rel_def)
  with drain_rel [OF assms(1) True] show ?thesis by blast
next
  case False
  show ?thesis
  proof (cases "er_err r")
    case (Some y)
    with assms False show ?thesis by (auto simp: EncryptReader_Read_def er_rel_def)
  next
    case None
    have ne: "out \<noteq> []" using assms(1) None enc_from_nonempty by (auto simp: er_rel_def)
    show ?thesis
    proof (cases "n = 0")
      case True
      with assms False None show ?thesis by (auto simp: EncryptReader_Read_def)
    next
      case n: False
      from feed_rel [OF assms(1) _ None] False obtain r1 where
        r1: "feedBuffer a r = (Inr (), r1)" "er_rel a r1 out e" "0 < er_ready r1" by auto
      then have "drain n r1 = ((q, x), r')" using assms(2) False None n by (simp add: EncryptReader_Read_def)
      from drain_rel [OF r1(2,3) this] show ?thesis using ne by blast
    qed
  qed
qed

interpretation er: byte_stream "EncryptReader_Read a" "er_rel a" for a
proof (unfold_locales, goal_cases)
  case (1 r out e n q x r')
  then show ?case using EncryptReader_step by blast
next
  case (2 r out e n)
  then show ?case using EncryptReader_step by (metis prod.collapse)
next
  case (3 r e n m)
  then show ?case using EncryptReader_step by (metis prod.collapse)
qed

definition fresh_encrypt_reader :: "source \<Rightarrow> encrypt_reader" where
  "fresh_encrypt_reader src = \<lparr>er_src = src, er_ready = 0, er_buf = [], er_nonce = zeroNonce, er_err = None\<rparr>"

lemma fresh_er_rel:
  "aead_len a \<Longrightarrow> length p + 1 < max_chunks \<Longrightarrow>
   er_rel a (fresh_encrypt_reader \<lparr>s_rest = p, s_fin = EOF, s_eager = g\<rparr>) (stream_encrypt a p) EOF"
  by (auto simp: er_rel_def fresh_encrypt_reader_def zeroNonce_chunk_nonce stream_encrypt_def intro!: exI [of _ 0])

section \<open>Every run of a writer\<close>

text \<open>
  A destination that keeps what it is given and may fail at will, and the writers reachable
  with it by any sequence of calls, failed ones included (a panic ends the program).
\<close>

definition logging :: "(bytes list \<Rightarrow> bytes \<Rightarrow> stream_error option) \<Rightarrow> bytes \<Rightarrow> bytes list \<Rightarrow> stream_error option \<times> bytes list" where
  "logging f b log = (f log b, log @ [b])"

inductive writer_run :: "aead \<Rightarrow> (bytes list \<Rightarrow> bytes \<Rightarrow> stream_error option) \<Rightarrow> bytes list encrypt_writer \<Rightarrow> bool"
  for a f where
  opened: "writer_run a f (fresh_writer [])"
| wrote: "writer_run a f w \<Longrightarrow> Write a (logging f) p w = (x, w') \<Longrightarrow> x \<noteq> Inl Panic \<Longrightarrow> writer_run a f w'"
| closed: "writer_run a f w \<Longrightarrow> Close a (logging f) w = (y, w') \<Longrightarrow> y \<noteq> Inl Panic \<Longrightarrow> writer_run a f w'"

text \<open>The nonces of \<open>n\<close> chunks in order, the flag set on none or on the last one.\<close>

definition run_nonces :: "nat \<Rightarrow> bool \<Rightarrow> bytes list" where
  "run_nonces n l = map (\<lambda>i. chunk_nonce i (l \<and> Suc i = n)) [0..<n]"

lemma run_nonces_Suc: "run_nonces (Suc n) l = run_nonces n False @ [chunk_nonce n l]"
  by (auto simp: run_nonces_def)

lemma distinct_run_nonces: "n \<le> max_chunks \<Longrightarrow> distinct (run_nonces n l)"
  by (auto simp: run_nonces_def distinct_map inj_on_def chunk_nonce_inject)

definition run_inv :: "aead \<Rightarrow> bytes list encrypt_writer \<Rightarrow> bool" where
  "run_inv a w \<longleftrightarrow> length (ew_dst w) \<le> max_chunks \<and>
     (\<exists>ps l. length ps = length (ew_dst w) \<and> ew_dst w = map2 (seal a) (run_nonces (length ps) l) ps \<and>
       (ew_err w = None \<longrightarrow> \<not> l \<and> length ps < max_chunks \<and> ew_nonce w = chunk_nonce (length ps) False))"

lemma flush_run:
  assumes "run_inv a w" and "ew_err w = None" and "flushChunk a (logging f) l w = (x, w')" and "x \<noteq> Inl Panic"
  shows "ew_err w' = None \<and> (\<not> l \<longrightarrow> run_inv a w') \<and> run_inv a (w'\<lparr>ew_err := Some e\<rparr>)"
proof -
  from assms(1) [unfolded run_inv_def] obtain ps m where ps0: "length ps = length (ew_dst w)"
      "ew_dst w = map2 (seal a) (run_nonces (length ps) m) ps"
      "ew_err w = None \<longrightarrow> \<not> m \<and> length ps < max_chunks \<and> ew_nonce w = chunk_nonce (length ps) False"
    by (elim conjE exE)
  have "m = False" using ps0(3) assms(2) by simp
  note ps = ps0(1) ps0(3) [rule_format, OF assms(2), THEN conjunct2, THEN conjunct1]
    ps0(2) [unfolded \<open>m = False\<close>] ps0(3) [rule_format, OF assms(2), THEN conjunct2, THEN conjunct2]
  let ?n = "chunk_nonce (length ps) l" and ?log = "ew_dst w @ [seal a (chunk_nonce (length ps) l) (ew_buf w)]"
  have nonce: "(if l then setLastChunkFlag (ew_nonce w) else ew_nonce w) = ?n" by (simp add: ps(4))
  have fc: "flushChunk a (logging f) l w =
      (if \<not> l \<and> length (ew_buf w) \<noteq> ChunkSize then (Inl Panic, w)
       else case incNonce ?n of
          None \<Rightarrow> (Inl Panic, w\<lparr>ew_dst := ?log, ew_nonce := ?n\<rparr>)
        | Some n' \<Rightarrow> (case f (ew_dst w) (seal a ?n (ew_buf w)) of None \<Rightarrow> Inr () | Some e \<Rightarrow> Inl e,
            w\<lparr>ew_dst := ?log, ew_nonce := n', ew_buf := []\<rparr>))"
    by (simp only: flushChunk_def Let_def nonce logging_def prod.case fail_app)
  obtain n' where n': "incNonce ?n = Some n'" using assms(3,4) unfolding fc by (cases "incNonce ?n") (auto split: if_splits)
  then have inc: "n' = chunk_nonce (length ps + 1) l" "length ps + 1 < max_chunks"
    using incNonce_chunk_nonce [OF ps(2), of l] by (simp_all split: if_splits)
  have w': "w' = w\<lparr>ew_dst := ?log, ew_nonce := chunk_nonce (length ps + 1) l, ew_buf := []\<rparr>"
    using assms(3,4) unfolding fc n' by (auto simp: inc(1) split: if_splits)
  have "run_nonces (length ps) False = map (\<lambda>i. chunk_nonce i False) [0..<length ps]" by (simp add: run_nonces_def)
  then have log: "?log = map2 (seal a) (run_nonces (length (ps @ [ew_buf w])) l) (ps @ [ew_buf w])"
    using ps(3) by (simp add: run_nonces_Suc)
  have len: "length (ps @ [ew_buf w]) = length ?log" using ps(1) by simp
  have bound: "length (ps @ [ew_buf w]) < max_chunks" using inc(2) by simp
  define qs where "qs = ps @ [ew_buf w]"
  have qs: "length qs = length ?log" "?log = map2 (seal a) (run_nonces (length qs) l) qs"
    "length qs < max_chunks" "Suc (length ps) = length qs"
    using len log bound by (simp_all only: qs_def) simp_all
  then have "run_inv a (w\<lparr>ew_dst := ?log, ew_nonce := chunk_nonce (length ps + 1) l, ew_buf := [], ew_err := y\<rparr>)"
    if "y = None \<longrightarrow> \<not> l" for y
    unfolding run_inv_def using that by (intro conjI exI [of _ qs] exI [of _ l]) (simp_all del: length_append)
  then show ?thesis using w' assms(2) by (cases w) auto
qed

lemma noteErr_run:
  assumes "run_inv a w" and "ew_err w = None" and "noteErr (flushChunk a (logging f) l) w = (x, w')" and "x \<noteq> Inl Panic"
  shows "(case x of Inl e \<Rightarrow> run_inv a w' \<and> ew_err w' = Some e
    | Inr u \<Rightarrow> ew_err w' = None \<and> (\<not> l \<longrightarrow> run_inv a w') \<and> (\<forall>e. run_inv a (w'\<lparr>ew_err := Some e\<rparr>)))"
proof -
  obtain y w1 where fl: "flushChunk a (logging f) l w = (y, w1)" by (cases "flushChunk a (logging f) l w")
  then have "y \<noteq> Inl Panic" using assms(3,4) by (auto simp: noteErr_def split: sum.splits if_splits)
  from flush_run [OF assms(1,2) fl this] show ?thesis using fl assms(3,4)
    by (auto simp: noteErr_def split: sum.splits if_splits)
qed

lemma run_inv_buf [simp]: "run_inv a (w\<lparr>ew_buf := b\<rparr>) = run_inv a w"
  by (simp add: run_inv_def)

lemma write_loop_run:
  assumes "run_inv a w" and "ew_err w = None" and "write_loop a (logging f) p w = (x, w')" and "x \<noteq> Inl Panic"
  shows "run_inv a w' \<and> (case x of Inl e \<Rightarrow> ew_err w' = Some e | Inr _ \<Rightarrow> ew_err w' = None)"
  using assms
proof (induction "2 * length p + (if length (ew_buf w) = ChunkSize then 1 else 0 :: nat)" arbitrary: p w rule: less_induct)
  case less
  show ?case
  proof (cases "p = [] \<or> length (ew_buf w) > ChunkSize")
    case True
    then show ?thesis using less.prems by (subst (asm) write_loop.simps) (auto split: if_splits)
  next
    case ok: False
    let ?n = "min (length p) (ChunkSize - length (ew_buf w))"
    let ?w = "w\<lparr>ew_buf := ew_buf w @ take ?n p\<rparr>" and ?p = "drop ?n p"
    have inv: "run_inv a ?w" "ew_err ?w = None" using less.prems(1,2) by simp_all
    have ok': "\<not> p = []" "\<not> length (ew_buf w) > ChunkSize" using ok by simp_all
    have wl: "write_loop a (logging f) p w = (if length (ew_buf ?w) = ChunkSize \<and> ?p \<noteq> []
        then andThen (noteErr (flushChunk a (logging f) False)) (\<lambda>_. write_loop a (logging f) ?p) ?w
        else write_loop a (logging f) ?p ?w)"
      by (subst write_loop.simps) (simp only: Let_def ok' if_False)
    show ?thesis
    proof (cases "length (ew_buf ?w) = ChunkSize \<and> ?p \<noteq> []")
      case full: True
      obtain y w1 where fl: "noteErr (flushChunk a (logging f) False) ?w = (y, w1)"
        by (cases "noteErr (flushChunk a (logging f) False) ?w")
      have run: "write_loop a (logging f) p w = (case y of Inl e \<Rightarrow> (Inl e, w1) | Inr _ \<Rightarrow> write_loop a (logging f) ?p w1)"
        unfolding wl using full fl by (simp add: andThen_def del: drop_eq_Nil)
      show ?thesis
      proof (cases y)
        case (Inl e)
        then show ?thesis using noteErr_run [OF inv fl] run less.prems(3,4) by auto
      next
        case (Inr u)
        with noteErr_run [OF inv fl] have w1: "run_inv a w1" "ew_err w1 = None" by auto
        have "ew_buf w1 = []" using fl Inr flushChunk_buf by fastforce
        moreover have "0 < ?n \<or> length (ew_buf w) = ChunkSize" using ok' by auto
        ultimately have "2 * length ?p + (if length (ew_buf w1) = ChunkSize then 1 else 0 :: nat) <
            2 * length p + (if length (ew_buf w) = ChunkSize then 1 else 0)"
          using ok' ChunkSize_pos by (auto simp: min_def simp del: ChunkSize_pos split: if_splits)
        from less.hyps [OF this w1] show ?thesis using run Inr less.prems(3,4) by simp
      qed
    next
      case nfull: False
      have "0 < ?n"
      proof (rule ccontr)
        assume "\<not> 0 < ?n"
        then have "length (ew_buf ?w) = ChunkSize \<and> ?p \<noteq> []" using ok' by auto
        with nfull show False by blast
      qed
      then have "2 * length ?p + (if length (ew_buf ?w) = ChunkSize then 1 else 0 :: nat) <
          2 * length p + (if length (ew_buf w) = ChunkSize then 1 else 0)" by auto
      moreover have "write_loop a (logging f) ?p ?w = (x, w')" using less.prems(3) unfolding wl if_not_P [OF nfull] .
      ultimately show ?thesis using less.hyps [OF _ inv] less.prems(4) by blast
    qed
  qed
qed

lemma writer_run_inv: "writer_run a f w \<Longrightarrow> run_inv a w"
proof (induction rule: writer_run.induct)
  case opened
  then show ?case
    by (auto simp: run_inv_def fresh_writer_def zeroNonce_chunk_nonce run_nonces_def max_chunks_def)
next
  case (wrote w p x w')
  show ?case
  proof (cases "ew_err w = None \<and> p \<noteq> []")
    case True
    then obtain y where "write_loop a (logging f) p w = (y, w')" "y \<noteq> Inl Panic"
      using wrote.hyps(2,3) by (auto simp: Write_def andThen_def split: prod.splits sum.splits)
    then show ?thesis using write_loop_run [OF wrote.IH] True by blast
  qed (use wrote in \<open>auto simp: Write_def split: option.splits\<close>)
next
  case (closed w y w')
  show ?case
  proof (cases "ew_err w")
    case None
    obtain z w1 where fl: "noteErr (flushChunk a (logging f) True) w = (z, w1)"
      by (cases "noteErr (flushChunk a (logging f) True) w")
    with closed.hyps(2,3) None have "z \<noteq> Inl Panic" by (auto simp: Close_def andThen_def)
    from noteErr_run [OF closed.IH None fl this] show ?thesis
      using fl None closed.hyps(2) by (auto simp: Close_def andThen_def split: sum.splits)
  qed (use closed in \<open>auto simp: Close_def\<close>)
qed

section \<open>Properties\<close>

lemma new_writer: "NewEncryptWriter new key d = Inr (a, w) \<Longrightarrow> w = fresh_writer d"
  by (auto simp: NewEncryptWriter_def fresh_writer_def split: option.splits)

lemma closed_writer_dst:
  assumes "NewEncryptWriter new key d = Inr (a, w)" and "length (concat ps) + 1 < max_chunks"
  shows "ew_dst (snd (andThen (write_all a ps) (\<lambda>_. Close a append_to) w)) = d @ stream_encrypt a (concat ps)"
  using writer_session [OF assms(2)] new_writer [OF assms(1)] by (metis snd_conv)

text \<open>For the size of a stored stream, \<open>EncryptedChunkCount\<close> and \<open>PlaintextSize\<close> accept exactly the
  sizes of encryptions, and compute the number of chunks and the size of the plaintext, with no
  wrap-around below the stated bound.\<close>

theorem stream_sizes_exact:
  assumes "0 \<le> n" and "n < 2 ^ 63 - 65552"
  shows "(EncryptedChunkCount n = Inr c \<longleftrightarrow> (\<exists>p \<ge> 0. n = encrypted_size p \<and> c = stream_chunks p)) \<and>
    (PlaintextSize n = Inr p \<longleftrightarrow> 0 \<le> p \<and> n = encrypted_size p)"
  using EncryptedChunkCount_iff [OF assms] PlaintextSize_iff [OF assms] by blast

theorem stream_sizes_exact_witness:
  "EncryptedChunkCount 65569 = Inr 2 \<and> PlaintextSize 65569 = Inr 65537 \<and> PlaintextSize 65568 \<noteq> Inr 65536"
proof -
  have "encrypted_size 65537 = 65569" "stream_chunks 65537 = 2" "encrypted_size 65536 \<noteq> 65568"
    by (simp_all add: encrypted_size_def stream_chunks_def)
  then show ?thesis
    using stream_sizes_exact [of 65569 2 65537] stream_sizes_exact [of 65568 1 65536] by auto
qed

text \<open>The size functions agree with the format: from the length of an encryption they recover the
  length of the plaintext and the number of its chunks.\<close>

lemma PlaintextSize_of_stream:
  assumes "aead_len a" and "int (length p) < 2 ^ 62"
  shows "PlaintextSize (int (length (stream_encrypt a p))) = Inr (int (length p)) \<and>
    EncryptedChunkCount (int (length (stream_encrypt a p))) = Inr (stream_chunks (int (length p)))"
proof -
  let ?n = "int (length p)"
  have len: "int (length (stream_encrypt a p)) = encrypted_size ?n"
    unfolding stream_encrypt_def by (rule length_enc_from [OF assms(1)])
  have "65536 * stream_chunks ?n \<le> ?n + 65536" by (auto simp: stream_chunks_def)
  then have "encrypted_size ?n < 2 ^ 63 - 65552" "0 \<le> encrypted_size ?n"
    using assms(2) by (auto simp: encrypted_size_def stream_chunks_def)
  then show ?thesis unfolding len using EncryptedChunkCount_iff PlaintextSize_iff by (metis of_nat_0_le_iff)
qed

text \<open>C13: whatever the cuts of the plaintext into calls of \<open>Write\<close>, a writer that is closed has written
  exactly the encryption of the whole plaintext, and refuses everything from then on.\<close>

theorem writer_format:
  assumes "NewEncryptWriter new key d = Inr (a, w0)" and "length (concat ps) + 1 < max_chunks"
  shows "\<exists>w. andThen (write_all a ps) (\<lambda>_. Close a append_to) w0 = (Inr (), w) \<and>
    ew_dst w = d @ stream_encrypt a (concat ps) \<and>
    (\<forall>q. Write a append_to q w = (Inl AlreadyClosed, w)) \<and> Close a append_to w = (Inl AlreadyClosed, w)"
proof -
  have "w0 = fresh_writer d" using assms(1) by (rule new_writer)
  with writer_session [OF assms(2)] writer_error_sticky show ?thesis by metis
qed

theorem writer_format_witness:
  "\<exists>w. andThen (write_all sample_aead [[1], [], [2, 3]]) (\<lambda>_. Close sample_aead append_to) (fresh_writer []) = (Inr (), w) \<and>
    ew_dst w = [] @ stream_encrypt sample_aead [1, 2, 3]"
  using writer_format [of "\<lambda>_. Some sample_aead" "[]" "[]" sample_aead "fresh_writer []" "[[1], [], [2, 3]]"]
  by (auto simp: NewEncryptWriter_def fresh_writer_def max_chunks_def)

text \<open>C14: the encrypting reader yields the same stream as the writer, for every cut into reads.\<close>

theorem encrypt_reader_equals_writer:
  assumes "aead_len a" and "length p + 1 < max_chunks"
    and "NewEncryptReader new key \<lparr>s_rest = p, s_fin = EOF, s_eager = g\<rparr> = Inr (a, r)"
    and "NewEncryptWriter new key [] = Inr (b, w)" and "concat ps = p"
    and "\<forall>n \<in> set ns. 0 < n" and "length (stream_encrypt a p) + 2 \<le> length ns"
  shows "read_seq (EncryptReader_Read a) ns r =
    (ew_dst (snd (andThen (write_all b ps) (\<lambda>_. Close b append_to) w)), Some EOF)"
proof -
  have r: "r = fresh_encrypt_reader \<lparr>s_rest = p, s_fin = EOF, s_eager = g\<rparr>" and b: "b = a"
    using assms(3,4) by (auto simp: NewEncryptReader_def NewEncryptWriter_def fresh_encrypt_reader_def split: option.splits)
  have "length (concat ps) + 1 < max_chunks" using assms(2,5) by simp
  from closed_writer_dst [OF assms(4) this] show ?thesis
    using er.read_complete [OF fresh_er_rel [OF assms(1,2)] assms(6,7)] assms(5) by (simp add: r b)
qed

theorem encrypt_reader_equals_writer_witness:
  "read_seq (EncryptReader_Read sample_aead) (replicate 21 2)
     (fresh_encrypt_reader \<lparr>s_rest = [1, 2, 3], s_fin = EOF, s_eager = False\<rparr>) =
   (ew_dst (snd (andThen (write_all sample_aead [[1, 2], [3]]) (\<lambda>_. Close sample_aead append_to) (fresh_writer []))), Some EOF)"
proof (rule encrypt_reader_equals_writer [where new = "\<lambda>_. Some sample_aead" and key = "[]" and p = "[1, 2, 3]" and g = False])
  show "length (stream_encrypt sample_aead [1, 2, 3]) + 2 \<le> length (replicate 21 2)"
    by (simp add: stream_encrypt_def enc_from_last ChunkSize_def sample_aead_def Overhead_def)
qed (auto simp: sample_aead_len max_chunks_def NewEncryptReader_def NewEncryptWriter_def fresh_encrypt_reader_def fresh_writer_def)

text \<open>C12: for every destination and every sequence of calls, failed ones included, the chunks handed to the
  destination are numbered consecutively, only the last can carry the last-chunk flag, and no nonce
  seals two chunks.\<close>

theorem nonces_never_reused:
  assumes "writer_run a f w"
  shows "\<exists>ps l. ew_dst w = map2 (seal a) (run_nonces (length ps) l) ps \<and> distinct (run_nonces (length ps) l)"
proof -
  from writer_run_inv [OF assms, unfolded run_inv_def] obtain ps l where
    b: "length (ew_dst w) \<le> max_chunks" and n: "length ps = length (ew_dst w)"
    and d: "ew_dst w = map2 (seal a) (run_nonces (length ps) l) ps"
    by (elim conjE exE)
  from b n have "length ps \<le> max_chunks" by simp
  with d show ?thesis by (intro exI conjI distinct_run_nonces)
qed

theorem nonces_never_reused_witness:
  "\<exists>ps l. ew_dst (snd (Close sample_aead (logging (\<lambda>_ _. None)) (fresh_writer []))) =
     map2 (seal sample_aead) (run_nonces (length ps) l) ps \<and> distinct (run_nonces (length ps) l)"
proof (rule nonces_never_reused)
  let ?c = "Close sample_aead (logging (\<lambda>_ _. None)) (fresh_writer [])"
  have "flushChunk sample_aead (logging (\<lambda>_ _. None)) True (fresh_writer []) =
      (Inr (), (fresh_writer [])\<lparr>ew_dst := [seal sample_aead (chunk_nonce 0 True) []],
        ew_nonce := chunk_nonce 1 True, ew_buf := []\<rparr>)"
    using incNonce_chunk_nonce [of 0 True]
    by (simp add: flushChunk_def logging_def fresh_writer_def zeroNonce_chunk_nonce max_chunks_def)
  then have "fst ?c \<noteq> Inl Panic" by (simp add: Close_def fresh_writer_def)
  then show "writer_run sample_aead (\<lambda>_ _. None) (snd ?c)"
    by (intro writer_run.closed [OF writer_run.opened, of _ _ "fst ?c"]) simp_all
qed

lemma write_loop_err: "write_loop a dw p w = (Inl e, w') \<Longrightarrow> e \<noteq> Panic \<Longrightarrow> ew_err w' = Some e"
proof (induction a dw p w rule: write_loop.induct)
  case (1 a dw p w)
  let ?n = "min (length p) (ChunkSize - length (ew_buf w))"
  let ?w = "w\<lparr>ew_buf := ew_buf w @ take ?n p\<rparr>" and ?p = "drop ?n p"
  have "\<not> (p = [] \<or> length (ew_buf w) > ChunkSize)"
  proof
    assume "p = [] \<or> length (ew_buf w) > ChunkSize"
    then show False using "1.prems" by (subst (asm) write_loop.simps) (auto split: if_splits)
  qed
  then have ok: "\<not> p = []" "\<not> length (ew_buf w) > ChunkSize" by simp_all
  show ?case
  proof (cases "length (ew_buf ?w) = ChunkSize \<and> ?p \<noteq> []")
    case full: True
    obtain y w1 where fl: "noteErr (flushChunk a dw False) ?w = (y, w1)"
      by (cases "noteErr (flushChunk a dw False) ?w")
    have run: "write_loop a dw p w = andThen (noteErr (flushChunk a dw False)) (\<lambda>_. write_loop a dw ?p) ?w"
      by (subst write_loop.simps) (simp only: Let_def ok if_False full simp_thms if_True)
    show ?thesis
    proof (cases y)
      case (Inl e')
      then show ?thesis using fl run "1.prems" by (auto simp: noteErr_def split: prod.splits sum.splits)
    next
      case (Inr u)
      then have "write_loop a dw ?p w1 = (Inl e, w')" using run fl "1.prems"(1) by simp
      moreover have "noteErr (flushChunk a dw False) ?w = (Inr u, w1)" using fl Inr by (simp only:)
      ultimately show ?thesis by (intro "1.IH"(1) [OF ok refl refl refl full] "1.prems"(2))
    qed
  next
    case False
    have "write_loop a dw p w = write_loop a dw ?p ?w"
      by (subst write_loop.simps) (simp only: Let_def ok if_False False)
    then show ?thesis by (intro "1.IH"(2) [OF ok refl refl refl False] "1.prems"(2)) (use "1.prems"(1) in \<open>simp only:\<close>)
  qed
qed

text \<open>After an error of \<open>Write\<close> or \<open>Close\<close> the writer is dead, whatever the destination: every later
  call reports that same error and leaves the writer and the destination untouched.\<close>

theorem writer_errors_final:
  assumes "Write a dw p w = (Inl e, w') \<or> Close a dw w = (Inl e, w')" and "e \<noteq> Panic"
  shows "Write a dw q w' = (Inl e, w') \<and> Close a dw w' = (Inl e, w')"
proof -
  have "ew_err w' = Some e"
  proof (cases "ew_err w")
    case (Some y)
    then show ?thesis using assms(1) by (auto simp: Write_def Close_def)
  next
    case None
    from assms(1) show ?thesis
    proof
      assume "Write a dw p w = (Inl e, w')"
      then have "write_loop a dw p w = (Inl e, w')"
        using None by (auto simp: Write_def andThen_def split: if_splits prod.splits sum.splits)
      then show ?thesis using write_loop_err assms(2) by blast
    next
      assume "Close a dw w = (Inl e, w')"
      then show ?thesis using None assms(2)
        by (auto simp: Close_def andThen_def noteErr_def split: if_splits prod.splits sum.splits)
    qed
  qed
  then show ?thesis using writer_error_sticky by blast
qed

theorem writer_errors_final_witness:
  "Write sample_aead (\<lambda>_ d. (Some (OtherError 5), d)) [1]
     (snd (Close sample_aead (\<lambda>_ d. (Some (OtherError 5), d)) (fresh_writer ()))) =
   (Inl (OtherError 5), snd (Close sample_aead (\<lambda>_ d. (Some (OtherError 5), d)) (fresh_writer ())))"
proof -
  let ?dw = "\<lambda>(_ :: bytes) (d :: unit). (Some (OtherError 5), d)" and ?w = "fresh_writer () :: unit encrypt_writer"
  have "fst (Close sample_aead ?dw ?w) = Inl (OtherError 5)"
    using incNonce_chunk_nonce [of 0 True]
    by (simp add: Close_def andThen_def noteErr_def flushChunk_def fresh_writer_def zeroNonce_chunk_nonce max_chunks_def)
  then have "Close sample_aead ?dw ?w = (Inl (OtherError 5), snd (Close sample_aead ?dw ?w))" by (metis prod.collapse)
  then show ?thesis
    using writer_errors_final [of sample_aead ?dw "[]" ?w "OtherError 5" "snd (Close sample_aead ?dw ?w)" "[1]"] by simp
qed

end
