(* ===== verification/Stream_Decrypt.thy ===== *)
theory Stream_Decrypt
  imports Stream_Encrypt
begin

text \<open>
  The decrypting reader of \<^verbatim>\<open>src/stream/stream.go\<close>. \<open>dec_from\<close> is the reference decryptor: a pure
  function of the ciphertext that says what is delivered and how the stream ends. The reader
  implements it for every split into reads, and it is the inverse of the format.
\<close>

section \<open>What the AEAD promises\<close>

text \<open>
  \<open>aead_ok\<close>: sealing adds sixteen bytes, and opening is the partial inverse of sealing
  under the same nonce (RFC 8439: the tag is a function of key, nonce and ciphertext).
  \<open>nonce_separated\<close>: what is sealed under a nonce does not open under another one.
\<close>

definition aead_ok :: "aead \<Rightarrow> bool" where
  "aead_ok a \<longleftrightarrow> aead_len a \<and> (\<forall>n c p. aopen a n c = Some p \<longleftrightarrow> c = seal a n p)"

definition nonce_separated :: "aead \<Rightarrow> bool" where
  "nonce_separated a \<longleftrightarrow> (\<forall>n m p. length n = 12 \<longrightarrow> length m = 12 \<longrightarrow> n \<noteq> m \<longrightarrow> aopen a n (seal a m p) = None)"

definition open_len :: "aead \<Rightarrow> bool" where
  "open_len a \<longleftrightarrow> (\<forall>n c p. aopen a n c = Some p \<longrightarrow> length c = length p + Overhead)"

lemma aead_ok_open: "aead_ok a \<Longrightarrow> aopen a n c = Some p \<longleftrightarrow> c = seal a n p"
  by (simp add: aead_ok_def)

lemma aead_ok_len: "aead_ok a \<Longrightarrow> aead_len a"
  by (simp add: aead_ok_def)

lemma aead_ok_open_len: "aead_ok a \<Longrightarrow> open_len a"
  by (simp add: aead_ok_def open_len_def aead_len_def)

section \<open>The reference decryptor\<close>

lemma encChunkSize_pos [simp]: "0 < encChunkSize"
  by (simp add: encChunkSize_def ChunkSize_def)

text \<open>
  The delivery of \<open>s\<close>, the ciphertext from chunk \<open>k\<close> on, and the error after it. The flag \<open>g\<close> is
  that of the source: it may report the end together with the last byte.
\<close>

function dec_from :: "aead \<Rightarrow> bool \<Rightarrow> nat \<Rightarrow> bytes \<Rightarrow> bytes \<times> stream_error" where
  "dec_from a g k s =
     (if s = [] then ([], UnexpectedEOF)
      else if length s < encChunkSize then
        (if k \<noteq> 0 \<and> length s = Overhead then ([], LastChunkEmpty)
         else case aopen a (chunk_nonce k True) s of None \<Rightarrow> ([], DecryptFailed) | Some p \<Rightarrow> (p, EOF))
      else
        let c = take encChunkSize s; t = drop encChunkSize s
        in case aopen a (chunk_nonce k False) c of
             Some p \<Rightarrow> (case dec_from a g (k + 1) t of (q, e) \<Rightarrow> (p @ q, e))
           | None \<Rightarrow>
               (case aopen a (chunk_nonce k True) c of
                  None \<Rightarrow> ([], DecryptFailed)
                | Some p \<Rightarrow> (p, if t = [] \<or> (g \<and> length t = 1) then EOF else TrailingData)))"
  by pat_completeness auto
termination
  by (relation "measure (\<lambda>(a, g, k, s). length s)") auto

declare dec_from.simps [simp del]

lemma dec_from_short:
  "s \<noteq> [] \<Longrightarrow> length s < encChunkSize \<Longrightarrow> dec_from a g k s =
     (if k \<noteq> 0 \<and> length s = Overhead then ([], LastChunkEmpty)
      else case aopen a (chunk_nonce k True) s of None \<Rightarrow> ([], DecryptFailed) | Some p \<Rightarrow> (p, EOF))"
  by (subst dec_from.simps) simp

lemma dec_from_full:
  "length c = encChunkSize \<Longrightarrow> dec_from a g k (c @ t) =
     (case aopen a (chunk_nonce k False) c of
        Some p \<Rightarrow> (case dec_from a g (k + 1) t of (q, e) \<Rightarrow> (p @ q, e))
      | None \<Rightarrow>
          (case aopen a (chunk_nonce k True) c of
             None \<Rightarrow> ([], DecryptFailed)
           | Some p \<Rightarrow> (p, if t = [] \<or> (g \<and> length t = 1) then EOF else TrailingData)))"
  using encChunkSize_pos by (subst dec_from.simps) (auto simp: Let_def simp del: encChunkSize_pos)

text \<open>The shapes of a ciphertext that the proofs distinguish.\<close>

lemma cipher_cases [case_names empty short full]:
  fixes s :: bytes
  obtains "s = []" | "s \<noteq> []" "length s < encChunkSize"
    | c t where "s = c @ t" "length c = encChunkSize"
proof (cases "length s < encChunkSize")
  case False
  then show ?thesis using that(3) [of "take encChunkSize s" "drop encChunkSize s"] by simp
qed (use that in auto)

section \<open>The reader implements the reference\<close>

definition dr_rel :: "aead \<Rightarrow> decrypt_reader \<Rightarrow> bytes \<Rightarrow> stream_error \<Rightarrow> bool" where
  "dr_rel a r out e \<longleftrightarrow> open_len a \<and>
     ((dr_err r = Some e \<and> out = dr_unread r) \<or>
      (dr_err r = None \<and> s_fin (dr_src r) = EOF \<and>
       (\<exists>k q. dr_nonce r = chunk_nonce k False \<and> k + length (s_rest (dr_src r)) + 1 < max_chunks \<and>
         dec_from a (s_eager (dr_src r)) k (s_rest (dr_src r)) = (q, e) \<and> out = dr_unread r @ q)))"

text \<open>One chunk, as \<^verbatim>\<open>readChunk\<close> and the end of \<^verbatim>\<open>Read\<close> treat it.\<close>

definition chunk_end :: "bool \<Rightarrow> decrypt_reader \<Rightarrow> decrypt_reader" where
  "chunk_end isLast r =
     (if isLast then
        let (err, src) = Read1 (dr_src r)
        in r\<lparr>dr_src := src, dr_err := Some (case err of None \<Rightarrow> TrailingData
               | Some e \<Rightarrow> if e \<noteq> EOF then NonEOFAfterEnd e else EOF)\<rparr>
      else r)"

lemma Read_chunk:
  assumes "dr_unread r = []" and "dr_err r = None" and "0 < n"
  shows "DecryptReader_Read a n r =
    (case readChunk a r of
       (Inl e, r') \<Rightarrow> (([], Some e), if e = Panic then r' else r'\<lparr>dr_err := Some e\<rparr>)
     | (Inr isLast, r') \<Rightarrow> ((take n (dr_unread r'), None), chunk_end isLast (r'\<lparr>dr_unread := drop n (dr_unread r')\<rparr>)))"
  using assms by (auto simp: DecryptReader_Read_def chunk_end_def Let_def split: prod.splits sum.splits)

lemma open_take: "open_len a \<Longrightarrow> aopen a n c = Some p \<Longrightarrow> length c \<le> encChunkSize \<Longrightarrow> take encChunkSize p = p"
  by (simp add: open_len_def)

lemma openChunk_eq:
  assumes "open_len a" and "dr_nonce r = chunk_nonce k l" and "k + 1 < max_chunks" and "length inp \<le> encChunkSize"
  shows "openChunk a inp l r =
    (case aopen a (chunk_nonce k l) inp of
       Some p \<Rightarrow> (Inr l, r\<lparr>dr_nonce := chunk_nonce (k + 1) l, dr_unread := p\<rparr>)
     | None \<Rightarrow> if l then (Inl DecryptFailed, r)
         else (case aopen a (chunk_nonce k True) inp of
                 Some p \<Rightarrow> (Inr True, r\<lparr>dr_nonce := chunk_nonce (k + 1) True, dr_unread := p\<rparr>)
               | None \<Rightarrow> (Inl DecryptFailed, r\<lparr>dr_nonce := chunk_nonce k True\<rparr>)))"
proof -
  have id: "r\<lparr>dr_nonce := chunk_nonce k l\<rparr> = r" by (simp flip: assms(2))
  have "k < max_chunks" using assms(3) by simp
  then show ?thesis
    using assms(2,3) id open_take [OF assms(1) _ assms(4), of "chunk_nonce k l"]
      open_take [OF assms(1) _ assms(4), of "chunk_nonce k True"]
    by (cases "aopen a (chunk_nonce k l) inp"; cases "aopen a (chunk_nonce k True) inp"; cases l)
      (simp_all add: openChunk_def incNonce_chunk_nonce)
qed

lemma chunk_end_unread: "chunk_end l (r\<lparr>dr_unread := u\<rparr>) = (chunk_end l r)\<lparr>dr_unread := u\<rparr>"
  by (simp add: chunk_end_def split: prod.splits)

lemma chunk_end_sel [simp]: "dr_unread (chunk_end l r) = dr_unread r"
  by (simp add: chunk_end_def split: prod.splits)

lemma chunk_end_last:
  assumes "s_fin (dr_src r) = EOF"
  shows "dr_err (chunk_end True r) =
    Some (if s_rest (dr_src r) = [] \<or> (s_eager (dr_src r) \<and> length (s_rest (dr_src r)) = 1) then EOF else TrailingData)"
  using assms by (auto simp: chunk_end_def Read1_def split: list.splits)

lemma dr_rel_unread: "dr_rel a r (dr_unread r @ t) e \<Longrightarrow> dr_rel a (r\<lparr>dr_unread := u\<rparr>) (u @ t) e"
  by (auto simp: dr_rel_def)

lemma dr_rel_starts: "dr_rel a r out e \<Longrightarrow> \<exists>t. out = dr_unread r @ t"
  by (auto simp: dr_rel_def)

lemma dr_rel_done: "open_len a \<Longrightarrow> dr_rel a (r\<lparr>dr_unread := u, dr_err := Some e\<rparr>) u e"
  by (simp add: dr_rel_def)

lemma nonce_bound: "k + length (s :: bytes) + 1 < max_chunks \<Longrightarrow> k < max_chunks \<and> k + 1 < max_chunks"
  by simp

text \<open>What \<^verbatim>\<open>readChunk\<close> does with each shape of the remaining ciphertext.\<close>

lemma readChunk_short:
  assumes "open_len a" "dr_unread r = []" "s_fin (dr_src r) = EOF" "dr_nonce r = chunk_nonce k False"
    and "k + length (s_rest (dr_src r)) + 1 < max_chunks" "length (s_rest (dr_src r)) < encChunkSize"
    and "dec_from a g k (s_rest (dr_src r)) = (q, e)" "dr_err r = None"
  shows "(\<exists>r'. readChunk a r = (Inl e, r') \<and> e \<noteq> Panic \<and> q = [] \<and> dr_unread r' = []) \<or>
    (\<exists>r'. readChunk a r = (Inr True, r') \<and> dr_unread r' = q \<and> s_rest (dr_src r') = [] \<and> s_fin (dr_src r') = EOF \<and> e = EOF)"
proof (cases "s_rest (dr_src r) = []")
  case True
  then have "([], UnexpectedEOF) = (q, e)" using assms(7) by (subst (asm) dec_from.simps) simp
  moreover have "readChunk a r = (Inl UnexpectedEOF, r\<lparr>dr_src := dr_src r\<rparr>)"
    using assms(2,3) True by (simp add: readChunk_def ReadFull_def Let_def encChunkSize_pos [unfolded neq0_conv [symmetric]])
  ultimately show ?thesis using assms(2) by simp
next
  case False
  let ?s = "s_rest (dr_src r)" and ?r = "r\<lparr>dr_src := (dr_src r)\<lparr>s_rest := []\<rparr>, dr_nonce := chunk_nonce k True\<rparr>"
  note b = nonce_bound [OF assms(5)]
  have rf: "ReadFull encChunkSize (dr_src r) = (?s, Some UnexpectedEOF, (dr_src r)\<lparr>s_rest := []\<rparr>)"
    using False assms(3,6) by (simp add: ReadFull_def)
  have nz: "nonceIsZero (dr_nonce r) \<longleftrightarrow> k = 0" using b assms(4) by (simp add: nonceIsZero_chunk_nonce)
  note d = assms(7) [unfolded dec_from_short [OF False assms(6)]]
  show ?thesis
  proof (cases "k \<noteq> 0 \<and> length ?s = Overhead")
    case True
    then show ?thesis using d rf nz assms(2) by (simp add: readChunk_def Let_def)
  next
    case nempty: False
    then have "readChunk a r = openChunk a ?s True ?r"
      using rf nz assms(2,4) by (auto simp: readChunk_def Let_def)
    also have "\<dots> = (case aopen a (chunk_nonce k True) ?s of
       Some p \<Rightarrow> (Inr True, ?r\<lparr>dr_nonce := chunk_nonce (k + 1) True, dr_unread := p\<rparr>)
     | None \<Rightarrow> (Inl DecryptFailed, ?r))"
      using openChunk_eq [OF assms(1), of ?r k True ?s] b assms(6) by (simp split: option.splits)
    finally have rc: "readChunk a r = \<dots>" .
    have d': "(case aopen a (chunk_nonce k True) ?s of None \<Rightarrow> ([], DecryptFailed) | Some p \<Rightarrow> (p, EOF)) = (q, e)"
      using d nempty by (simp only: if_False)
    show ?thesis
    proof (cases "aopen a (chunk_nonce k True) ?s")
      case None
      then show ?thesis using rc d' assms(2) by simp
    next
      case (Some p)
      then show ?thesis using rc d' assms(3) by simp
    qed
  qed
qed

lemma readChunk_full:
  assumes "open_len a" "dr_unread r = []" "dr_nonce r = chunk_nonce k False" "k + 1 < max_chunks"
    and "s_rest (dr_src r) = c @ t" "length c = encChunkSize"
  shows "readChunk a r =
    (let r = r\<lparr>dr_src := (dr_src r)\<lparr>s_rest := t\<rparr>\<rparr>
     in case aopen a (chunk_nonce k False) c of
       Some p \<Rightarrow> (Inr False, r\<lparr>dr_nonce := chunk_nonce (k + 1) False, dr_unread := p\<rparr>)
     | None \<Rightarrow> (case aopen a (chunk_nonce k True) c of
                 Some p \<Rightarrow> (Inr True, r\<lparr>dr_nonce := chunk_nonce (k + 1) True, dr_unread := p\<rparr>)
               | None \<Rightarrow> (Inl DecryptFailed, r\<lparr>dr_nonce := chunk_nonce k True\<rparr>)))"
proof -
  let ?r = "r\<lparr>dr_src := (dr_src r)\<lparr>s_rest := t\<rparr>\<rparr>"
  have "readChunk a r = openChunk a c False ?r" using assms(2,5,6) by (simp add: readChunk_def ReadFull_def)
  also have "\<dots> = (case aopen a (chunk_nonce k False) c of
       Some p \<Rightarrow> (Inr False, ?r\<lparr>dr_nonce := chunk_nonce (k + 1) False, dr_unread := p\<rparr>)
     | None \<Rightarrow> (case aopen a (chunk_nonce k True) c of
                 Some p \<Rightarrow> (Inr True, ?r\<lparr>dr_nonce := chunk_nonce (k + 1) True, dr_unread := p\<rparr>)
               | None \<Rightarrow> (Inl DecryptFailed, ?r\<lparr>dr_nonce := chunk_nonce k True\<rparr>)))"
    using openChunk_eq [OF assms(1), of ?r k False c] assms(3,4,6) by (simp split: option.splits)
  finally show ?thesis by (simp only: Let_def)
qed

lemma readChunk_rel:
  assumes "dr_rel a r out e" and u: "dr_unread r = []" and err: "dr_err r = None"
  shows "(\<exists>r'. readChunk a r = (Inl e, r') \<and> e \<noteq> Panic \<and> out = [] \<and> dr_unread r' = []) \<or>
    (\<exists>l r'. readChunk a r = (Inr l, r') \<and> dr_rel a (chunk_end l r') out e \<and>
      (dr_unread r' \<noteq> [] \<or> dr_err (chunk_end l r') = Some e))"
proof -
  let ?s = "s_rest (dr_src r)" and ?g = "s_eager (dr_src r)"
  from assms obtain k where a: "open_len a" and fin: "s_fin (dr_src r) = EOF" and k: "dr_nonce r = chunk_nonce k False"
    "k + length ?s + 1 < max_chunks" and d: "dec_from a ?g k ?s = (out, e)" by (auto simp: dr_rel_def)
  show ?thesis
  proof (cases "length ?s < encChunkSize")
    case True
    from readChunk_short [OF a u fin k True d err] show ?thesis
    proof (elim disjE exE conjE)
      fix r' assume r': "readChunk a r = (Inr True, r')" "dr_unread r' = out" "s_rest (dr_src r') = []"
        "s_fin (dr_src r') = EOF" "e = EOF"
      then have "dr_err (chunk_end True r') = Some e" by (simp add: chunk_end_last)
      then show ?thesis using r' a by (intro disjI2 exI [of _ True] exI [of _ r']) (simp add: dr_rel_def)
    qed auto
  next
    case False
    define c t where ct: "c = take encChunkSize ?s" "t = drop encChunkSize ?s"
    then have s: "?s = c @ t" and c: "length c = encChunkSize" using False by simp_all
    have kb: "k + 1 < max_chunks" "k + 1 + length t + 1 < max_chunks" using k(2) c s encChunkSize_pos by (simp_all del: encChunkSize_pos)
    note rc = readChunk_full [OF a u k(1) kb(1) s c]
    note d' = d [unfolded s dec_from_full [OF c]]
    let ?r = "r\<lparr>dr_src := (dr_src r)\<lparr>s_rest := t\<rparr>\<rparr>"
    show ?thesis
    proof (cases "aopen a (chunk_nonce k False) c")
      case (Some p)
      obtain q where q: "dec_from a ?g (k + 1) t = (q, e)" "out = p @ q" using d' Some by (auto split: prod.splits)
      have "length p = ChunkSize" using a Some c by (auto simp: open_len_def encChunkSize_def)
      then have "p \<noteq> []" by (auto simp: ChunkSize_def)
      let ?r' = "?r\<lparr>dr_nonce := chunk_nonce (k + 1) False, dr_unread := p\<rparr>"
      have "dr_rel a ?r' out e" unfolding dr_rel_def
        using a err fin kb(2) q by (auto intro!: exI [of _ "Suc k"])
      then have "dr_rel a (chunk_end False ?r') out e" by (simp add: chunk_end_def)
      then show ?thesis using rc Some \<open>p \<noteq> []\<close> by (intro disjI2 exI [of _ False] exI [of _ ?r']) simp
    next
      case None
      show ?thesis
      proof (cases "aopen a (chunk_nonce k True) c")
        case None2: None
        then show ?thesis using rc None d' u by simp
      next
        case (Some p)
        let ?r' = "?r\<lparr>dr_nonce := chunk_nonce (k + 1) True, dr_unread := p\<rparr>"
        have "out = p" and e: "e = (if t = [] \<or> (?g \<and> length t = 1) then EOF else TrailingData)"
          using d' None Some by simp_all
        moreover from fin e have "dr_err (chunk_end True ?r') = Some e" by (simp add: chunk_end_last)
        ultimately show ?thesis using rc None Some a by (intro disjI2 exI [of _ True] exI [of _ ?r']) (simp add: dr_rel_def)
      qed
    qed
  qed
qed

lemma take_rel:
  assumes "dr_rel a r out e"
  shows "\<exists>out'. out = take n (dr_unread r) @ out' \<and> dr_rel a (r\<lparr>dr_unread := drop n (dr_unread r)\<rparr>) out' e"
proof -
  from dr_rel_starts [OF assms] obtain t where t: "out = dr_unread r @ t" by blast
  then have "dr_rel a (r\<lparr>dr_unread := drop n (dr_unread r)\<rparr>) (drop n (dr_unread r) @ t) e"
    using assms by (intro dr_rel_unread) simp
  then show ?thesis using t by (intro exI [of _ "drop n (dr_unread r) @ t"]) simp
qed

lemma DecryptReader_step:
  assumes "dr_rel a r out e" and "DecryptReader_Read a n r = ((q, x), r')"
  shows "length q \<le> n \<and> (\<exists>out'. out = q @ out' \<and> dr_rel a r' out' e) \<and> (x = None \<or> (x = Some e \<and> out = [])) \<and>
    (0 < n \<longrightarrow> out \<noteq> [] \<longrightarrow> q \<noteq> []) \<and> (0 < n \<longrightarrow> out = [] \<longrightarrow> x = Some e \<or> dr_err r' = Some e)"
proof (cases "dr_unread r = []")
  case False
  then have "out \<noteq> []" using dr_rel_starts [OF assms(1)] by auto
  with False assms(2) take_rel [OF assms(1), of n] show ?thesis by (auto simp: DecryptReader_Read_def)
next
  case u: True
  show ?thesis
  proof (cases "dr_err r")
    case (Some y)
    then have "y = e" "out = []" using assms(1) u by (auto simp: dr_rel_def)
    with u Some assms show ?thesis by (auto simp: DecryptReader_Read_def)
  next
    case None
    show ?thesis
    proof (cases "n = 0")
      case True
      with u None assms show ?thesis by (auto simp: DecryptReader_Read_def)
    next
      case n: False
      have n0: "0 < n" using n by simp
      note rd = assms(2) [unfolded Read_chunk [OF u None n0]]
      have op: "open_len a" using assms(1) by (simp add: dr_rel_def)
      from readChunk_rel [OF assms(1) u None] show ?thesis
      proof (elim disjE exE conjE)
        fix r1 assume r1: "readChunk a r = (Inl e, r1)" "e \<noteq> Panic" "out = []" "dr_unread r1 = []"
        then have "dr_rel a (r1\<lparr>dr_err := Some e\<rparr>) [] e" using op by (simp add: dr_rel_def)
        with rd r1 show ?thesis by auto
      next
        fix l r1 assume r1: "readChunk a r = (Inr l, r1)" "dr_rel a (chunk_end l r1) out e"
          and un: "dr_unread r1 \<noteq> []"
        from un have "out \<noteq> []" using dr_rel_starts [OF r1(2)] by auto
        then show ?thesis using rd r1(1) n take_rel [OF r1(2), of n] un by (auto simp: chunk_end_unread)
      next
        fix l r1 assume r1: "readChunk a r = (Inr l, r1)" "dr_rel a (chunk_end l r1) out e"
          and er: "dr_err (chunk_end l r1) = Some e"
        then have "out = dr_unread r1" by (auto simp: dr_rel_def)
        then show ?thesis using rd r1(1) n take_rel [OF r1(2), of n] er by (auto simp: chunk_end_unread)
      qed
    qed
  qed
qed

interpretation dr: byte_stream "DecryptReader_Read a" "dr_rel a" for a
proof (unfold_locales, goal_cases)
  case (1 r out e n q x r')
  then show ?case using DecryptReader_step by blast
next
  case (2 r out e n)
  then show ?case using DecryptReader_step by (metis prod.collapse)
next
  case (3 r e n m)
  obtain q x r' where rd: "DecryptReader_Read a n r = ((q, x), r')" by (metis prod.exhaust)
  from DecryptReader_step [OF 3(1) rd] 3(2) have r': "dr_rel a r' [] e" "x = Some e \<or> dr_err r' = Some e" by auto
  have "dr_unread r' = []" using dr_rel_starts [OF r'(1)] by simp
  then show ?case using r'(2) rd by (auto simp: DecryptReader_Read_def)
qed

section \<open>The reference inverts the format\<close>

lemma dec_from_bounds: "open_len a \<Longrightarrow> dec_from a g k s = (q, e) \<Longrightarrow> length q \<le> length s \<and> e \<noteq> Panic"
proof (induction "length s" arbitrary: k s q rule: less_induct)
  case less
  show ?case
  proof (cases s rule: cipher_cases)
    case empty
    with less.prems(2) show ?thesis by (subst (asm) dec_from.simps) auto
  next
    case short
    with less.prems show ?thesis by (auto simp: dec_from_short open_len_def split: if_splits option.splits)
  next
    case (full c t)
    then have t: "length t < length s" using encChunkSize_pos by (simp del: encChunkSize_pos)
    note d = less.prems(2) [unfolded full(1) dec_from_full [OF full(2)]]
    show ?thesis
    proof (cases "aopen a (chunk_nonce k False) c")
      case None
      with d less.prems(1) full(1) show ?thesis by (auto simp: open_len_def split: option.splits if_splits)
    next
      case (Some p)
      with d obtain q' where q': "dec_from a g (k + 1) t = (q', e)" "q = p @ q'" by (auto split: prod.splits)
      with less.hyps [OF t less.prems(1) q'(1)] Some less.prems(1) full(1) show ?thesis by (auto simp: open_len_def)
    qed
  qed
qed

lemma chunk_nonce_flag: "chunk_nonce k False \<noteq> chunk_nonce k True"
  by (simp add: chunk_nonce_def lastChunkFlag_def)

lemma dec_enc:
  assumes "aead_ok a" and "nonce_separated a"
  shows "k = 0 \<or> p \<noteq> [] \<Longrightarrow> dec_from a g k (enc_from a k p) = (p, EOF)"
proof (induction "length p" arbitrary: k p rule: less_induct)
  case less
  have op: "aopen a n (seal a n x) = Some x" for n x using assms(1) by (simp add: aead_ok_def)
  have len: "length (seal a n x) = length x + Overhead" for n x using assms(1) by (simp add: aead_ok_def aead_len_def)
  have C: "length x + Overhead < encChunkSize \<longleftrightarrow> length x < ChunkSize" for x :: bytes by (simp add: encChunkSize_def)
  show ?case
  proof (cases "length p \<le> ChunkSize")
    case True
    then have e: "enc_from a k p = seal a (chunk_nonce k True) p" by (rule enc_from_last)
    show ?thesis
    proof (cases "length p < ChunkSize")
      case short: True
      have "seal a (chunk_nonce k True) p \<noteq> []" using len [of "chunk_nonce k True" p] Overhead_pos by (metis add_is_0 list.size(3) neq0_conv)
      then show ?thesis unfolding e using short less.prems by (simp add: dec_from_short len C op)
    next
      case False
      then have "length (seal a (chunk_nonce k True) p) = encChunkSize" using True by (simp add: len encChunkSize_def)
      from dec_from_full [OF this, of a g k "[]"] show ?thesis unfolding e
        using assms(2) chunk_nonce_flag [of k] by (simp add: op nonce_separated_def)
    qed
  next
    case False
    define c t where ct: "c = take ChunkSize p" "t = drop ChunkSize p"
    then have p: "p = c @ t" and c: "length c = ChunkSize" and t: "t \<noteq> []" "length t < length p"
      using False ChunkSize_pos by (simp_all del: ChunkSize_pos)
    have "length (seal a (chunk_nonce k False) c) = encChunkSize" by (simp add: len c encChunkSize_def)
    then show ?thesis unfolding p enc_from_step [OF c t(1)]
      using less.hyps [OF t(2), of "k + 1"] t(1) by (simp add: dec_from_full op)
  qed
qed

text \<open>The tail that a source which reports its end with its last byte hides from the reader.\<close>

definition hidden_tail :: "bool \<Rightarrow> bytes \<Rightarrow> bytes \<Rightarrow> bool" where
  "hidden_tail g q u \<longleftrightarrow> u = [] \<or> (g \<and> length u = 1 \<and> q \<noteq> [] \<and> length q mod ChunkSize = 0)"

lemma dec_only:
  assumes "aead_ok a"
  shows "dec_from a g k s = (q, EOF) \<Longrightarrow> (k = 0 \<or> q \<noteq> []) \<and> (\<exists>u. s = enc_from a k q @ u \<and> hidden_tail g q u)"
proof (induction "length s" arbitrary: k s q rule: less_induct)
  case less
  have op: "aopen a n c = Some x \<longleftrightarrow> c = seal a n x" for n c x using assms by (simp add: aead_ok_def)
  have len: "length (seal a n x) = length x + Overhead" for n x using assms by (simp add: aead_ok_def aead_len_def)
  show ?case
  proof (cases s rule: cipher_cases)
    case empty
    with less.prems show ?thesis by (subst (asm) dec_from.simps) auto
  next
    case short
    then have s: "s = seal a (chunk_nonce k True) q" and k: "k \<noteq> 0 \<longrightarrow> length s \<noteq> Overhead"
      using less.prems by (auto simp: dec_from_short op split: if_splits option.splits)
    then have "length q < ChunkSize" using short(2) by (simp add: len encChunkSize_def)
    then have "s = enc_from a k q @ []" using s by (simp add: enc_from_last)
    moreover have "k = 0 \<or> q \<noteq> []" using k by (auto simp: s len)
    ultimately show ?thesis unfolding hidden_tail_def by blast
  next
    case (full c t)
    then have t: "length t < length s" using encChunkSize_pos by (simp del: encChunkSize_pos)
    note d = less.prems [unfolded full(1) dec_from_full [OF full(2)]]
    show ?thesis
    proof (cases "aopen a (chunk_nonce k False) c")
      case None
      with d have c: "c = seal a (chunk_nonce k True) q" and u: "t = [] \<or> (g \<and> length t = 1)"
        by (auto simp: op split: option.splits if_splits)
      then have q: "length q = ChunkSize" using full(2) by (simp add: len encChunkSize_def)
      then have "q \<noteq> []" using ChunkSize_pos by (auto simp del: ChunkSize_pos)
      then show ?thesis using c u q full(1) by (intro conjI exI [of _ t]) (simp_all add: enc_from_last hidden_tail_def)
    next
      case (Some p)
      with d obtain q' where q': "dec_from a g (k + 1) t = (q', EOF)" "q = p @ q'" by (auto split: prod.splits)
      have c: "c = seal a (chunk_nonce k False) p" using Some by (simp add: op)
      then have p: "length p = ChunkSize" using full(2) by (simp add: len encChunkSize_def)
      from less.hyps [OF t q'(1)] obtain u where u: "q' \<noteq> []" "t = enc_from a (k + 1) q' @ u" "hidden_tail g q' u" by auto
      have "s = enc_from a k q @ u" unfolding full(1) q'(2) u(2) c enc_from_step [OF p u(1)] by simp
      moreover have "hidden_tail g q u" using u(3) p q'(2) by (auto simp: hidden_tail_def)
      ultimately show ?thesis using u(1) q'(2) by blast
    qed
  qed
qed

section \<open>Properties\<close>

lemma fresh_dr_rel:
  assumes "NewDecryptReader new key \<lparr>s_rest = s, s_fin = EOF, s_eager = g\<rparr> = Inr (a, r)"
    and "open_len a" and "length s + 1 < max_chunks" and "dec_from a g 0 s = (q, e)"
  shows "dr_rel a r q e"
  using assms by (auto simp: NewDecryptReader_def dr_rel_def zeroNonce_chunk_nonce split: option.splits intro!: exI [of _ 0])

lemmas reader_prefix = dr.read_prefix [OF fresh_dr_rel]
lemmas reader_complete_length = dr.read_complete [OF fresh_dr_rel]

lemma reader_complete:
  assumes "NewDecryptReader new key \<lparr>s_rest = s, s_fin = EOF, s_eager = g\<rparr> = Inr (a, r)"
    and "open_len a" and "length s + 1 < max_chunks" and "dec_from a g 0 s = (q, e)"
    and "\<forall>n \<in> set ns. 0 < n" and "length s + 2 \<le> length ns"
  shows "read_seq (DecryptReader_Read a) ns r = (q, Some e)"
proof -
  have "length q + 2 \<le> length ns" using dec_from_bounds [OF assms(2,4)] assms(6) by simp
  with reader_complete_length [OF assms(1-4)] assms(5) show ?thesis by blast
qed

lemma sample_tag_nonce: "length n = 12 \<Longrightarrow> sample_tag n = n @ replicate 4 0"
  by (simp add: sample_tag_def Overhead_def)

lemma sample_aead_ok: "aead_ok sample_aead"
proof -
  have "aopen sample_aead n c = Some p \<longleftrightarrow> c = seal sample_aead n p" for n c p
    by (auto simp: sample_aead_def) (metis append_take_drop_id)
  then show ?thesis using sample_aead_len by (simp add: aead_ok_def)
qed

lemma sample_aead_separated: "nonce_separated sample_aead"
  by (simp add: nonce_separated_def sample_aead_def sample_tag_nonce Overhead_def)

text \<open>C11: on every input, corrupt ones included, the decrypting reader behaves as the reference decryptor
  whatever the buffers of the caller: what it delivers is always a prefix of the reference plaintext,
  an error comes only after the whole of it and is the reference error, never a panic, and reading on
  with non-empty buffers reaches that end.\<close>

theorem decrypt_reader_reference:
  assumes "NewDecryptReader new key \<lparr>s_rest = s, s_fin = EOF, s_eager = g\<rparr> = Inr (a, r)"
    and "open_len a" and "length s + 1 < max_chunks" and "dec_from a g 0 s = (q, e)"
  shows "(\<forall>ns t x. read_seq (DecryptReader_Read a) ns r = (t, x) \<longrightarrow>
      (x = None \<and> (\<exists>u. q = t @ u)) \<or> (x = Some e \<and> t = q)) \<and> e \<noteq> Panic \<and>
    (\<forall>ns. (\<forall>n \<in> set ns. 0 < n) \<and> length s + 2 \<le> length ns \<longrightarrow> read_seq (DecryptReader_Read a) ns r = (q, Some e))"
  using reader_prefix [OF assms] reader_complete [OF assms] dec_from_bounds [OF assms(2,4)] by auto

theorem decrypt_reader_reference_witness:
  "\<exists>r. NewDecryptReader (\<lambda>_. Some sample_aead) [] \<lparr>s_rest = [7, 7], s_fin = EOF, s_eager = False\<rparr> = Inr (sample_aead, r) \<and>
    read_seq (DecryptReader_Read sample_aead) [5, 5, 5, 5] r = ([], Some DecryptFailed)"
proof -
  let ?r = "\<lparr>dr_src = \<lparr>s_rest = [7, 7], s_fin = EOF, s_eager = False\<rparr>, dr_unread = [], dr_nonce = zeroNonce, dr_err = None\<rparr>"
  have n: "NewDecryptReader (\<lambda>_. Some sample_aead) [] \<lparr>s_rest = [7, 7], s_fin = EOF, s_eager = False\<rparr> = Inr (sample_aead, ?r)"
    by (simp add: NewDecryptReader_def)
  have "dec_from sample_aead False 0 [7, 7] = ([], DecryptFailed)"
    by (subst dec_from_short) (simp_all add: encChunkSize_def ChunkSize_def Overhead_def sample_aead_def)
  note ref = decrypt_reader_reference [OF n aead_ok_open_len [OF sample_aead_ok] _ this]
  have "length [7 :: byte, 7] + 1 < max_chunks" by (simp add: max_chunks_def)
  from ref [OF this, THEN conjunct2, THEN conjunct2, rule_format, of "[5, 5, 5, 5]"] n show ?thesis
    by (simp del: read_seq.simps)
qed

text \<open>C9: end to end, for every cut of the plaintext into writes and every cut of the ciphertext into reads:
  what a closed writer produced, the reader turns back into the plaintext followed by \<open>EOF\<close>.\<close>

theorem decrypt_inverts_writer:
  assumes "NewEncryptWriter new key [] = Inr (a, w)" and "aead_ok a" and "nonce_separated a"
    and "length (stream_encrypt a (concat ps)) + 1 < max_chunks"
    and "\<forall>n \<in> set ns. 0 < n" and "length (stream_encrypt a (concat ps)) + 2 \<le> length ns"
  shows "\<exists>r. NewDecryptReader new key
      \<lparr>s_rest = ew_dst (snd (andThen (write_all a ps) (\<lambda>_. Close a append_to) w)), s_fin = EOF, s_eager = g\<rparr> = Inr (a, r) \<and>
    read_seq (DecryptReader_Read a) ns r = (concat ps, Some EOF)"
proof -
  let ?s = "stream_encrypt a (concat ps)"
  have "int (length ?s) = encrypted_size (int (length (concat ps)))"
    unfolding stream_encrypt_def by (rule length_enc_from [OF aead_ok_len [OF assms(2)]])
  moreover have "0 \<le> stream_chunks (int (length (concat ps)))" by (simp add: stream_chunks_def pos_imp_zdiv_nonneg_iff)
  ultimately have "length (concat ps) + 1 < max_chunks" using assms(4) unfolding encrypted_size_def by linarith
  from closed_writer_dst [OF assms(1) this]
  have w: "ew_dst (snd (andThen (write_all a ps) (\<lambda>_. Close a append_to) w)) = ?s" by simp
  obtain r where r: "NewDecryptReader new key \<lparr>s_rest = ?s, s_fin = EOF, s_eager = g\<rparr> = Inr (a, r)"
    using assms(1) by (auto simp: NewEncryptWriter_def NewDecryptReader_def split: option.splits)
  have "dec_from a g 0 ?s = (concat ps, EOF)" unfolding stream_encrypt_def by (rule dec_enc [OF assms(2,3)]) simp
  from reader_complete [OF r aead_ok_open_len [OF assms(2)] assms(4) this assms(5,6)] r w show ?thesis by auto
qed

lemma sample_stream: "stream_encrypt sample_aead [1, 2, 3] = [1, 2, 3] @ sample_tag (chunk_nonce 0 True)"
  by (simp add: stream_encrypt_def enc_from_last ChunkSize_def sample_aead_def)

theorem decrypt_inverts_writer_witness:
  "\<exists>r. NewDecryptReader (\<lambda>_. Some sample_aead) []
      \<lparr>s_rest = ew_dst (snd (andThen (write_all sample_aead [[1, 2], [3]]) (\<lambda>_. Close sample_aead append_to) (fresh_writer []))),
       s_fin = EOF, s_eager = True\<rparr> = Inr (sample_aead, r) \<and>
    read_seq (DecryptReader_Read sample_aead) (replicate 21 2) r = ([1, 2, 3], Some EOF)"
  using decrypt_inverts_writer [of "\<lambda>_. Some sample_aead" "[]" sample_aead "fresh_writer []" "[[1, 2], [3]]" "replicate 21 2" True]
    sample_aead_ok sample_aead_separated sample_stream
  by (simp add: NewEncryptWriter_def fresh_writer_def Overhead_def max_chunks_def)

text \<open>C10: a stream is accepted, that is read to \<open>EOF\<close>, only if it is the encryption of exactly the plaintext
  delivered: truncated, extended, reordered and altered streams all end in another error. A source
  that reports its end together with its last byte can hide a single byte after a full last chunk.\<close>

theorem decrypt_accepts_only_encryptions:
  assumes "NewDecryptReader new key \<lparr>s_rest = s, s_fin = EOF, s_eager = g\<rparr> = Inr (a, r)"
    and "aead_ok a" and "length s + 1 < max_chunks"
    and "read_seq (DecryptReader_Read a) ns r = (q, Some EOF)"
  shows "\<exists>u. s = stream_encrypt a q @ u \<and> hidden_tail g q u"
proof -
  obtain p e where d: "dec_from a g 0 s = (p, e)" by (cases "dec_from a g 0 s")
  from reader_prefix [OF assms(1) aead_ok_open_len [OF assms(2)] assms(3) d assms(4)]
  have "p = q" "e = EOF" by auto
  with dec_only [OF assms(2)] d show ?thesis unfolding stream_encrypt_def by blast
qed

theorem decrypt_accepts_only_encryptions_witness:
  "\<exists>u. stream_encrypt sample_aead [1, 2, 3] = stream_encrypt sample_aead [1, 2, 3] @ u \<and> hidden_tail False [1, 2, 3] u"
proof -
  let ?s = "stream_encrypt sample_aead [1, 2, 3]"
  let ?r = "\<lparr>dr_src = \<lparr>s_rest = ?s, s_fin = EOF, s_eager = False\<rparr>, dr_unread = [], dr_nonce = zeroNonce, dr_err = None\<rparr>"
  have n: "NewDecryptReader (\<lambda>_. Some sample_aead) [] \<lparr>s_rest = ?s, s_fin = EOF, s_eager = False\<rparr> = Inr (sample_aead, ?r)"
    by (simp add: NewDecryptReader_def)
  have l: "length ?s = 19" by (simp add: sample_stream Overhead_def)
  then have m: "length ?s + 1 < max_chunks" by (simp add: max_chunks_def)
  have "dec_from sample_aead False 0 ?s = ([1, 2, 3], EOF)"
    unfolding stream_encrypt_def by (rule dec_enc [OF sample_aead_ok sample_aead_separated]) simp
  from reader_complete [OF n aead_ok_open_len [OF sample_aead_ok] m this, of "replicate 21 4"] l
  have "read_seq (DecryptReader_Read sample_aead) (replicate 21 4) ?r = ([1, 2, 3], Some EOF)" by simp
  with decrypt_accepts_only_encryptions [OF n sample_aead_ok m] show ?thesis by blast
qed

end
