(* ===== verification/Stream_At.thy ===== *)
theory Stream_At
  imports Stream_Decrypt
begin

text \<open>
  Random access, \<open>DecryptReaderAt\<close> of \<^verbatim>\<open>src/stream/stream.go\<close>. A stored stream of a valid size has
  a plaintext \<open>P\<close> that every chunk which authenticates agrees with (\<open>consistent\<close>); \<open>ReadAt\<close>
  delivers slices of it, with the cache or without, and never anything else.
\<close>

section \<open>Chunks of the stored stream and of the plaintext\<close>

definition slice_at :: "bytes \<Rightarrow> nat \<Rightarrow> bytes" where
  "slice_at s i = take encChunkSize (drop (i * encChunkSize) s)"

definition plain_chunk :: "bytes \<Rightarrow> nat \<Rightarrow> bytes" where
  "plain_chunk P i = take ChunkSize (drop (i * ChunkSize) P)"

definition at_open :: "aead \<Rightarrow> bytes \<Rightarrow> int \<Rightarrow> nat \<Rightarrow> bytes option" where
  "at_open a s n i = aopen a (chunk_nonce i (int i + 1 = stream_chunks n)) (slice_at s i)"

definition consistent :: "aead \<Rightarrow> bytes \<Rightarrow> bytes \<Rightarrow> bool" where
  "consistent a s P \<longleftrightarrow> int (length s) = encrypted_size (int (length P)) \<and> int (length s) < 2 ^ 62 \<and>
     (\<forall>i d. int i < stream_chunks (int (length P)) \<longrightarrow> at_open a s (int (length P)) i = Some d \<longrightarrow> d = plain_chunk P i)"

text \<open>
  A store that holds \<open>s\<close>: a read inside it is complete; one that touches the end may report
  \<open>EOF\<close> with the data, as \<^verbatim>\<open>io.ReaderAt\<close> allows.
\<close>

definition serves :: "reader_at \<Rightarrow> bytes \<Rightarrow> bool" where
  "serves src s \<longleftrightarrow> (\<forall>off n. 0 \<le> off \<longrightarrow> 0 \<le> n \<longrightarrow> off + n \<le> int (length s) \<longrightarrow>
     fst (src off n) = take (nat n) (drop (nat off) s) \<and>
     (snd (src off n) = None \<or> (snd (src off n) = Some EOF \<and> off + n = int (length s))))"

definition entry_ok :: "aead \<Rightarrow> bytes \<Rightarrow> bytes \<Rightarrow> (int \<times> bytes) option \<Rightarrow> bool" where
  "entry_ok a s P c \<longleftrightarrow> (case c of None \<Rightarrow> True
     | Some (off, d) \<Rightarrow> \<exists>j. int j < stream_chunks (int (length P)) \<and> off = int (j * encChunkSize) \<and>
         at_open a s (int (length P)) j = Some d)"

definition at_inv :: "aead \<Rightarrow> bytes \<Rightarrow> bytes \<Rightarrow> decrypt_reader_at \<Rightarrow> bool" where
  "at_inv a s P r \<longleftrightarrow> consistent a s P \<and> ra_size r = int (length P) \<and>
     ra_chunks r = stream_chunks (int (length P)) \<and> entry_ok a s P (ra_cache r)"

text \<open>The numbers in a reader for a stream of the size of \<open>s\<close> and a plaintext of the size of \<open>P\<close>.\<close>

definition sized :: "bytes \<Rightarrow> bytes \<Rightarrow> decrypt_reader_at \<Rightarrow> bool" where
  "sized s P r \<longleftrightarrow> int (length s) = encrypted_size (int (length P)) \<and> int (length s) < 2 ^ 62 \<and>
     ra_size r = int (length P) \<and> ra_chunks r = stream_chunks (int (length P))"

lemma at_inv_sized: "at_inv a s P r \<Longrightarrow> sized s P r"
  by (simp add: at_inv_def consistent_def sized_def)

lemma stream_chunks_bounds:
  assumes "0 \<le> n"
  shows "1 \<le> stream_chunks n" "65536 * (stream_chunks n - 1) \<le> n" "n \<le> 65536 * stream_chunks n"
    "0 < n \<Longrightarrow> 65536 * (stream_chunks n - 1) < n"
  using assms ceil_chunk(1) [of n "stream_chunks n"] by (auto simp: stream_chunks_def)

text \<open>The numbers of the loop body do not wrap, and name the chunk that holds \<open>off\<close>.\<close>

lemma loop_numbers:
  assumes "sized s P r" and "0 \<le> off" and "off < int (length P)"
  defines "i \<equiv> nat off div ChunkSize"
  shows "go_div off (int ChunkSize) = int i" "int i < stream_chunks (int (length P))"
    "wrap64 (int i * int encChunkSize) = int (i * encChunkSize)"
    "wrap64 (ra_size r + wrap64 (ra_chunks r * int Overhead)) = int (length s)"
    "wrap64 (int (length s) - int (i * encChunkSize)) = int (length s) - int (i * encChunkSize)"
    "i * encChunkSize \<le> length s"
    "wrap64 (off - wrap64 (int i * int ChunkSize)) = off - int (i * ChunkSize)"
    "i * ChunkSize \<le> nat off" "nat off < i * ChunkSize + ChunkSize"
proof -
  let ?n = "int (length P)"
  have s: "int (length s) = encrypted_size ?n" "int (length s) < 2 ^ 62" and r: "ra_size r = ?n" "ra_chunks r = stream_chunks ?n"
    using assms(1) by (simp_all add: sized_def)
  have b: "i * ChunkSize \<le> nat off" "nat off < i * ChunkSize + ChunkSize"
    using div_times_less_eq_dividend [of "nat off" ChunkSize] dividend_less_div_times [of ChunkSize "nat off"]
    by (simp_all add: i_def)
  then have bi: "65536 * int i \<le> off" "off < 65536 * int i + 65536" using assms(2) by (simp_all add: ChunkSize_def)
  show "go_div off (int ChunkSize) = int i" using assms(2) by (simp add: go_div_def i_def zdiv_int)
  have c: "1 \<le> stream_chunks ?n" "65536 * (stream_chunks ?n - 1) \<le> ?n" "?n \<le> 65536 * stream_chunks ?n"
    using stream_chunks_bounds [of ?n] by simp_all
  show ic: "int i < stream_chunks ?n" using bi c(3) assms(3) by linarith
  have sz: "int (length s) = ?n + 16 * stream_chunks ?n" using s(1) by (simp add: encrypted_size_def)
  have le: "65552 * int i \<le> int (length s)" using bi(1) assms(3) ic sz by linarith
  show "wrap64 (int i * int encChunkSize) = int (i * encChunkSize)"
    using le s(2) by (subst wrap64_id) (simp_all add: chunk_consts)
  show "wrap64 (ra_size r + wrap64 (ra_chunks r * int Overhead)) = int (length s)"
    using sz s(2) c r by (simp add: chunk_consts wrap64_id)
  show "wrap64 (int (length s) - int (i * encChunkSize)) = int (length s) - int (i * encChunkSize)"
    using le s(2) by (subst wrap64_id) (simp_all add: chunk_consts)
  show "i * encChunkSize \<le> length s" using le by (simp add: encChunkSize_def ChunkSize_def Overhead_def)
  show "wrap64 (off - wrap64 (int i * int ChunkSize)) = off - int (i * ChunkSize)"
    using bi s(2) sz c assms(3) by (simp add: chunk_consts wrap64_id)
  show "i * ChunkSize \<le> nat off" "nat off < i * ChunkSize + ChunkSize" by (rule b)+
qed

lemma fetchChunk_open:
  assumes "at_inv a s P r" and "serves src s" and "int i < stream_chunks (int (length P))" and "i * encChunkSize \<le> length s"
  shows "fetchChunk a src r (int i) (int (i * encChunkSize)) (min (int (length s) - int (i * encChunkSize)) (int encChunkSize)) =
    (case at_open a s (int (length P)) i of None \<Rightarrow> Inl DecryptFailed | Some d \<Rightarrow> Inr d)"
proof -
  let ?o = "int (i * encChunkSize)" and ?n = "min (int (length s) - int (i * encChunkSize)) (int encChunkSize)"
  let ?c = "stream_chunks (int (length P))"
  obtain x where x: "length s = i * encChunkSize + x" using assms(4) le_Suc_ex by blast
  then have n: "?n = int (min x encChunkSize)" by simp
  then have n0: "0 \<le> ?n" by (simp only: of_nat_0_le_iff)
  have sl: "take (nat ?n) (drop (nat ?o) s) = slice_at s i"
    unfolding n nat_int slice_at_def using x by (simp add: min_def)
  have len: "int (length (slice_at s i)) = ?n" unfolding n slice_at_def using x by (simp add: min.commute)
  have in_s: "?o + ?n \<le> int (length s)" unfolding n x by simp
  have "fst (src ?o ?n) = slice_at s i \<and> (snd (src ?o ?n) = None \<or> snd (src ?o ?n) = Some EOF)"
    using assms(2) [unfolded serves_def, rule_format, OF _ n0 in_s] by (simp only: sl of_nat_0_le_iff simp_thms) blast
  then obtain e where e: "src ?o ?n = (slice_at s i, e)" "e = None \<or> e = Some EOF" by (metis prod.collapse)
  have "?c < 2 ^ 62" using assms(1) by (auto simp: at_inv_def consistent_def encrypted_size_def stream_chunks_def)
  then have nf: "nonceForChunk (int i) = chunk_nonce i False" and wr: "wrap64 (?c - 1) = ?c - 1"
    using assms(3) by (simp_all add: nonceForChunk_chunk_nonce wrap64_id)
  have "ra_chunks r = ?c" using assms(1) by (simp add: at_inv_def)
  then have nonce: "(if int i = wrap64 (ra_chunks r - 1) then setLastChunkFlag (nonceForChunk (int i)) else nonceForChunk (int i)) =
      chunk_nonce i (int i + 1 = ?c)"
    unfolding nf by (simp only: wr setLastChunkFlag_chunk_nonce) (simp add: eq_diff_eq)
  have "\<not> ?n < 0" using n0 by (simp only: not_less)
  then show ?thesis unfolding fetchChunk_def e(1) Let_def prod.case nonce
    using e(2) len by (auto simp: at_open_def split: option.splits)
qed

section \<open>The loop\<close>

text \<open>The chunk the loop works on, from the cache or from the store.\<close>

definition chunk_got :: "aead \<Rightarrow> reader_at \<Rightarrow> decrypt_reader_at \<Rightarrow> int \<Rightarrow> int \<Rightarrow> int \<Rightarrow> stream_error + bytes \<times> (int \<times> bytes) option" where
  "chunk_got a src r ci co cs =
     (case ra_cache r of
        Some (o', d) \<Rightarrow> if o' = co then Inr (d, None)
          else map_sum id (\<lambda>d. (d, Some (co, d))) (fetchChunk a src r ci co cs)
      | None \<Rightarrow> map_sum id (\<lambda>d. (d, Some (co, d))) (fetchChunk a src r ci co cs))"

lemma chunk_got_open:
  assumes "at_inv a s P r" and "serves src s" and i: "int i < stream_chunks (int (length P))" and "i * encChunkSize \<le> length s"
  shows "(\<exists>cu. chunk_got a src r (int i) (int (i * encChunkSize)) (min (int (length s) - int (i * encChunkSize)) (int encChunkSize)) =
      Inr (plain_chunk P i, cu) \<and> entry_ok a s P cu) \<or>
    (at_open a s (int (length P)) i = None \<and>
     chunk_got a src r (int i) (int (i * encChunkSize)) (min (int (length s) - int (i * encChunkSize)) (int encChunkSize)) = Inl DecryptFailed)"
proof -
  note f = fetchChunk_open [OF assms]
  have plain: "d = plain_chunk P i" if "at_open a s (int (length P)) i = Some d" for d
    using assms(1) i that by (simp add: at_inv_def consistent_def)
  have ok: "entry_ok a s P (Some (int (i * encChunkSize), d))" if "at_open a s (int (length P)) i = Some d" for d
    using i that by (auto simp: entry_ok_def)
  have none: "entry_ok a s P None" by (simp add: entry_ok_def)
  show ?thesis
  proof (cases "\<exists>d. ra_cache r = Some (int (i * encChunkSize), d)")
    case True
    then obtain d where d: "ra_cache r = Some (int (i * encChunkSize), d)" by blast
    with assms(1) obtain j where j: "int (i * encChunkSize) = int (j * encChunkSize)" "at_open a s (int (length P)) j = Some d"
      by (auto simp: at_inv_def entry_ok_def simp del: of_nat_mult)
    then have "j = i" using encChunkSize_pos by (simp del: encChunkSize_pos of_nat_mult)
    then show ?thesis using d j(2) plain none by (simp add: chunk_got_def)
  next
    case False
    then have cg: "chunk_got a src r (int i) (int (i * encChunkSize)) cs =
        map_sum id (\<lambda>d. (d, Some (int (i * encChunkSize), d))) (fetchChunk a src r (int i) (int (i * encChunkSize)) cs)" for cs
      by (auto simp: chunk_got_def split: option.splits prod.splits simp del: of_nat_mult)
    show ?thesis unfolding cg f using plain ok by (cases "at_open a s (int (length P)) i") (auto simp del: of_nat_mult)
  qed
qed

lemma readAt_round_chunk:
  assumes "sized s P r" and "0 \<le> off" and "off < int (length P)"
  defines "i \<equiv> nat off div ChunkSize"
  defines "pc \<equiv> nat off - i * ChunkSize"
  shows "readAt_round a src r np off =
    (case chunk_got a src r (int i) (int (i * encChunkSize)) (min (int (length s) - int (i * encChunkSize)) (int encChunkSize)) of
       Inl e \<Rightarrow> Inl e
     | Inr (plaintext, cu') \<Rightarrow>
         let copySize = min (int (length plaintext) - int pc) (int np)
         in if copySize < 0 then Inl Panic
            else if copySize = 0 then Inl Diverge
            else Inr (take (nat copySize) (drop pc plaintext), cu'))"
proof -
  note n = loop_numbers [OF assms(1,2,3), folded i_def]
  have pc: "off - int (i * ChunkSize) = int pc" using n(8) assms(2) by (simp add: pc_def)
  have "\<not> int pc < 0" by simp
  then show ?thesis
    by (simp only: readAt_round_def if_False Let_def n(1,3,4,5,7) pc nat_int simp_thms chunk_got_def [symmetric]
        cong: sum.case_cong prod.case_cong)
qed

text \<open>If the chunk has the size of the plaintext's, then a round makes progress.\<close>

lemma readAt_round_progress:
  assumes "sized s P r" and "0 \<le> off" and "off < int (length P)" and "np \<noteq> 0"
  defines "i \<equiv> nat off div ChunkSize"
  assumes "chunk_got a src r (int i) (int (i * encChunkSize)) (min (int (length s) - int (i * encChunkSize)) (int encChunkSize)) = Inr (d, cu)"
    and "length d = length (plain_chunk P i)"
  obtains m where "readAt_round a src r np off = Inr (take m (drop (nat off - i * ChunkSize) d), cu)" "0 < m" "m \<le> np"
    "nat off + m \<le> length P" "m \<le> length d - (nat off - i * ChunkSize)" "m \<le> ChunkSize - (nat off - i * ChunkSize)"
proof -
  define pc where "pc = nat off - i * ChunkSize"
  note n = loop_numbers [OF assms(1,2,3), folded i_def]
  define m where "m = min (length d - pc) np"
  have pc: "nat off = i * ChunkSize + pc" "pc < ChunkSize" using n(8,9) by (auto simp: pc_def)
  have lp: "length d = min (length P - i * ChunkSize) ChunkSize" using assms(7) by (simp add: plain_chunk_def min.commute)
  have offP: "nat off < length P" using assms(2,3) by linarith
  have pl: "pc < length d" unfolding lp using pc offP by simp
  then have m: "min (int (length d) - int pc) (int np) = int m" "0 < m" "m \<le> np" "m \<le> length d - pc"
    using assms(4) by (auto simp: m_def min_def of_nat_diff)
  have "m \<le> length P - i * ChunkSize - pc" "m \<le> ChunkSize - pc" by (simp_all add: m_def lp)
  then have mP: "nat off + m \<le> length P" "m \<le> ChunkSize - pc" using offP pc(1) by simp_all
  have "readAt_round a src r np off = Inr (take m (drop pc d), cu)"
    unfolding readAt_round_chunk [OF assms(1,2,3), folded i_def pc_def] assms(6) using m by simp
  then show thesis using m mP by (intro that [folded pc_def, of m])
qed

lemma readAt_round_result:
  assumes "at_inv a s P r" and "serves src s" and "0 \<le> off" and "off < int (length P)" and "np \<noteq> 0"
  shows "(\<exists>m cu. readAt_round a src r np off = Inr (take m (drop (nat off) P), cu) \<and> 0 < m \<and> m \<le> np \<and>
      nat off + m \<le> length P \<and> entry_ok a s P cu) \<or>
    (readAt_round a src r np off = Inl DecryptFailed \<and>
     (\<exists>i. int i < stream_chunks (int (length P)) \<and> at_open a s (int (length P)) i = None))"
proof -
  define i where "i = nat off div ChunkSize"
  note sized = at_inv_sized [OF assms(1)]
  note n = loop_numbers [OF sized assms(3,4), folded i_def]
  let ?got = "chunk_got a src r (int i) (int (i * encChunkSize)) (min (int (length s) - int (i * encChunkSize)) (int encChunkSize))"
  from chunk_got_open [OF assms(1,2) n(2,6)] show ?thesis
  proof (elim disjE exE conjE)
    assume "at_open a s (int (length P)) i = None" "?got = Inl DecryptFailed"
    then show ?thesis
      unfolding readAt_round_chunk [OF sized assms(3,4), folded i_def] using n(2) by auto
  next
    fix cu assume got: "?got = Inr (plain_chunk P i, cu)" "entry_ok a s P cu"
    obtain m where m: "readAt_round a src r np off = Inr (take m (drop (nat off - i * ChunkSize) (plain_chunk P i)), cu)"
      "0 < m" "m \<le> np" "nat off + m \<le> length P" "m \<le> ChunkSize - (nat off - i * ChunkSize)"
      using readAt_round_progress [OF sized assms(3,4,5), folded i_def, OF got(1) refl] by metis
    obtain pc where pc: "nat off = i * ChunkSize + pc" using n(8) le_Suc_ex by blast
    then have "m \<le> ChunkSize - pc" using m(5) by simp
    then have "take m (drop pc (plain_chunk P i)) = take m (drop (nat off) P)"
      by (simp add: plain_chunk_def pc drop_take min_absorb1 add.commute)
    then have "take m (drop (nat off - i * ChunkSize) (plain_chunk P i)) = take m (drop (nat off) P)" by (simp add: pc)
    then show ?thesis using m got(2) by auto
  qed
qed

lemma readAt_loop_result:
  assumes "at_inv a s P r" and "serves src s"
  shows "0 \<le> off \<Longrightarrow> off \<le> int (length P) \<Longrightarrow> entry_ok a s P cu \<Longrightarrow>
    \<exists>k err cu'. readAt_loop a src r np off acc cu = (acc @ take k (drop (nat off) P), err, off + int k, cu') \<and>
      nat off + k \<le> length P \<and> k \<le> np \<and> entry_ok a s P cu' \<and>
      (err = None \<longrightarrow> k = min np (length P - nat off)) \<and> (err = None \<or> err = Some DecryptFailed) \<and>
      ((\<forall>i. int i < stream_chunks (int (length P)) \<longrightarrow> at_open a s (int (length P)) i \<noteq> None) \<longrightarrow> err = None)"
proof (induction np arbitrary: off acc cu rule: less_induct)
  case (less np)
  have size: "ra_size r = int (length P)" using assms(1) by (simp add: at_inv_def)
  show ?case
  proof (cases "np = 0 \<or> off \<ge> int (length P)")
    case True
    then have "readAt_loop a src r np off acc cu = (acc, None, off, cu)" by (subst readAt_loop.simps) (simp add: size)
    then show ?thesis using True less.prems by (intro exI [of _ 0] exI [of _ None] exI [of _ cu]) auto
  next
    case False
    then have off: "off < int (length P)" "np \<noteq> 0" by auto
    then have st: "readAt_loop a src r np off acc cu =
        (case readAt_round a src r np off of
           Inl e \<Rightarrow> (acc, Some e, off, cu)
         | Inr (bs, cu') \<Rightarrow> readAt_loop a src r (np - length bs) (off + int (length bs)) (acc @ bs) cu')"
      by (subst readAt_loop.simps) (simp add: size)
    from readAt_round_result [OF assms less.prems(1) off] show ?thesis
    proof (elim disjE exE conjE)
      fix i assume "readAt_round a src r np off = Inl DecryptFailed"
        "int i < stream_chunks (int (length P))" "at_open a s (int (length P)) i = None"
      then show ?thesis unfolding st using less.prems
        by (intro exI [of _ 0] exI [of _ "Some DecryptFailed"] exI [of _ cu]) auto
    next
      fix m cu1 assume m: "readAt_round a src r np off = Inr (take m (drop (nat off) P), cu1)" "0 < m" "m \<le> np"
        "nat off + m \<le> length P" "entry_ok a s P cu1"
      have run: "readAt_loop a src r np off acc cu =
          readAt_loop a src r (np - m) (off + int m) (acc @ take m (drop (nat off) P)) cu1"
        unfolding st m(1) using m(4) by (simp add: min_absorb1)
      have "np - m < np" "0 \<le> off + int m" "off + int m \<le> int (length P)" using m off less.prems(1) by auto
      from less.IH [OF this m(5), of "acc @ take m (drop (nat off) P)"] obtain k err cu' where
        IH: "readAt_loop a src r (np - m) (off + int m) (acc @ take m (drop (nat off) P)) cu1 =
            ((acc @ take m (drop (nat off) P)) @ take k (drop (nat (off + int m)) P), err, off + int m + int k, cu')"
          "nat (off + int m) + k \<le> length P" "k \<le> np - m" "entry_ok a s P cu'"
          "err = None \<longrightarrow> k = min (np - m) (length P - nat (off + int m))" "err = None \<or> err = Some DecryptFailed"
          "(\<forall>i. int i < stream_chunks (int (length P)) \<longrightarrow> at_open a s (int (length P)) i \<noteq> None) \<longrightarrow> err = None"
        by blast
      have no: "nat (off + int m) = nat off + m" using less.prems(1) by (simp add: nat_add_distrib)
      have join: "take m (drop (nat off) P) @ take k (drop (nat (off + int m)) P) = take (m + k) (drop (nat off) P)"
        unfolding no take_add by (simp add: add.commute)
      have "readAt_loop a src r np off acc cu = (acc @ take (m + k) (drop (nat off) P), err, off + int (m + k), cu')"
        unfolding run IH(1) append_assoc join by simp
      moreover have "err = None \<longrightarrow> m + k = min np (length P - nat off)" using IH(5) no m(3,4) by (auto simp: min_def)
      ultimately show ?thesis using IH(2,3,4,6,7) no m(3)
        by (intro exI [of _ "m + k"] exI [of _ err] exI [of _ cu']) auto
    qed
  qed
qed

section \<open>Operations\<close>

lemma ReadAt_result:
  assumes "at_inv a s P r" and "serves src s" and "ReadAt a src np off r = ((out, err), r')"
  shows "at_inv a s P r'" "if off < 0 \<or> off > int (length P) then out = [] \<and> err = Some OffsetOutOfRange
     else (\<exists>k. out = take k (drop (nat off) P) \<and> k \<le> np \<and> err = Some DecryptFailed) \<or>
       (out = take np (drop (nat off) P) \<and> err = (if 0 < np \<and> off + int np \<ge> int (length P) then Some EOF else None))"
    "(\<forall>i. int i < stream_chunks (int (length P)) \<longrightarrow> at_open a s (int (length P)) i \<noteq> None) \<Longrightarrow> err \<noteq> Some DecryptFailed"
proof -
  have size: "ra_size r = int (length P)" using assms(1) by (simp add: at_inv_def)
  have "at_inv a s P r' \<and> (if off < 0 \<or> off > int (length P) then out = [] \<and> err = Some OffsetOutOfRange
     else (\<exists>k. out = take k (drop (nat off) P) \<and> k \<le> np \<and> err = Some DecryptFailed) \<or>
       (out = take np (drop (nat off) P) \<and> err = (if 0 < np \<and> off + int np \<ge> int (length P) then Some EOF else None))) \<and>
    ((\<forall>i. int i < stream_chunks (int (length P)) \<longrightarrow> at_open a s (int (length P)) i \<noteq> None) \<longrightarrow> err \<noteq> Some DecryptFailed)"
  proof (cases "off < 0 \<or> off > int (length P) \<or> np = 0")
    case True
    then show ?thesis using assms(1,3) size by (auto simp: ReadAt_def)
  next
    case False
    then have off: "0 \<le> off" "off \<le> int (length P)" "0 < np" by auto
    have "entry_ok a s P None" by (simp add: entry_ok_def)
    from readAt_loop_result [OF assms(1,2) off(1,2) this, of np "[]", unfolded append_Nil] obtain k e cu where
      l: "readAt_loop a src r np off [] None = (take k (drop (nat off) P), e, off + int k, cu)"
      and k: "nat off + k \<le> length P" "k \<le> np" and cu: "entry_ok a s P cu"
      and ok: "e = None \<longrightarrow> k = min np (length P - nat off)" and er: "e = None \<or> e = Some DecryptFailed"
      and all: "(\<forall>i. int i < stream_chunks (int (length P)) \<longrightarrow> at_open a s (int (length P)) i \<noteq> None) \<longrightarrow> e = None"
      by (elim exE conjE)
    have ra: "ReadAt a src np off r = (case e of Some e \<Rightarrow> ((take k (drop (nat off) P), Some e), r)
        | None \<Rightarrow> ((take k (drop (nat off) P), if off + int k = ra_size r then Some EOF else None),
            case cu of None \<Rightarrow> r | Some c \<Rightarrow> r\<lparr>ra_cache := Some c\<rparr>))"
      using off size by (simp add: ReadAt_def l split: option.splits)
    from er show ?thesis
    proof
      assume e: "e = None"
      then have kk: "k = min np (length P - nat off)" using ok by simp
      then have "take k (drop (nat off) P) = take np (drop (nat off) P)" by (simp add: min_def)
      moreover have "off + int k = int (length P) \<longleftrightarrow> off + int np \<ge> int (length P)" using kk off by (auto simp: min_def)
      moreover have "at_inv a s P (case cu of None \<Rightarrow> r | Some c \<Rightarrow> r\<lparr>ra_cache := Some c\<rparr>)"
        using assms(1) cu by (auto simp: at_inv_def split: option.splits)
      ultimately show ?thesis using assms(3) off size unfolding ra e by auto
    next
      assume e: "e = Some DecryptFailed"
      then show ?thesis using assms(1,3) off k(2) all unfolding ra e by auto
    qed
  qed
  then show "at_inv a s P r'" "if off < 0 \<or> off > int (length P) then out = [] \<and> err = Some OffsetOutOfRange
     else (\<exists>k. out = take k (drop (nat off) P) \<and> k \<le> np \<and> err = Some DecryptFailed) \<or>
       (out = take np (drop (nat off) P) \<and> err = (if 0 < np \<and> off + int np \<ge> int (length P) then Some EOF else None))"
    "(\<forall>i. int i < stream_chunks (int (length P)) \<longrightarrow> at_open a s (int (length P)) i \<noteq> None) \<Longrightarrow> err \<noteq> Some DecryptFailed"
    by blast+
qed

lemma final_chunk:
  assumes "int (length s) = encrypted_size (int (length P))" and "int (length s) < 2 ^ 62"
  defines "n \<equiv> int (length P)"
  defines "i \<equiv> nat (stream_chunks n - 1)"
  shows "EncryptedChunkCount (int (length s)) = Inr (stream_chunks n)" "stream_chunks n = int i + 1"
    "wrap64 (stream_chunks n - 1) = int i" "wrap64 (int i * int encChunkSize) = int (i * encChunkSize)"
    "wrap64 (int (length s) - int (i * encChunkSize)) = int (length s) - int (i * encChunkSize)"
    "i * encChunkSize \<le> length s" "length s - i * encChunkSize \<le> encChunkSize"
    "wrap64 (int (length s) - wrap64 (stream_chunks n * int Overhead)) = n"
proof -
  have s: "int (length s) = encrypted_size n" "int (length s) < 2 ^ 62" using assms(1,2) by (simp_all add: n_def)
  then have sz: "int (length s) = n + 16 * stream_chunks n" by (simp add: encrypted_size_def)
  have n0: "0 \<le> n" by (simp add: n_def)
  note c = stream_chunks_bounds [OF n0]
  show i: "stream_chunks n = int i + 1" using c(1) by (simp add: i_def)
  have b: "65536 * int i \<le> n" "n \<le> 65536 * int i + 65536" using c(2,3) unfolding i by simp_all
  have le: "65552 * int i \<le> int (length s)" "int (length s) \<le> 65552 * int i + 65552" using b unfolding sz i by simp_all
  have "int (length s) < 2 ^ 63 - 65552" using s(2) by simp
  with EncryptedChunkCount_iff [of "int (length s)" "stream_chunks n"] s(1) n0
  show "EncryptedChunkCount (int (length s)) = Inr (stream_chunks n)" by auto
  show "wrap64 (stream_chunks n - 1) = int i" using i le s(2) by (simp add: wrap64_id)
  show "wrap64 (int i * int encChunkSize) = int (i * encChunkSize)"
    using le s(2) by (subst wrap64_id) (simp_all add: chunk_consts)
  show "wrap64 (int (length s) - int (i * encChunkSize)) = int (length s) - int (i * encChunkSize)"
    using le s(2) by (subst wrap64_id) (simp_all add: chunk_consts)
  show "i * encChunkSize \<le> length s" "length s - i * encChunkSize \<le> encChunkSize"
    using le by (simp_all add: encChunkSize_def ChunkSize_def Overhead_def)
  show "wrap64 (int (length s) - wrap64 (stream_chunks n * int Overhead)) = n"
    using sz s(2) c n0 by (simp add: chunk_consts wrap64_id)
qed

lemma NewDecryptReaderAt_result:
  assumes "serves src s" and "consistent a s P" and "new key = Some a"
  defines "i \<equiv> nat (stream_chunks (int (length P)) - 1)"
  shows "NewDecryptReaderAt new key src (int (length s)) =
    (case snd (src (int (i * encChunkSize)) (int (length s) - int (i * encChunkSize))) of
       Some e \<Rightarrow> Inl (ReadFailed e)
     | None \<Rightarrow> (case at_open a s (int (length P)) i of
         None \<Rightarrow> Inl DecryptFailed
       | Some d \<Rightarrow> Inr (a, \<lparr>ra_size = int (length P), ra_chunks = stream_chunks (int (length P)),
           ra_cache = Some (int (i * encChunkSize), d)\<rparr>)))"
proof -
  have sz: "int (length s) = encrypted_size (int (length P))" "int (length s) < 2 ^ 62" using assms(2) by (simp_all add: consistent_def)
  note f = final_chunk [OF sz, folded i_def]
  obtain x where x: "length s = i * encChunkSize + x" using f(6) le_Suc_ex by blast
  then have xl: "int (length s) - int (i * encChunkSize) = int x" "x \<le> encChunkSize" using f(7) by simp_all
  have "fst (src (int (i * encChunkSize)) (int x)) = take x (drop (i * encChunkSize) s)"
    using assms(1) x unfolding serves_def by (simp del: of_nat_mult)
  also have "\<dots> = slice_at s i" using x xl(2) by (simp add: slice_at_def)
  finally obtain e where e: "src (int (i * encChunkSize)) (int x) = (slice_at s i, e)" by (metis prod.collapse)
  have "int i < 2 ^ 64" using f(2) assms(2) by (auto simp: consistent_def encrypted_size_def)
  then have "setLastChunkFlag (nonceForChunk (int i)) = chunk_nonce i True" by (simp add: nonceForChunk_chunk_nonce)
  moreover have "at_open a s (int (length P)) i = aopen a (chunk_nonce i True) (slice_at s i)" using f(2) by (simp add: at_open_def)
  moreover have "\<not> int x < 0" by simp
  ultimately show ?thesis unfolding NewDecryptReaderAt_def assms(3) option.case f(1) sum.case Let_def f(3,4,8) xl(1) f(5) [unfolded xl(1)] e
    by (simp only: if_False prod.case snd_conv split: option.split)
qed

lemma NewDecryptReaderAt_inv:
  assumes "serves src s" and "consistent a s P" and "NewDecryptReaderAt new key src (int (length s)) = Inr (a, r)"
  shows "at_inv a s P r"
proof -
  have "new key = Some a" using assms(3) by (auto simp: NewDecryptReaderAt_def Let_def split: option.splits sum.splits if_splits prod.splits)
  note n = NewDecryptReaderAt_result [where new = new and key = key, OF assms(1,2) this]
  let ?i = "nat (stream_chunks (int (length P)) - 1)"
  obtain d where d: "at_open a s (int (length P)) ?i = Some d" and
    r: "r = \<lparr>ra_size = int (length P), ra_chunks = stream_chunks (int (length P)), ra_cache = Some (int (?i * encChunkSize), d)\<rparr>"
    using assms(3) unfolding n by (auto split: option.splits)
  have "int ?i < stream_chunks (int (length P))" using stream_chunks_bounds(1) [of "int (length P)"] by linarith
  with d assms(2) show ?thesis unfolding r by (auto simp: at_inv_def entry_ok_def simp del: of_nat_mult intro!: exI [of _ ?i])
qed

section \<open>Every stored stream has a plaintext\<close>

lemma plain_chunk_concat:
  assumes "\<forall>i. Suc i < c \<longrightarrow> length (f i) = ChunkSize" and "length (f (c - 1)) \<le> ChunkSize" and "i < c"
  shows "plain_chunk (concat (map f [0..<c])) i = f i"
proof -
  have full: "length (concat (map f [0..<j])) = j * ChunkSize" if "j < c" for j
    using that by (induction j) (use assms(1) in auto)
  have "[0..<c] = [0..<i] @ i # [Suc i..<c]" using assms(3) by (metis le_add_diff_inverse less_imp_le_nat plus_nat.add_0 upt_add_eq_append upt_conv_Cons zero_le)
  then have sp: "concat (map f [0..<c]) = concat (map f [0..<i]) @ f i @ concat (map f [Suc i..<c])" by simp
  have "drop (i * ChunkSize) (concat (map f [0..<c])) = f i @ concat (map f [Suc i..<c])"
    unfolding sp using full [OF assms(3)] by simp
  moreover have "take ChunkSize (f i @ concat (map f [Suc i..<c])) = f i"
  proof (cases "Suc i < c")
    case True
    then show ?thesis using assms(1) by simp
  next
    case False
    then have "i = c - 1" "[Suc i..<c] = []" using assms(3) by auto
    then show ?thesis using assms(2) by simp
  qed
  ultimately show ?thesis by (simp add: plain_chunk_def)
qed

lemma length_concat_chunks:
  assumes "\<forall>i. Suc i < c \<longrightarrow> length (f i) = ChunkSize" and "0 < c"
  shows "length (concat (map f [0..<c])) = (c - 1) * ChunkSize + length (f (c - 1))"
proof -
  have full: "length (concat (map f [0..<j])) = j * ChunkSize" if "j < c" for j
    using that by (induction j) (use assms(1) in auto)
  obtain d where "c = Suc d" using assms(2) gr0_implies_Suc by blast
  then show ?thesis using full [of d] by simp
qed

lemma consistent_exists:
  assumes "open_len a" and "int (length s) = encrypted_size n" and "0 \<le> n" and "int (length s) < 2 ^ 62"
  shows "\<exists>P. int (length P) = n \<and> consistent a s P"
proof -
  define c where "c = nat (stream_chunks n)"
  note b = stream_chunks_bounds [OF assms(3)]
  have ci: "int c = stream_chunks n" and c0: "0 < c" using b(1) by (auto simp: c_def)
  have sz: "int (length s) = n + 16 * int c" using assms(2) by (simp add: encrypted_size_def ci)
  define f where "f i = (case at_open a s n i of Some d \<Rightarrow> d | None \<Rightarrow> replicate (length (slice_at s i) - Overhead) 0)" for i
  have lf: "length (f i) = length (slice_at s i) - Overhead" for i
    using assms(1) by (auto simp: f_def at_open_def open_len_def split: option.splits)
  have sl: "length (slice_at s i) = min (length s - i * encChunkSize) encChunkSize" for i
    by (simp add: slice_at_def min.commute)
  have full: "length (f i) = ChunkSize" if "Suc i < c" for i
  proof -
    have "int i + 2 \<le> int c" using that by simp
    then have "65552 * (int i + 1) \<le> int (length s)" using b(2) [folded ci] unfolding sz by simp
    then have "encChunkSize \<le> length s - i * encChunkSize" by (simp add: encChunkSize_def ChunkSize_def Overhead_def)
    then show ?thesis by (simp add: lf sl min_def encChunkSize_def)
  qed
  have "65552 * (int c - 1) + 16 \<le> int (length s)" "int (length s) \<le> 65552 * int c" using b(2,3) [folded ci] unfolding sz by simp_all
  then have last_size: "(c - 1) * encChunkSize + Overhead \<le> length s" "length s \<le> (c - 1) * encChunkSize + encChunkSize"
    using c0 by (simp_all add: encChunkSize_def ChunkSize_def Overhead_def of_nat_diff)
  then have lst: "length (f (c - 1)) = length s - (c - 1) * encChunkSize - Overhead" by (simp add: lf sl)
  then have le: "length (f (c - 1)) \<le> ChunkSize" using last_size(2) by (simp add: encChunkSize_def)
  define P where "P = concat (map f [0..<c])"
  have "int (length P) = n"
  proof -
    have "int (length P) = (int c - 1) * 65536 + (int (length s) - (int c - 1) * 65552 - 16)"
      unfolding P_def length_concat_chunks [of c f, OF _ c0] using length_concat_chunks [of c f] full c0 lst last_size
      by (simp add: of_nat_diff encChunkSize_def ChunkSize_def Overhead_def)
    then show ?thesis using sz by simp
  qed
  moreover have "d = plain_chunk P i" if "i < c" "at_open a s n i = Some d" for i d
    using plain_chunk_concat [of c f i] full le that by (simp add: P_def f_def)
  ultimately show ?thesis using assms ci by (intro exI [of _ P]) (auto simp: consistent_def simp flip: ci)
qed

section \<open>A stream that was encrypted\<close>

lemma slice_enc_from:
  assumes "aead_len a"
  shows "int i < stream_chunks (int (length p)) \<Longrightarrow>
    slice_at (enc_from a k p) i = seal a (chunk_nonce (k + i) (int i + 1 = stream_chunks (int (length p)))) (plain_chunk p i)"
proof (induction i arbitrary: k p)
  case 0
  show ?case
  proof (cases "length p \<le> ChunkSize")
    case True
    then have "stream_chunks (int (length p)) = 1" by (intro stream_chunks_small) (simp_all add: ChunkSize_def)
    with True show ?thesis by (simp add: enc_from_last slice_at_def plain_chunk_def seal_length [OF assms] encChunkSize_def)
  next
    case False
    then have t: "drop ChunkSize p \<noteq> []" "length (take ChunkSize p) = ChunkSize" by simp_all
    have "stream_chunks (int (length p)) \<noteq> 1" using False stream_chunks_bounds(3) [of "int (length p)"] by (auto simp: ChunkSize_def)
    then show ?thesis using enc_from_step [OF t(2,1), of a k] t(2)
      by (simp add: slice_at_def plain_chunk_def seal_length [OF assms] encChunkSize_def)
  qed
next
  case (Suc i)
  have "65536 < int (length p)"
  proof (rule ccontr)
    assume "\<not> 65536 < int (length p)"
    then have "stream_chunks (int (length p)) = 1" by (intro stream_chunks_small) simp_all
    with Suc.prems show False by simp
  qed
  then have lp: "65536 < int (length p)" .
  then have t: "drop ChunkSize p \<noteq> []" "length (take ChunkSize p) = ChunkSize" by (simp_all add: ChunkSize_def)
  have ch: "stream_chunks (int (length p)) = 1 + stream_chunks (int (length (drop ChunkSize p)))"
    using stream_chunks_step [OF lp] lp by (simp add: ChunkSize_def of_nat_diff)
  then have "int i < stream_chunks (int (length (drop ChunkSize p)))" using Suc.prems by simp
  note IH = Suc.IH [OF this, of "k + 1"]
  have "enc_from a k p = seal a (chunk_nonce k False) (take ChunkSize p) @ enc_from a (k + 1) (drop ChunkSize p)"
    using enc_from_step [OF t(2,1), of a k] by simp
  moreover have "length (seal a (chunk_nonce k False) (take ChunkSize p)) = encChunkSize"
    unfolding seal_length [OF assms] t(2) by (simp add: encChunkSize_def)
  ultimately have "slice_at (enc_from a k p) (Suc i) = slice_at (enc_from a (k + 1) (drop ChunkSize p)) i"
    by (simp add: slice_at_def)
  moreover have "plain_chunk p (Suc i) = plain_chunk (drop ChunkSize p) i" by (simp add: plain_chunk_def add.commute)
  ultimately show ?case using IH ch by (simp add: add.commute)
qed

lemma encrypted_consistent:
  assumes "aead_ok a" and "int (length (stream_encrypt a p)) < 2 ^ 62"
  shows "consistent a (stream_encrypt a p) p"
    and "int i < stream_chunks (int (length p)) \<Longrightarrow> at_open a (stream_encrypt a p) (int (length p)) i = Some (plain_chunk p i)"
proof -
  have o: "at_open a (stream_encrypt a p) (int (length p)) i = Some (plain_chunk p i)" if "int i < stream_chunks (int (length p))" for i
    unfolding at_open_def aead_ok_open [OF assms(1)] stream_encrypt_def using slice_enc_from [OF aead_ok_len [OF assms(1)] that, of 0] by simp
  moreover have "int (length (stream_encrypt a p)) = encrypted_size (int (length p))"
    unfolding stream_encrypt_def by (rule length_enc_from [OF aead_ok_len [OF assms(1)]])
  ultimately show "consistent a (stream_encrypt a p) p" using assms(2) by (simp add: consistent_def)
  show "int i < stream_chunks (int (length p)) \<Longrightarrow> at_open a (stream_encrypt a p) (int (length p)) i = Some (plain_chunk p i)" by (rule o)
qed

section \<open>Properties\<close>

text \<open>The readers reachable from \<open>r0\<close> by calls of \<open>ReadAt\<close>, one after another.\<close>

inductive at_run :: "aead \<Rightarrow> reader_at \<Rightarrow> decrypt_reader_at \<Rightarrow> decrypt_reader_at \<Rightarrow> bool" for a src r0 where
  opened: "at_run a src r0 r0"
| called: "at_run a src r0 r \<Longrightarrow> ReadAt a src np off r = (x, r') \<Longrightarrow> at_run a src r0 r'"

lemma at_run_inv: "at_run a src r0 r \<Longrightarrow> serves src s \<Longrightarrow> at_inv a s P r0 \<Longrightarrow> at_inv a s P r"
proof (induction rule: at_run.induct)
  case (called r np off x r')
  then show ?case using ReadAt_result(1) by (metis prod.collapse)
qed

text \<open>Random access into an encrypted stream refines slicing the plaintext: after any sequence of
  calls, whatever the cache holds, \<open>ReadAt\<close> returns the bytes of the plaintext from the offset on,
  with \<open>EOF\<close> exactly when the plaintext ends within the buffer.\<close>

theorem ReadAt_slices:
  assumes "aead_ok a" and "serves src (stream_encrypt a p)" and "int (length (stream_encrypt a p)) < 2 ^ 62"
    and "NewDecryptReaderAt new key src (int (length (stream_encrypt a p))) = Inr (a, r0)" and "at_run a src r0 r"
  shows "fst (ReadAt a src np off r) =
    (if off < 0 \<or> off > int (length p) then ([], Some OffsetOutOfRange)
     else (take np (drop (nat off) p), if 0 < np \<and> off + int np \<ge> int (length p) then Some EOF else None))"
proof -
  note e = encrypted_consistent [OF assms(1,3)]
  have inv: "at_inv a (stream_encrypt a p) p r"
    using at_run_inv [OF assms(5,2)] NewDecryptReaderAt_inv [OF assms(2) e(1) assms(4)] by blast
  obtain out err r' where ra: "ReadAt a src np off r = ((out, err), r')" by (metis prod.exhaust)
  have "err \<noteq> Some DecryptFailed" using ReadAt_result(3) [OF inv assms(2) ra] e(2) by simp
  then show ?thesis using ReadAt_result(2) [OF inv assms(2) ra] ra by (auto split: if_splits)
qed

text \<open>Opening an encrypted stream succeeds unless the store reports \<open>EOF\<close> together with the final
  chunk, which the \<open>io.ReaderAt\<close> interface allows and \<open>ReadAt\<close> itself tolerates.\<close>

lemma NewDecryptReaderAt_opens:
  assumes "aead_ok a" and "serves src (stream_encrypt a p)" and "int (length (stream_encrypt a p)) < 2 ^ 62"
    and "new key = Some a"
  shows "(\<exists>r. NewDecryptReaderAt new key src (int (length (stream_encrypt a p))) = Inr (a, r)) \<longleftrightarrow>
    snd (src (65552 * (stream_chunks (int (length p)) - 1))
      (int (length (stream_encrypt a p)) - 65552 * (stream_chunks (int (length p)) - 1))) = None"
proof -
  let ?i = "nat (stream_chunks (int (length p)) - 1)"
  note e = encrypted_consistent [OF assms(1,3)]
  have i: "int (?i * encChunkSize) = 65552 * (stream_chunks (int (length p)) - 1)"
    using stream_chunks_bounds(1) [of "int (length p)"] by (simp add: encChunkSize_def ChunkSize_def Overhead_def)
  have "int ?i < stream_chunks (int (length p))" using stream_chunks_bounds(1) [of "int (length p)"] by linarith
  from e(2) [OF this] show ?thesis
    unfolding NewDecryptReaderAt_result [where new = new and key = key, OF assms(2) e(1) assms(4)] i by (auto split: option.splits)
qed

text \<open>C17: for a stored stream that an adversary wrote, there is one plaintext of the size that
  \<open>PlaintextSize\<close> announces such that every call on a reader that opened returns a slice of it, or
  a prefix of the slice and the error that a chunk did not authenticate. There is no panic and no
  endless loop.\<close>

theorem ReadAt_one_plaintext:
  assumes "open_len a" and "serves src s" and "int (length s) < 2 ^ 62"
    and "NewDecryptReaderAt new key src (int (length s)) = Inr (a, r0)"
  shows "\<exists>P. PlaintextSize (int (length s)) = Inr (int (length P)) \<and>
    (\<forall>r np off out err r'. at_run a src r0 r \<longrightarrow> ReadAt a src np off r = ((out, err), r') \<longrightarrow> 0 \<le> off \<longrightarrow> off \<le> int (length P) \<longrightarrow>
       (\<exists>k. out = take k (drop (nat off) P) \<and> k \<le> np \<and> err = Some DecryptFailed) \<or>
       (out = take np (drop (nat off) P) \<and> err = (if 0 < np \<and> off + int np \<ge> int (length P) then Some EOF else None)))"
proof -
  have b: "0 \<le> int (length s)" "int (length s) < 2 ^ 63 - 65552" using assms(3) by simp_all
  obtain c where "EncryptedChunkCount (int (length s)) = Inr c"
    using assms(4) by (auto simp: NewDecryptReaderAt_def split: option.splits sum.splits)
  with EncryptedChunkCount_iff [OF b] obtain n where n: "0 \<le> n" "int (length s) = encrypted_size n" by blast
  from consistent_exists [OF assms(1) n(2,1) assms(3)] obtain P where P: "int (length P) = n" "consistent a s P" by blast
  have ps: "PlaintextSize (int (length s)) = Inr (int (length P))" using PlaintextSize_iff [OF b] n P(1) by blast
  have "(\<exists>k. out = take k (drop (nat off) P) \<and> k \<le> np \<and> err = Some DecryptFailed) \<or>
       (out = take np (drop (nat off) P) \<and> err = (if 0 < np \<and> off + int np \<ge> int (length P) then Some EOF else None))"
    if "at_run a src r0 r" "ReadAt a src np off r = ((out, err), r')" "0 \<le> off" "off \<le> int (length P)" for r np off out err r'
  proof -
    have "at_inv a s P r" using at_run_inv [OF that(1) assms(2)] NewDecryptReaderAt_inv [OF assms(2) P(2) assms(4)] by blast
    from ReadAt_result(2) [OF this assms(2) that(2)] that(3,4) show ?thesis by (auto split: if_splits)
  qed
  with ps show ?thesis by blast
qed

text \<open>The witnesses read a three-byte stream held in memory.\<close>

definition in_memory :: "bytes \<Rightarrow> reader_at" where
  "in_memory s off n = (take (nat n) (drop (nat off) s), None)"

lemma in_memory_serves: "serves (in_memory s) s"
  by (simp add: serves_def in_memory_def)

lemma sample_at_size: "int (length (stream_encrypt sample_aead [1, 2, 3])) < 2 ^ 62"
  by (simp add: sample_stream Overhead_def)

lemma sample_at_opens:
  "\<exists>r. NewDecryptReaderAt (\<lambda>_. Some sample_aead) [] (in_memory (stream_encrypt sample_aead [1, 2, 3]))
     (int (length (stream_encrypt sample_aead [1, 2, 3]))) = Inr (sample_aead, r)"
  unfolding NewDecryptReaderAt_result [OF in_memory_serves encrypted_consistent(1) [OF sample_aead_ok sample_at_size] refl]
  using encrypted_consistent(2) [OF sample_aead_ok sample_at_size, of 0]
  by (simp add: in_memory_def stream_chunks_def)

theorem ReadAt_slices_witness:
  "\<exists>r. fst (ReadAt sample_aead (in_memory (stream_encrypt sample_aead [1, 2, 3])) 5 1 r) = ([2, 3], Some EOF)"
proof -
  obtain r where r: "NewDecryptReaderAt (\<lambda>_. Some sample_aead) [] (in_memory (stream_encrypt sample_aead [1, 2, 3]))
     (int (length (stream_encrypt sample_aead [1, 2, 3]))) = Inr (sample_aead, r)" using sample_at_opens by blast
  from ReadAt_slices [OF sample_aead_ok in_memory_serves sample_at_size r at_run.opened, of 5 1] show ?thesis by auto
qed

theorem NewDecryptReaderAt_opens_witness:
  "\<exists>r. NewDecryptReaderAt (\<lambda>_. Some sample_aead) [] (in_memory (stream_encrypt sample_aead [1, 2, 3]))
     (int (length (stream_encrypt sample_aead [1, 2, 3]))) = Inr (sample_aead, r)"
  using NewDecryptReaderAt_opens [of sample_aead _ "[1, 2, 3]" "\<lambda>_. Some sample_aead" "[]", OF sample_aead_ok in_memory_serves sample_at_size refl]
  by (simp add: in_memory_def)

theorem ReadAt_one_plaintext_witness:
  "\<exists>P :: bytes. PlaintextSize (int (length (stream_encrypt sample_aead [1, 2, 3]))) = Inr (int (length P))"
proof -
  obtain r where r: "NewDecryptReaderAt (\<lambda>_. Some sample_aead) [] (in_memory (stream_encrypt sample_aead [1, 2, 3]))
     (int (length (stream_encrypt sample_aead [1, 2, 3]))) = Inr (sample_aead, r)" using sample_at_opens by blast
  from ReadAt_one_plaintext [OF aead_ok_open_len [OF sample_aead_ok] in_memory_serves sample_at_size r] show ?thesis
    by (elim exE conjE) (intro exI)
qed

end
