(* ===== verification/Stream_Ends.thy ===== *)
theory Stream_Ends
  imports Stream_At
begin

text \<open>
  Termination of \<open>ReadAt\<close> on any store. The store may be written by an adversary, fail, and change
  between the calls; it only keeps the contract of \<^verbatim>\<open>io.ReaderAt\<close> that a read which is not complete
  reports an error. What \<open>readAt_loop\<close> needs of the contents of a chunk is its size alone.
\<close>

definition contract :: "reader_at \<Rightarrow> bool" where
  "contract src \<longleftrightarrow> (\<forall>off n. 0 \<le> off \<longrightarrow> 0 \<le> n \<longrightarrow>
     int (length (fst (src off n))) \<le> n \<and> (int (length (fst (src off n))) < n \<longrightarrow> snd (src off n) \<noteq> None))"

definition cache_sized :: "bytes \<Rightarrow> (int \<times> bytes) option \<Rightarrow> bool" where
  "cache_sized P c \<longleftrightarrow> (case c of None \<Rightarrow> True
     | Some (off, d) \<Rightarrow> \<exists>j. int j < stream_chunks (int (length P)) \<and> off = int (j * encChunkSize) \<and>
         length d = length (plain_chunk P j))"

text \<open>The errors that are reported, as opposed to a panic or an endless loop.\<close>

definition reported :: "stream_error \<Rightarrow> bool" where
  "reported e \<longleftrightarrow> e \<noteq> Panic \<and> e \<noteq> Diverge \<and> e \<noteq> EOF"

lemma chunk_size:
  assumes "sized s P r" and "int i < stream_chunks (int (length P))"
  shows "min (int (length s) - int (i * encChunkSize)) (int encChunkSize) = int (length (plain_chunk P i)) + 16"
proof -
  let ?n = "int (length P)"
  have sz: "int (length s) = ?n + 16 * stream_chunks ?n" using assms(1) by (simp add: sized_def encrypted_size_def)
  have "0 \<le> ?n" by simp
  note c = stream_chunks_bounds [OF this]
  have lp: "int (length (plain_chunk P i)) = min (?n - 65536 * int i) 65536"
  proof -
    have "int i \<le> stream_chunks ?n - 1" using assms(2) by simp
    then have "65536 * int i \<le> ?n" using c(2) by (meson mult_left_mono order_trans zero_le_numeral)
    then show ?thesis by (simp add: plain_chunk_def ChunkSize_def min_def of_nat_diff) linarith
  qed
  have e: "int (i * encChunkSize) = 65552 * int i" "int encChunkSize = 65552" by (simp_all add: chunk_consts)
  show ?thesis
  proof (cases "int i + 1 = stream_chunks ?n")
    case True
    then show ?thesis using c(3) unfolding lp e sz by (simp add: min_def)
  next
    case False
    then show ?thesis using c(2) assms(2) unfolding lp e sz by (simp add: min_def)
  qed
qed

lemma fetchChunk_ends:
  assumes "sized s P r" and "contract src" and "open_len a" and "int i < stream_chunks (int (length P))"
  shows "case fetchChunk a src r (int i) (int (i * encChunkSize)) (min (int (length s) - int (i * encChunkSize)) (int encChunkSize)) of
    Inl e \<Rightarrow> reported e
  | Inr d \<Rightarrow> length d = length (plain_chunk P i)"
proof -
  let ?n = "int (length (plain_chunk P i)) + 16"
  obtain bs e where src: "src (int (i * encChunkSize)) ?n = (bs, e)" by fastforce
  have "0 \<le> int (i * encChunkSize)" "0 \<le> ?n" by simp_all
  with assms(2) have "int (length (fst (src (int (i * encChunkSize)) ?n))) \<le> ?n \<and>
      (int (length (fst (src (int (i * encChunkSize)) ?n))) < ?n \<longrightarrow> snd (src (int (i * encChunkSize)) ?n) \<noteq> None)"
    unfolding contract_def by blast
  then have len: "e = None \<Longrightarrow> int (length bs) = ?n" unfolding src by auto
  have op: "length d = length (plain_chunk P i)" if "aopen a nonce bs = Some d" "int (length bs) = ?n" for nonce d
    using assms(3) that by (auto simp: open_len_def Overhead_def)
  show ?thesis
    unfolding fetchChunk_def chunk_size [OF assms(1,4)] src Let_def prod.case
    using len op by (auto simp: reported_def split: option.splits)
qed

lemma chunk_got_ends:
  assumes "sized s P r" and "cache_sized P (ra_cache r)" and "contract src" and "open_len a" and "int i < stream_chunks (int (length P))"
  shows "case chunk_got a src r (int i) (int (i * encChunkSize)) (min (int (length s) - int (i * encChunkSize)) (int encChunkSize)) of
    Inl e \<Rightarrow> reported e
  | Inr (d, cu) \<Rightarrow> length d = length (plain_chunk P i) \<and> cache_sized P cu"
proof -
  note f = fetchChunk_ends [OF assms(1,3,4,5)]
  let ?f = "fetchChunk a src r (int i) (int (i * encChunkSize)) (min (int (length s) - int (i * encChunkSize)) (int encChunkSize))"
  have store: "case map_sum id (\<lambda>d. (d, Some (int (i * encChunkSize), d))) ?f of
      Inl e \<Rightarrow> reported e | Inr (d, cu) \<Rightarrow> length d = length (plain_chunk P i) \<and> cache_sized P cu"
    using f assms(5) by (cases ?f) (auto simp: cache_sized_def simp del: of_nat_mult)
  show ?thesis
  proof (cases "\<exists>d. ra_cache r = Some (int (i * encChunkSize), d)")
    case True
    then obtain d where d: "ra_cache r = Some (int (i * encChunkSize), d)" by blast
    with assms(2) obtain j where j: "int (i * encChunkSize) = int (j * encChunkSize)" "length d = length (plain_chunk P j)"
      by (auto simp: cache_sized_def simp del: of_nat_mult)
    then have "j = i" using encChunkSize_pos by (simp del: encChunkSize_pos of_nat_mult)
    then show ?thesis using d j(2) by (simp add: chunk_got_def cache_sized_def)
  next
    case False
    then have "chunk_got a src r (int i) (int (i * encChunkSize)) cs =
        map_sum id (\<lambda>d. (d, Some (int (i * encChunkSize), d))) (fetchChunk a src r (int i) (int (i * encChunkSize)) cs)" for cs
      by (auto simp: chunk_got_def split: option.splits prod.splits simp del: of_nat_mult)
    then show ?thesis using store by (simp only:)
  qed
qed

text \<open>Each round copies at least one byte, because the offset lies inside a chunk of the right size.\<close>

lemma readAt_loop_ends:
  assumes "sized s P r" and "cache_sized P (ra_cache r)" and "contract src" and "open_len a"
  shows "0 \<le> off \<Longrightarrow> off \<le> int (length P) \<Longrightarrow> cache_sized P cu \<Longrightarrow>
    \<exists>out err cu'. readAt_loop a src r np off acc cu = (acc @ out, err, off + int (length out), cu') \<and>
      nat off + length out \<le> length P \<and> length out \<le> np \<and> cache_sized P cu' \<and>
      (case err of None \<Rightarrow> length out = min np (length P - nat off) | Some e \<Rightarrow> reported e)"
proof (induction np arbitrary: off acc cu rule: less_induct)
  case (less np)
  show ?case
  proof (cases "np = 0 \<or> off \<ge> int (length P)")
    case True
    then have "readAt_loop a src r np off acc cu = (acc, None, off, cu)"
      using assms(1) by (subst readAt_loop.simps) (simp add: sized_def)
    then show ?thesis using True less.prems by (intro exI [of _ "[]"] exI [of _ None] exI [of _ cu]) auto
  next
    case False
    then have off: "off < int (length P)" "np \<noteq> 0" by auto
    define i where "i = nat off div ChunkSize"
    note n = loop_numbers [OF assms(1) less.prems(1) off(1), folded i_def]
    have st: "readAt_loop a src r np off acc cu =
        (case readAt_round a src r np off of
           Inl e \<Rightarrow> (acc, Some e, off, cu)
         | Inr (bs, cu') \<Rightarrow> readAt_loop a src r (np - length bs) (off + int (length bs)) (acc @ bs) cu')"
      using off assms(1) by (subst readAt_loop.simps) (simp add: sized_def)
    let ?got = "chunk_got a src r (int i) (int (i * encChunkSize)) (min (int (length s) - int (i * encChunkSize)) (int encChunkSize))"
    note got = chunk_got_ends [OF assms n(2)]
    show ?thesis
    proof (cases ?got)
      case (Inl e)
      then have "readAt_round a src r np off = Inl e"
        unfolding readAt_round_chunk [OF assms(1) less.prems(1) off(1), folded i_def] by simp
      then show ?thesis unfolding st using Inl got less.prems
        by (intro exI [of _ "[]"] exI [of _ "Some e"] exI [of _ cu]) auto
    next
      case (Inr x)
      then obtain d cu1 where x: "?got = Inr (d, cu1)" by (metis prod.exhaust)
      with got have d: "length d = length (plain_chunk P i)" "cache_sized P cu1" by simp_all
      obtain m where m: "readAt_round a src r np off = Inr (take m (drop (nat off - i * ChunkSize) d), cu1)" "0 < m" "m \<le> np"
        "nat off + m \<le> length P" "m \<le> length d - (nat off - i * ChunkSize)"
        using readAt_round_progress [OF assms(1) less.prems(1) off, folded i_def, OF x d(1)] by metis
      let ?t = "take m (drop (nat off - i * ChunkSize) d)"
      have lt: "length ?t = m" using m(5) by simp
      have run: "readAt_loop a src r np off acc cu = readAt_loop a src r (np - m) (off + int m) (acc @ ?t) cu1"
        unfolding st m(1) sum.case prod.case lt by (rule refl)
      have "np - m < np" "0 \<le> off + int m" "off + int m \<le> int (length P)" using m off less.prems(1) by auto
      from less.IH [OF this d(2), of "acc @ ?t"] obtain out err cu' where
        IH: "readAt_loop a src r (np - m) (off + int m) (acc @ ?t) cu1 = ((acc @ ?t) @ out, err, off + int m + int (length out), cu')"
          "nat (off + int m) + length out \<le> length P" "length out \<le> np - m" "cache_sized P cu'"
          "case err of None \<Rightarrow> length out = min (np - m) (length P - nat (off + int m)) | Some e \<Rightarrow> reported e"
        by blast
      have no: "nat (off + int m) = nat off + m" using less.prems(1) by (simp add: nat_add_distrib)
      have "readAt_loop a src r np off acc cu = (acc @ (?t @ out), err, off + int (length (?t @ out)), cu')"
        unfolding run IH(1) append_assoc length_append lt by simp
      moreover have "nat off + length (?t @ out) \<le> length P" "length (?t @ out) \<le> np"
        unfolding length_append lt using IH(2,3) no m(3) by simp_all
      moreover have "case err of None \<Rightarrow> length (?t @ out) = min np (length P - nat off) | Some e \<Rightarrow> reported e"
        unfolding length_append lt using IH(5) no m(3,4) by (auto simp: min_def split: option.splits)
      ultimately show ?thesis using IH(4) by blast
    qed
  qed
qed

section \<open>Operations\<close>

lemma ReadAt_ends_step:
  assumes "sized s P r" and "cache_sized P (ra_cache r)" and "contract src" and "open_len a"
    and "ReadAt a src np off r = ((out, err), r')"
  shows "sized s P r' \<and> cache_sized P (ra_cache r') \<and> length out \<le> np \<and> err \<noteq> Some Panic \<and> err \<noteq> Some Diverge \<and>
    (length out < np \<longrightarrow> err \<noteq> None)"
proof (cases "off < 0 \<or> off > int (length P) \<or> np = 0")
  case True
  then have "ReadAt a src np off r = (([], if off < 0 \<or> off > int (length P) then Some OffsetOutOfRange else None), r)"
    using assms(1) by (auto simp: ReadAt_def sized_def)
  then show ?thesis using assms(1,2,5) True by (auto split: if_splits)
next
  case False
  then have off: "0 \<le> off" "off \<le> int (length P)" "0 < np" by auto
  have "cache_sized P None" by (simp add: cache_sized_def)
  from readAt_loop_ends [OF assms(1-4) off(1,2) this, of np "[]", unfolded append_Nil] obtain q e cu where
    l: "readAt_loop a src r np off [] None = (q, e, off + int (length q), cu)"
    and q: "nat off + length q \<le> length P" "length q \<le> np" and cu: "cache_sized P cu"
    and ok: "case e of None \<Rightarrow> length q = min np (length P - nat off) | Some e \<Rightarrow> reported e"
    by (elim exE conjE)
  have ra: "ReadAt a src np off r = (case e of Some e \<Rightarrow> ((q, Some e), r)
      | None \<Rightarrow> ((q, if off + int (length q) = ra_size r then Some EOF else None),
          case cu of None \<Rightarrow> r | Some c \<Rightarrow> r\<lparr>ra_cache := Some c\<rparr>))"
    using off assms(1) by (simp add: ReadAt_def l sized_def split: option.splits)
  show ?thesis
  proof (cases e)
    case None
    then have "length q = min np (length P - nat off)" using ok by simp
    then have "length q < np \<Longrightarrow> off + int (length q) = ra_size r" using off assms(1) by (auto simp: sized_def min_def split: if_splits)
    then show ?thesis using assms(1,2,5) cu q(2) unfolding ra None
      by (cases "length q < np") (auto simp: sized_def split: option.splits if_splits)
  next
    case (Some x)
    then show ?thesis using assms(1,2,5) ok q(2) unfolding ra Some by (auto simp: reported_def)
  qed
qed

lemma NewDecryptReaderAt_sized:
  assumes "contract src" and "open_len a" and "0 \<le> encSize" and "encSize < 2 ^ 62" and "NewDecryptReaderAt new key src encSize = Inr (a, r)"
  obtains s P where "sized s P r" "cache_sized P (ra_cache r)"
proof -
  define s :: bytes where "s = replicate (nat encSize) 0"
  have ls: "int (length s) = encSize" using assms(3) by (simp add: s_def)
  have b: "0 \<le> encSize" "encSize < 2 ^ 63 - 65552" using assms(3,4) by simp_all
  obtain c where "EncryptedChunkCount encSize = Inr c"
    using assms(5) by (auto simp: NewDecryptReaderAt_def split: option.splits sum.splits)
  with EncryptedChunkCount_iff [OF b] obtain n where n: "0 \<le> n" "encSize = encrypted_size n" by blast
  define P :: bytes where "P = replicate (nat n) 0"
  have lP: "int (length P) = n" using n(1) by (simp add: P_def)
  have sz: "int (length s) = encrypted_size (int (length P))" "int (length s) < 2 ^ 62" using ls lP n(2) assms(4) by simp_all
  define i where "i = nat (stream_chunks (int (length P)) - 1)"
  note f = final_chunk [OF sz, folded i_def]
  have i: "int i < stream_chunks (int (length P))" using f(2) by simp
  let ?r0 = "\<lparr>ra_size = int (length P), ra_chunks = stream_chunks (int (length P)), ra_cache = None\<rparr>"
  have sized: "sized s P ?r0" using sz by (simp add: sized_def)
  have fin: "int (length s) - int (i * encChunkSize) = int (length (plain_chunk P i)) + 16"
  proof -
    have "int (length s) - int (i * encChunkSize) \<le> int encChunkSize" using f(6,7) by linarith
    with chunk_size [OF sized i] show ?thesis by (simp only: min_absorb1)
  qed
  let ?n = "int (length (plain_chunk P i)) + 16"
  obtain bs e where src: "src (int (i * encChunkSize)) ?n = (bs, e)" by fastforce
  have nn: "\<not> ?n < 0" "0 \<le> ?n" "0 \<le> int (i * encChunkSize)" by simp_all
  with assms(1) have "int (length (fst (src (int (i * encChunkSize)) ?n))) \<le> ?n \<and>
      (int (length (fst (src (int (i * encChunkSize)) ?n))) < ?n \<longrightarrow> snd (src (int (i * encChunkSize)) ?n) \<noteq> None)"
    unfolding contract_def by blast
  then have len: "e = None \<Longrightarrow> int (length bs) = ?n" unfolding src by auto
  obtain a' where a': "new key = Some a'" using assms(5) by (cases "new key") (simp_all add: NewDecryptReaderAt_def)
  have res: "NewDecryptReaderAt new key src encSize =
    (case e of Some e \<Rightarrow> Inl (ReadFailed e)
     | None \<Rightarrow> (case aopen a' (setLastChunkFlag (nonceForChunk (int i))) bs of
         None \<Rightarrow> Inl DecryptFailed
       | Some d \<Rightarrow> Inr (a', \<lparr>ra_size = int (length P), ra_chunks = stream_chunks (int (length P)),
           ra_cache = Some (int (i * encChunkSize), d)\<rparr>)))"
    unfolding NewDecryptReaderAt_def a' option.case ls [symmetric] f(1) sum.case Let_def f(3,4,8) fin f(5) [unfolded fin] src
    by (simp only: nn if_False prod.case split: option.split)
  with assms(5) obtain d where d: "aopen a (setLastChunkFlag (nonceForChunk (int i))) bs = Some d" "e = None"
    "r = \<lparr>ra_size = int (length P), ra_chunks = stream_chunks (int (length P)), ra_cache = Some (int (i * encChunkSize), d)\<rparr>"
    by (auto split: option.splits)
  have "length d = length (plain_chunk P i)" using assms(2) d(1) len [OF d(2)] by (auto simp: open_len_def Overhead_def)
  then have "cache_sized P (ra_cache r)" using i by (auto simp: cache_sized_def d(3) simp del: of_nat_mult)
  then show thesis using that [of s P] sz by (simp add: sized_def d(3))
qed

section \<open>Property\<close>

text \<open>The readers reachable from \<open>r0\<close> by calls of \<open>ReadAt\<close>, each on a store of its own.\<close>

inductive any_run :: "aead \<Rightarrow> decrypt_reader_at \<Rightarrow> decrypt_reader_at \<Rightarrow> bool" for a r0 where
  opened: "any_run a r0 r0"
| called: "any_run a r0 r \<Longrightarrow> contract src \<Longrightarrow> ReadAt a src np off r = (x, r') \<Longrightarrow> any_run a r0 r'"

lemma any_run_sized:
  assumes "any_run a r0 r" and "sized s P r0" and "cache_sized P (ra_cache r0)" and "open_len a"
  shows "sized s P r \<and> cache_sized P (ra_cache r)"
  using assms(1)
proof induction
  case (called r src np off x r')
  then show ?case using ReadAt_ends_step [OF _ _ called(2) assms(4), of s P r np off "fst x" "snd x" r'] by simp
qed (simp add: assms)

text \<open>C16: random access ends. Once a reader was opened, every call of \<open>ReadAt\<close> returns, without a panic
  and without an endless loop, whatever the calls before it read and whatever the store holds,
  refuses or changes in between, as long as it keeps the contract of \<^verbatim>\<open>io.ReaderAt\<close>; and the reader
  keeps this contract itself, so that it can be the store of another one.\<close>

theorem ReadAt_ends:
  assumes "open_len a" and "contract src" and "0 \<le> encSize" and "encSize < 2 ^ 62"
    and "NewDecryptReaderAt new key src encSize = Inr (a, r0)" and "any_run a r0 r" and "contract src'"
  shows "snd (fst (ReadAt a src' np off r)) \<notin> {Some Panic, Some Diverge} \<and>
    contract (\<lambda>off n. fst (ReadAt a src' (nat n) off r))"
proof -
  obtain s P where "sized s P r0" "cache_sized P (ra_cache r0)"
    using NewDecryptReaderAt_sized [OF assms(2,1,3,4,5)] by blast
  with any_run_sized [OF assms(6) _ _ assms(1)] have r: "sized s P r" "cache_sized P (ra_cache r)" by blast+
  have step: "length (fst (fst (ReadAt a src' np off r))) \<le> np \<and> snd (fst (ReadAt a src' np off r)) \<notin> {Some Panic, Some Diverge} \<and>
      (length (fst (fst (ReadAt a src' np off r))) < np \<longrightarrow> snd (fst (ReadAt a src' np off r)) \<noteq> None)" for np off
    using ReadAt_ends_step [OF r assms(7,1), of np off] by (metis insertE prod.collapse singletonD)
  have "contract (\<lambda>off n. fst (ReadAt a src' (nat n) off r))"
    unfolding contract_def using step by (metis int_nat_eq nat_int nat_le_iff of_nat_less_iff)
  then show ?thesis using step by blast
qed

text \<open>A store in memory that reports \<open>EOF\<close> behind its end, and one that fails.\<close>

definition eof_memory :: "bytes \<Rightarrow> reader_at" where
  "eof_memory s off n = (take (nat n) (drop (nat off) s), if int (length s) < off + n then Some EOF else None)"

lemma eof_memory_ok: "serves (eof_memory s) s" "contract (eof_memory s)"
  by (auto simp: serves_def contract_def eof_memory_def)

definition failing_store :: reader_at where
  "failing_store off n = ([], Some (OtherError 7))"

theorem ReadAt_ends_witness:
  "\<exists>r. contract (\<lambda>off n. fst (ReadAt sample_aead failing_store (nat n) off r)) \<and>
     snd (fst (ReadAt sample_aead failing_store 5 1 r)) \<noteq> Some Diverge"
proof -
  let ?s = "stream_encrypt sample_aead [1, 2, 3]"
  obtain r where r: "NewDecryptReaderAt (\<lambda>_. Some sample_aead) [] (eof_memory ?s) (int (length ?s)) = Inr (sample_aead, r)"
    unfolding NewDecryptReaderAt_result [OF eof_memory_ok(1) encrypted_consistent(1) [OF sample_aead_ok sample_at_size] refl]
    using encrypted_consistent(2) [OF sample_aead_ok sample_at_size, of 0]
    by (simp add: eof_memory_def stream_chunks_def)
  have c: "contract failing_store" by (simp add: contract_def failing_store_def)
  from ReadAt_ends [OF aead_ok_open_len [OF sample_aead_ok] eof_memory_ok(2) _ sample_at_size r any_run.opened c, of 5 1]
  show ?thesis by auto
qed

end
