(* ===== verification/Stream_Shared.thy ===== *)
theory Stream_Shared
  imports Stream_Ends
begin

text \<open>
  Concurrent calls of \<open>ReadAt\<close> on one \<open>DecryptReaderAt\<close>. Its only mutable field is the cache, an
  \<^verbatim>\<open>atomic.Pointer\<close> to a chunk that is never written again. A call loads it once per round and
  stores into it once, after its loop, so a call is a sequence of atomic steps: a round, at the time
  of its load (all that follows in the round is local or reads the store), or the end of the call.
  Calls start at any time, and their steps interleave in any order.
\<close>

section \<open>Calls in progress\<close>

text \<open>A call with its two arguments, and either the variables of the loop or what it returned.\<close>

datatype call =
    Running nat int nat int bytes "(int \<times> bytes) option" \<comment> \<open>arguments; \<^verbatim>\<open>len(p)\<close>, \<^verbatim>\<open>off\<close>, copied, \<^verbatim>\<open>cacheUpdate\<close>\<close>
  | Returned nat int bytes "stream_error option"

definition ReadAt_start :: "decrypt_reader_at \<Rightarrow> nat \<Rightarrow> int \<Rightarrow> call" where
  "ReadAt_start r np off =
     (if off < 0 \<or> off > ra_size r then Returned np off [] (Some OffsetOutOfRange)
      else if np = 0 then Returned np off [] None
      else Running np off np off [] None)"

fun ReadAt_step :: "aead \<Rightarrow> reader_at \<Rightarrow> decrypt_reader_at \<Rightarrow> call \<Rightarrow> decrypt_reader_at \<times> call" where
  "ReadAt_step a src r (Running np0 off0 np off acc cu) =
     (if np = 0 \<or> off \<ge> ra_size r then
        (case cu of None \<Rightarrow> r | Some c \<Rightarrow> r\<lparr>ra_cache := Some c\<rparr>,
         Returned np0 off0 acc (if off = ra_size r then Some EOF else None))
      else case readAt_round a src r np off of
             Inl e \<Rightarrow> (r, Returned np0 off0 acc (Some e))
           | Inr (bs, cu') \<Rightarrow> (r, Running np0 off0 (np - length bs) (off + int (length bs)) (acc @ bs) cu'))"
| "ReadAt_step a src r (Returned np off out err) = (r, Returned np off out err)"

inductive interleaving :: "aead \<Rightarrow> reader_at \<Rightarrow> decrypt_reader_at \<Rightarrow> decrypt_reader_at \<Rightarrow> call list \<Rightarrow> bool" for a src r0 where
  opened: "interleaving a src r0 r0 []"
| starts: "interleaving a src r0 r ts \<Longrightarrow> interleaving a src r0 r (ts @ [ReadAt_start r np off])"
| steps: "interleaving a src r0 r ts \<Longrightarrow> i < length ts \<Longrightarrow> ReadAt_step a src r (ts ! i) = (r', t) \<Longrightarrow>
    interleaving a src r0 r' (ts[i := t])"

section \<open>A call by itself\<close>

text \<open>Without interference, the steps of a call do what \<open>ReadAt\<close> does.\<close>

definition run_call :: "aead \<Rightarrow> reader_at \<Rightarrow> nat \<Rightarrow> decrypt_reader_at \<times> call \<Rightarrow> decrypt_reader_at \<times> call" where
  "run_call a src n = (\<lambda>(r, t). ReadAt_step a src r t) ^^ n"

lemma run_call_Suc: "run_call a src (Suc n) (r, t) = run_call a src n (ReadAt_step a src r t)"
  unfolding run_call_def funpow_Suc_right by simp

lemma run_call_0: "run_call a src 0 x = x"
  by (simp add: run_call_def)

lemma run_call_loop:
  "\<exists>n. run_call a src n (r, Running np0 off0 np off acc cu) =
    (case readAt_loop a src r np off acc cu of
       (out, Some e, _, _) \<Rightarrow> (r, Returned np0 off0 out (Some e))
     | (out, None, off', cu') \<Rightarrow>
         (case cu' of None \<Rightarrow> r | Some c \<Rightarrow> r\<lparr>ra_cache := Some c\<rparr>,
          Returned np0 off0 out (if off' = ra_size r then Some EOF else None)))"
proof (induction np arbitrary: off acc cu rule: less_induct)
  case (less np)
  show ?case
  proof (cases "np = 0 \<or> off \<ge> ra_size r")
    case True
    then have "readAt_loop a src r np off acc cu = (acc, None, off, cu)" by (subst readAt_loop.simps) simp
    then show ?thesis using True by (intro exI [of _ "Suc 0"]) (simp add: run_call_Suc run_call_0)
  next
    case False
    note st = readAt_loop.simps [of a src r np off acc cu]
    show ?thesis
    proof (cases "readAt_round a src r np off")
      case (Inl e)
      then have "readAt_loop a src r np off acc cu = (acc, Some e, off, cu)" unfolding st using False by simp
      then show ?thesis using False Inl by (intro exI [of _ "Suc 0"]) (simp add: run_call_Suc run_call_0)
    next
      case (Inr x)
      then obtain bs cu' where x: "readAt_round a src r np off = Inr (bs, cu')" by (metis prod.exhaust)
      then have "readAt_loop a src r np off acc cu = readAt_loop a src r (np - length bs) (off + int (length bs)) (acc @ bs) cu'"
        unfolding st using False by simp
      moreover have "np - length bs < np" using readAt_round_length [OF x] False by simp
      moreover have "run_call a src (Suc n) (r, Running np0 off0 np off acc cu) =
          run_call a src n (r, Running np0 off0 (np - length bs) (off + int (length bs)) (acc @ bs) cu')" for n
        using False x by (simp add: run_call_Suc)
      moreover obtain n where "run_call a src n (r, Running np0 off0 (np - length bs) (off + int (length bs)) (acc @ bs) cu') =
          (case readAt_loop a src r (np - length bs) (off + int (length bs)) (acc @ bs) cu' of
             (out, Some e, _, _) \<Rightarrow> (r, Returned np0 off0 out (Some e))
           | (out, None, off', cu') \<Rightarrow>
               (case cu' of None \<Rightarrow> r | Some c \<Rightarrow> r\<lparr>ra_cache := Some c\<rparr>,
                Returned np0 off0 out (if off' = ra_size r then Some EOF else None)))"
        using less.IH [OF calculation(2)] by blast
      ultimately show ?thesis by (intro exI [of _ "Suc n"]) (simp only:)
    qed
  qed
qed

lemma run_call_ReadAt:
  "\<exists>n. run_call a src n (r, ReadAt_start r np off) =
    (snd (ReadAt a src np off r), Returned np off (fst (fst (ReadAt a src np off r))) (snd (fst (ReadAt a src np off r))))"
proof (cases "off < 0 \<or> off > ra_size r \<or> np = 0")
  case True
  then show ?thesis by (intro exI [of _ 0]) (auto simp: run_call_0 ReadAt_start_def ReadAt_def)
next
  case False
  from run_call_loop [of a src r np off np off "[]" None] obtain n where
    "run_call a src n (r, Running np off np off [] None) =
      (case readAt_loop a src r np off [] None of
         (out, Some e, _, _) \<Rightarrow> (r, Returned np off out (Some e))
       | (out, None, off', cu') \<Rightarrow>
           (case cu' of None \<Rightarrow> r | Some c \<Rightarrow> r\<lparr>ra_cache := Some c\<rparr>,
            Returned np off out (if off' = ra_size r then Some EOF else None)))" by blast
  with False show ?thesis
    by (intro exI [of _ n]) (auto simp: ReadAt_start_def ReadAt_def split: option.splits prod.splits)
qed

section \<open>All calls\<close>

definition call_ok :: "aead \<Rightarrow> bytes \<Rightarrow> bytes \<Rightarrow> call \<Rightarrow> bool" where
  "call_ok a s P t \<longleftrightarrow> (case t of
     Running np0 off0 np off acc cu \<Rightarrow> 0 < np0 \<and> 0 \<le> off0 \<and> entry_ok a s P cu \<and>
       (\<exists>k. acc = take k (drop (nat off0) P) \<and> nat off0 + k \<le> length P \<and> off = off0 + int k \<and> np + k = np0)
   | Returned np off out err \<Rightarrow>
       if off < 0 \<or> off > int (length P) then out = [] \<and> err = Some OffsetOutOfRange
       else (\<exists>k. out = take k (drop (nat off) P) \<and> k \<le> np \<and> err = Some DecryptFailed \<and>
              (\<exists>i. int i < stream_chunks (int (length P)) \<and> at_open a s (int (length P)) i = None)) \<or>
         (out = take np (drop (nat off) P) \<and> err = (if 0 < np \<and> off + int np \<ge> int (length P) then Some EOF else None)))"

lemma ReadAt_start_ok: "at_inv a s P r \<Longrightarrow> call_ok a s P (ReadAt_start r np off)"
  by (auto simp: call_ok_def ReadAt_start_def at_inv_def entry_ok_def intro!: exI [of _ "0 :: nat"])

lemma ReadAt_step_ok:
  assumes "at_inv a s P r" and "serves src s" and "call_ok a s P t" and "ReadAt_step a src r t = (r', t')"
  shows "at_inv a s P r' \<and> call_ok a s P t'"
proof (cases t)
  case (Returned np off out err)
  then show ?thesis using assms by simp
next
  case (Running np0 off0 np off acc cu)
  have size: "ra_size r = int (length P)" using assms(1) by (simp add: at_inv_def)
  from assms(3) obtain k where k: "0 < np0" "0 \<le> off0" "entry_ok a s P cu" "acc = take k (drop (nat off0) P)"
    "nat off0 + k \<le> length P" "off = off0 + int k" "np + k = np0"
    by (auto simp: call_ok_def Running)
  have no: "nat off = nat off0 + k" "0 \<le> off" using k(2,6) by (simp_all add: nat_add_distrib)
  show ?thesis
  proof (cases "np = 0 \<or> off \<ge> int (length P)")
    case True
    then have "take k (drop (nat off0) P) = take np0 (drop (nat off0) P)" using k by auto
    moreover have "off = int (length P) \<longleftrightarrow> off0 + int np0 \<ge> int (length P)" using True k by auto
    moreover have "at_inv a s P (case cu of None \<Rightarrow> r | Some c \<Rightarrow> r\<lparr>ra_cache := Some c\<rparr>)"
      using assms(1) k(3) by (auto simp: at_inv_def split: option.splits)
    ultimately show ?thesis using assms(4) True k size by (auto simp: Running call_ok_def)
  next
    case False
    then have off: "off < int (length P)" "np \<noteq> 0" by auto
    from readAt_round_result [OF assms(1,2) no(2) off] show ?thesis
    proof (elim disjE exE conjE)
      fix i assume "readAt_round a src r np off = Inl DecryptFailed"
        "int i < stream_chunks (int (length P))" "at_open a s (int (length P)) i = None"
      then have "r' = r" "t' = Returned np0 off0 (take k (drop (nat off0) P)) (Some DecryptFailed)"
        "\<exists>i. int i < stream_chunks (int (length P)) \<and> at_open a s (int (length P)) i = None"
        using assms(4) False k(4) size by (auto simp: Running)
      moreover have "k \<le> np0" "\<not> (off0 < 0 \<or> off0 > int (length P))" using k by auto
      ultimately show ?thesis using assms(1) by (simp add: call_ok_def) blast
    next
      fix m cu1 assume m: "readAt_round a src r np off = Inr (take m (drop (nat off) P), cu1)" "0 < m" "m \<le> np"
        "nat off + m \<le> length P" "entry_ok a s P cu1"
      have "acc @ take m (drop (nat off) P) = take (k + m) (drop (nat off0) P)"
        unfolding k(4) no(1) take_add by (simp add: add.commute)
      moreover have "length (take m (drop (nat off) P)) = m" using m(4) by simp
      ultimately have "(r', t') = (r, Running np0 off0 (np - m) (off + int m) (take (k + m) (drop (nat off0) P)) cu1)"
        using assms(4) False size m(1) by (simp add: Running del: length_take length_drop)
      then show ?thesis using assms(1) k m no by (auto simp: call_ok_def intro!: exI [of _ "k + m"])
    qed
  qed
qed

lemma interleaving_ok:
  assumes "interleaving a src r0 r ts" and "serves src s" and "at_inv a s P r0"
  shows "at_inv a s P r \<and> list_all (call_ok a s P) ts"
  using assms(1)
proof induction
  case opened
  show ?case using assms(3) by simp
next
  case (starts r ts np off)
  then show ?case using ReadAt_start_ok by simp
next
  case (steps r ts i r' t)
  then have "call_ok a s P (ts ! i)" by (simp add: list_all_length)
  then have "at_inv a s P r' \<and> call_ok a s P t" using ReadAt_step_ok assms(2) steps by blast
  then show ?case using steps.IH steps(2) by (auto simp: list_all_length nth_list_update)
qed

section \<open>Property\<close>

text \<open>C15: a reader can be shared. However any number of concurrent calls of \<open>ReadAt\<close> interleave, each
  call that returned delivered exactly what it would have delivered alone: the slice of the
  plaintext it asked for, with \<open>EOF\<close> exactly at the end; and each of its steps in between brings a
  running call closer to its end or ends it, so every call returns after at most one step more than
  the bytes it asked for.\<close>

theorem ReadAt_interleaved:
  assumes "aead_ok a" and "serves src (stream_encrypt a p)" and "int (length (stream_encrypt a p)) < 2 ^ 62"
    and "NewDecryptReaderAt new key src (int (length (stream_encrypt a p))) = Inr (a, r0)"
    and "interleaving a src r0 r ts" and "t \<in> set ts"
  shows "case t of
      Returned np off out err \<Rightarrow>
        (out, err) = (if off < 0 \<or> off > int (length p) then ([], Some OffsetOutOfRange)
          else (take np (drop (nat off) p), if 0 < np \<and> off + int np \<ge> int (length p) then Some EOF else None)) \<and>
        (out, err) = fst (ReadAt a src np off r)
    | Running np0 off0 np off acc cu \<Rightarrow> np \<le> np0 \<and>
        (case snd (ReadAt_step a src r t) of Returned _ _ _ _ \<Rightarrow> True | Running _ _ np' _ _ _ \<Rightarrow> np' < np)"
proof -
  note e = encrypted_consistent [OF assms(1,3)]
  have inv: "at_inv a (stream_encrypt a p) p r" "call_ok a (stream_encrypt a p) p t"
    using interleaving_ok [OF assms(5,2)] NewDecryptReaderAt_inv [OF assms(2) e(1) assms(4)] assms(6)
    by (auto simp: list_all_iff)
  have slice: "(out, err) = (if off < 0 \<or> off > int (length p) then ([], Some OffsetOutOfRange)
      else (take np (drop (nat off) p), if 0 < np \<and> off + int np \<ge> int (length p) then Some EOF else None))"
    if "call_ok a (stream_encrypt a p) p (Returned np off out err)" for np off out err
    using that e(2) by (auto simp: call_ok_def split: if_splits)
  show ?thesis
  proof (cases t)
    case (Returned np off out err)
    obtain out' err' r' where ra: "ReadAt a src np off r = ((out', err'), r')" by (metis prod.exhaust)
    have "call_ok a (stream_encrypt a p) p (Returned np off out' err')"
      using ReadAt_result(2,3) [OF inv(1) assms(2) ra] e(2) by (auto simp: call_ok_def split: if_splits)
    then show ?thesis using slice [of np off out err] slice [of np off out' err'] inv(2) by (simp add: Returned ra)
  next
    case (Running np0 off0 np off acc cu)
    have "np \<le> np0" using inv(2) by (auto simp: call_ok_def Running)
    then show ?thesis
      using readAt_round_length [of a src r np off] by (auto simp: Running split: sum.splits)
  qed
qed

text \<open>Two calls are started, then the second one runs to its end, then the first one.\<close>

lemma interleaving_run:
  "interleaving a src r0 r ts \<Longrightarrow> i < length ts \<Longrightarrow> run_call a src n (r, ts ! i) = (r', t) \<Longrightarrow>
    interleaving a src r0 r' (ts[i := t])"
proof (induction n arbitrary: r ts)
  case 0
  then show ?case by (auto simp: run_call_0)
next
  case (Suc n)
  obtain r1 t1 where step: "ReadAt_step a src r (ts ! i) = (r1, t1)" by fastforce
  have "interleaving a src r0 r1 (ts[i := t1])" using Suc.prems(1,2) step by (rule interleaving.steps)
  from Suc.IH [OF this] Suc.prems(2,3) step show ?case by (simp add: run_call_Suc)
qed

theorem ReadAt_interleaved_witness:
  "\<exists>r0 r ts. interleaving sample_aead (in_memory (stream_encrypt sample_aead [1, 2, 3])) r0 r ts \<and>
     Returned 5 1 [2, 3] (Some EOF) \<in> set ts \<and> Returned 2 0 [1, 2] None \<in> set ts"
proof -
  let ?s = "stream_encrypt sample_aead [1, 2, 3]"
  obtain r0 where r0: "NewDecryptReaderAt (\<lambda>_. Some sample_aead) [] (in_memory ?s) (int (length ?s)) = Inr (sample_aead, r0)"
    using sample_at_opens by blast
  define A where "A = ReadAt_start r0 5 1"
  define B where "B = ReadAt_start r0 2 0"
  have "interleaving sample_aead (in_memory ?s) r0 r0 [A, B]"
    using interleaving.starts [OF interleaving.starts [OF interleaving.opened], of sample_aead "in_memory ?s" r0 5 1 2 0]
    by (simp add: A_def B_def)
  moreover obtain n r1 ob eb where "run_call sample_aead (in_memory ?s) n (r0, B) = (r1, Returned 2 0 ob eb)"
    using run_call_ReadAt unfolding B_def by metis
  ultimately have 1: "interleaving sample_aead (in_memory ?s) r0 r1 [A, Returned 2 0 ob eb]"
    using interleaving_run [of sample_aead "in_memory ?s" r0 r0 "[A, B]" 1 n] by simp
  have inv: "at_inv sample_aead ?s [1, 2, 3] r0"
    by (rule NewDecryptReaderAt_inv [OF in_memory_serves encrypted_consistent(1) [OF sample_aead_ok sample_at_size] r0])
  then have "ra_size r0 = 3" "at_inv sample_aead ?s [1, 2, 3] r1"
    using interleaving_ok [OF 1 in_memory_serves inv] by (simp_all add: at_inv_def)
  then have "A = ReadAt_start r1 5 1" by (simp add: A_def ReadAt_start_def at_inv_def)
  then obtain m r2 oa ea where "run_call sample_aead (in_memory ?s) m (r1, A) = (r2, Returned 5 1 oa ea)"
    using run_call_ReadAt by metis
  with 1 have 2: "interleaving sample_aead (in_memory ?s) r0 r2 [Returned 5 1 oa ea, Returned 2 0 ob eb]"
    using interleaving_run [of sample_aead "in_memory ?s" r0 r1 "[A, Returned 2 0 ob eb]" 0 m] by simp
  note p = ReadAt_interleaved [OF sample_aead_ok in_memory_serves sample_at_size r0 2]
  have "oa = [2, 3] \<and> ea = Some EOF" "ob = [1, 2] \<and> eb = None"
    using p [of "Returned 5 1 oa ea"] p [of "Returned 2 0 ob eb"] by simp_all
  with 2 show ?thesis by (intro exI [of _ r0] exI [of _ r2] exI [of _ "[Returned 5 1 oa ea, Returned 2 0 ob eb]"]) simp
qed

end
