(* ===== verification/Utf8.thy ===== *)
theory Utf8
  imports Prelude
begin

text \<open>
  \<^verbatim>\<open>utf8.Valid\<close> and \<^verbatim>\<open>utf8.ValidString\<close> of the Go standard library, which the CBOR text
  strings rely on: the first-byte table with its accept ranges, and the byte loop. The
  closing theorem relates the loop to the definition of UTF-8: the valid byte strings
  are exactly the concatenated encodings of Unicode scalar values.
\<close>

section \<open>The validity loop\<close>

text \<open>
  The standard library's table \<^verbatim>\<open>first\<close> with \<^verbatim>\<open>acceptRanges\<close>: for a leading byte the number of
  continuation bytes and the range of the first of them; \<open>None\<close> for an invalid leader.
\<close>

definition utf8_first :: "byte \<Rightarrow> (nat \<times> byte \<times> byte) option" where
  "utf8_first b =
     (if b < 0xC2 then None
      else if b \<le> 0xDF then Some (1, 0x80, 0xBF)
      else if b = 0xE0 then Some (2, 0xA0, 0xBF)
      else if b = 0xED then Some (2, 0x80, 0x9F)
      else if b \<le> 0xEF then Some (2, 0x80, 0xBF)
      else if b = 0xF0 then Some (3, 0x90, 0xBF)
      else if b \<le> 0xF3 then Some (3, 0x80, 0xBF)
      else if b = 0xF4 then Some (3, 0x80, 0x8F)
      else None)"

definition utf8_cont :: "byte \<Rightarrow> bool" where
  "utf8_cont c \<longleftrightarrow> 0x80 \<le> c \<and> c \<le> 0xBF"

definition utf8_tail_ok :: "nat \<times> byte \<times> byte \<Rightarrow> bytes \<Rightarrow> bool" where
  "utf8_tail_ok r bs =
     (case r of (k, lo, hi) \<Rightarrow>
        k \<le> length bs \<and> lo \<le> bs ! 0 \<and> bs ! 0 \<le> hi \<and> list_all utf8_cont (take (k - 1) (tl bs)))"

function utf8_valid :: "bytes \<Rightarrow> bool" where
  "utf8_valid [] = True"
| "utf8_valid (b # bs) =
     (if b < 0x80 then utf8_valid bs
      else (case utf8_first b of None \<Rightarrow> False
            | Some r \<Rightarrow> utf8_tail_ok r bs \<and> utf8_valid (drop (fst r) bs)))"
  by pat_completeness auto
termination
  by (relation "measure length") auto

section \<open>The encoding of Unicode scalar values\<close>

definition scalar :: "nat \<Rightarrow> bool" where
  "scalar c \<longleftrightarrow> c < 0xD800 \<or> (0xE000 \<le> c \<and> c < 0x110000)"

definition utf8_encode :: "nat \<Rightarrow> bytes" where
  "utf8_encode c =
     (if c < 0x80 then [byte_of c]
      else if c < 0x800 then [byte_of (0xC0 + c div 64), byte_of (0x80 + c mod 64)]
      else if c < 0x10000 then
        [byte_of (0xE0 + c div 4096), byte_of (0x80 + c div 64 mod 64), byte_of (0x80 + c mod 64)]
      else
        [byte_of (0xF0 + c div 262144), byte_of (0x80 + c div 4096 mod 64),
         byte_of (0x80 + c div 64 mod 64), byte_of (0x80 + c mod 64)])"

text \<open>The tables read on the numeric values of the bytes.\<close>

lemma utf8_first_nat:
  "utf8_first b =
     (let n = unat b in
      if n < 0xC2 then None
      else if n \<le> 0xDF then Some (1, 0x80, 0xBF)
      else if n = 0xE0 then Some (2, 0xA0, 0xBF)
      else if n = 0xED then Some (2, 0x80, 0x9F)
      else if n \<le> 0xEF then Some (2, 0x80, 0xBF)
      else if n = 0xF0 then Some (3, 0x90, 0xBF)
      else if n \<le> 0xF3 then Some (3, 0x80, 0xBF)
      else if n = 0xF4 then Some (3, 0x80, 0x8F)
      else None)"
  by (simp add: utf8_first_def word_le_nat_alt word_less_nat_alt word_unat_eq_iff Let_def)

lemmas utf8_nat = utf8_first_nat utf8_cont_def utf8_tail_ok_def word_le_nat_alt word_less_nat_alt

lemma utf8_valid_encode:
  assumes "scalar c"
  shows "utf8_valid (utf8_encode c @ bs) = utf8_valid bs"
proof -
  consider "c < 0x80" | "0x80 \<le> c" "c < 0x800" | "0x800 \<le> c" "c < 0x10000" | "0x10000 \<le> c"
    by linarith
  then show ?thesis
  proof cases
    case 1
    then show ?thesis by (simp add: utf8_encode_def utf8_nat)
  next
    case 2
    define x y where xy: "x = c div 64" "y = c mod 64"
    have "2 \<le> x" "x < 32" "y < 64" using 2 by (auto simp: xy)
    then show ?thesis using 2
      by (simp add: utf8_encode_def utf8_nat Let_def flip: xy)
  next
    case 3
    define x y z where xyz: "x = c div 4096" "y = c div 64 mod 64" "z = c mod 64"
    have a: "x < 16" "y < 64" "z < 64" using 3 by (auto simp: xyz)
    have b: "x = 0 \<Longrightarrow> 32 \<le> y" using 3 by (auto simp: xyz)
    have "c div 64 = 64 * x + y" using div_mult2_eq [of c 64 64] by (simp add: xyz)
    moreover have "c = 64 * (c div 64) + z" by (simp add: xyz)
    ultimately have c: "c = 4096 * x + 64 * y + z" by linarith
    have d: "x = 13 \<Longrightarrow> y < 32" using a c 3 assms by (auto simp: scalar_def)
    show ?thesis using 3 a b d
      by (simp add: utf8_encode_def utf8_nat Let_def flip: xyz) linarith
  next
    case 4
    define w x y z where wxyz: "w = c div 262144" "x = c div 4096 mod 64" "y = c div 64 mod 64" "z = c mod 64"
    have a: "w < 5" "x < 64" "y < 64" "z < 64"
      using 4 assms by (auto simp: wxyz scalar_def)
    have b: "w = 0 \<Longrightarrow> 16 \<le> x" using 4 by (auto simp: wxyz)
    have "c div 4096 = 64 * w + x" using div_mult2_eq [of c 4096 64] by (simp add: wxyz)
    moreover have "c div 4096 < 272" using 4 assms by (auto simp: scalar_def)
    ultimately have d: "w = 4 \<Longrightarrow> x < 16" by linarith
    show ?thesis using 4 a b d
      by (simp add: utf8_encode_def utf8_nat Let_def flip: wxyz) linarith
  qed
qed

lemma digit64:
  assumes "m < (64 :: nat)"
  shows "(a * 64 + m) div 64 = a" and "(a * 64 + m) mod 64 = m"
  using assms by auto

lemma div_digits64: "c div 4096 = c div 64 div 64" "c div 262144 = c div 64 div 64 div 64" for c :: nat
  by (simp_all flip: div_mult2_eq)

text \<open>Each leading byte with an accepted tail starts the encoding of one scalar value.\<close>

lemma utf8_cont_digit:
  assumes "utf8_cont d"
  shows "\<exists>m < 64. d = byte_of (0x80 + m)"
proof (intro exI conjI)
  show "unat d - 0x80 < 64" using assms by (auto simp add: utf8_cont_def word_le_nat_alt)
  show "d = byte_of (0x80 + (unat d - 0x80))"
    using assms by (simp add: utf8_cont_def word_le_nat_alt)
qed

text \<open>Sequences of two, three and four bytes.\<close>

lemma utf8_two:
  assumes f: "utf8_first b = Some (1, lo, hi)" and t: "utf8_tail_ok (1, lo, hi) bs"
  shows "\<exists>c. scalar c \<and> utf8_encode c = b # take 1 bs"
proof -
  define n where "n = unat b"
  have b: "b = byte_of n" by (simp add: n_def)
  from t obtain d ds where bs: "bs = d # ds" by (cases bs) (auto simp: utf8_tail_ok_def)
  have r: "0xC2 \<le> n" "n \<le> 0xDF" "lo = 0x80" "hi = 0xBF"
    using f by (auto simp: utf8_first_nat Let_def n_def split: if_splits)
  have "utf8_cont d" using t r bs by (simp add: utf8_tail_ok_def utf8_cont_def)
  then obtain m where m: "m < 64" "d = byte_of (0x80 + m)" using utf8_cont_digit by blast
  let ?c = "(n - 0xC0) * 64 + m"
  have c: "0x80 \<le> ?c" "?c < 0x800" using r m by auto
  have p: "?c div 64 = n - 0xC0" "?c mod 64 = m" using m by auto
  have "utf8_encode ?c = b # take 1 bs"
    unfolding utf8_encode_def p using c r m bs b by simp
  moreover have "scalar ?c" using c by (simp add: scalar_def)
  ultimately show ?thesis by blast
qed

lemma utf8_three:
  assumes f: "utf8_first b = Some (2, lo, hi)" and t: "utf8_tail_ok (2, lo, hi) bs"
  shows "\<exists>c. scalar c \<and> utf8_encode c = b # take 2 bs"
proof -
  define n where "n = unat b"
  have b: "b = byte_of n" by (simp add: n_def)
  from t obtain d e ds where bs: "bs = d # e # ds"
    by (cases bs; cases "tl bs") (auto simp: utf8_tail_ok_def)
  have r: "0xE0 \<le> n" "n \<le> 0xEF" "n = 0xE0 \<Longrightarrow> lo = 0xA0" "n = 0xED \<Longrightarrow> hi = 0x9F" "0x80 \<le> lo" "hi \<le> 0xBF"
    using f by (auto simp: utf8_first_nat Let_def n_def split: if_splits)
  have de: "lo \<le> d" "d \<le> hi" "utf8_cont e" using t bs by (auto simp: utf8_tail_ok_def)
  then have "utf8_cont d" using r by (auto simp: utf8_cont_def)
  then obtain m where m: "m < 64" "d = byte_of (0x80 + m)" using utf8_cont_digit by blast
  obtain l where l: "l < 64" "e = byte_of (0x80 + l)" using utf8_cont_digit de(3) by blast
  have lo: "n = 0xE0 \<Longrightarrow> 32 \<le> m" using r(3) de(1) m by (simp add: word_le_nat_alt)
  have hi: "n = 0xED \<Longrightarrow> m < 32" using r(4) de(2) m by (simp add: word_le_nat_alt)
  let ?c = "((n - 0xE0) * 64 + m) * 64 + l"
  have c: "0x800 \<le> ?c" "?c < 0x10000" using r(1,2) m l lo by (cases "n = 0xE0"; simp)+
  have p: "?c div 4096 = n - 0xE0" "?c div 64 mod 64 = m" "?c mod 64 = l"
    by (simp_all only: div_digits64 digit64 m(1) l(1))
  have "utf8_encode ?c = b # take 2 bs"
    unfolding utf8_encode_def p using c r(1) m l bs b by simp
  moreover have "scalar ?c"
  proof -
    consider "n < 0xED" | "n = 0xED" | "0xED < n" by linarith
    then have "?c < 0xD800 \<or> 0xE000 \<le> ?c" using hi r(1) m(1) l(1) by cases auto
    then show ?thesis using c by (auto simp: scalar_def)
  qed
  ultimately show ?thesis by blast
qed

lemma utf8_four:
  assumes f: "utf8_first b = Some (3, lo, hi)" and t: "utf8_tail_ok (3, lo, hi) bs"
  shows "\<exists>c. scalar c \<and> utf8_encode c = b # take 3 bs"
proof -
  define n where "n = unat b"
  have b: "b = byte_of n" by (simp add: n_def)
  from t obtain d e g ds where bs: "bs = d # e # g # ds"
    by (cases bs; cases "tl bs"; cases "tl (tl bs)") (auto simp: utf8_tail_ok_def)
  have r: "0xF0 \<le> n" "n \<le> 0xF4" "n = 0xF0 \<Longrightarrow> lo = 0x90" "n = 0xF4 \<Longrightarrow> hi = 0x8F" "0x80 \<le> lo" "hi \<le> 0xBF"
    using f by (auto simp: utf8_first_nat Let_def n_def split: if_splits)
  have de: "lo \<le> d" "d \<le> hi" "utf8_cont e" "utf8_cont g" using t bs by (auto simp: utf8_tail_ok_def)
  then have "utf8_cont d" using r by (auto simp: utf8_cont_def)
  then obtain m where m: "m < 64" "d = byte_of (0x80 + m)" using utf8_cont_digit by blast
  obtain l where l: "l < 64" "e = byte_of (0x80 + l)" using utf8_cont_digit de(3) by blast
  obtain q where q: "q < 64" "g = byte_of (0x80 + q)" using utf8_cont_digit de(4) by blast
  have lo: "n = 0xF0 \<Longrightarrow> 16 \<le> m" using r(3) de(1) m by (simp add: word_le_nat_alt)
  have hi: "n = 0xF4 \<Longrightarrow> m < 16" using r(4) de(2) m by (simp add: word_le_nat_alt)
  let ?c = "(((n - 0xF0) * 64 + m) * 64 + l) * 64 + q"
  have c: "0x10000 \<le> ?c" "?c < 0x110000" using r(1,2) m l q lo hi by (cases "n = 0xF0"; cases "n = 0xF4"; simp)+
  have p: "?c div 262144 = n - 0xF0" "?c div 4096 mod 64 = m" "?c div 64 mod 64 = l" "?c mod 64 = q"
    by (simp_all only: div_digits64 digit64 m(1) l(1) q(1))
  have "utf8_encode ?c = b # take 3 bs"
    unfolding utf8_encode_def p using c r(1) m l q bs b by simp
  moreover have "scalar ?c" using c by (simp add: scalar_def)
  ultimately show ?thesis by blast
qed

lemma utf8_first_encodes:
  assumes f: "utf8_first b = Some (k, lo, hi)" and t: "utf8_tail_ok (k, lo, hi) bs"
  shows "\<exists>c. scalar c \<and> utf8_encode c = b # take k bs"
proof -
  have "k = 1 \<or> k = 2 \<or> k = 3" using f by (auto simp: utf8_first_nat Let_def split: if_splits)
  then show ?thesis using assms utf8_two utf8_three utf8_four by blast
qed

lemma utf8_valid_encoded:
  "utf8_valid bs \<Longrightarrow> \<exists>cs. list_all scalar cs \<and> bs = concat (map utf8_encode cs)"
proof (induction bs rule: utf8_valid.induct)
  case 1
  show ?case by (intro exI [of _ "[]"]) simp
next
  case (2 b bs)
  show ?case
  proof (cases "b < 0x80")
    case True
    with 2 obtain cs where cs: "list_all scalar cs" "bs = concat (map utf8_encode cs)" by auto
    have "scalar (unat b)" "utf8_encode (unat b) = [b]"
      using True by (auto simp: scalar_def utf8_encode_def word_less_nat_alt)
    with cs show ?thesis by (intro exI [of _ "unat b # cs"]) simp
  next
    case False
    with 2 obtain k lo hi where r: "utf8_first b = Some (k, lo, hi)" "utf8_tail_ok (k, lo, hi) bs"
      and v: "utf8_valid (drop k bs)"
      by (auto split: option.splits)
    from "2.IH"(2) [OF False r(1)] v
    obtain cs where cs: "list_all scalar cs" "drop k bs = concat (map utf8_encode cs)" by auto
    from utf8_first_encodes [OF r] obtain c where "scalar c" "utf8_encode c = b # take k bs" by blast
    with cs show ?thesis
      by (intro exI [of _ "c # cs"]) (simp flip: cs(2))
  qed
qed

theorem utf8_valid_iff:
  "utf8_valid bs \<longleftrightarrow> (\<exists>cs. list_all scalar cs \<and> bs = concat (map utf8_encode cs))"
proof
  assume "\<exists>cs. list_all scalar cs \<and> bs = concat (map utf8_encode cs)"
  then obtain cs where "list_all scalar cs" and "bs = concat (map utf8_encode cs)" by blast
  then show "utf8_valid bs"
    by (induction cs arbitrary: bs) (auto simp: utf8_valid_encode)
qed (rule utf8_valid_encoded)

end
