(* ===== verification/Cbor_Core.thy ===== *)
theory Cbor_Core
  imports Utf8
begin

text \<open>
  The low-level CBOR encoder and decoder of \<^verbatim>\<open>src/cbor/cbor.go\<close>. An \<open>encoder\<close> is its
  output buffer, a \<open>decoder\<close> is the input with a cursor. Every method is a function on that
  state; a fallible one is an \<open>op\<close>, which returns the state it leaves behind on the error
  branches too (\<^verbatim>\<open>decodeHeader\<close> advances the cursor before it fails). An error value is the
  sentinel that the Go error wraps; the formatted message is not modelled.
\<close>

section \<open>Constants and errors\<close>

definition majorUint :: byte where [go_consts]: "majorUint = 0"
definition majorNint :: byte where [go_consts]: "majorNint = 1"
definition majorBytes :: byte where [go_consts]: "majorBytes = 2"
definition majorText :: byte where [go_consts]: "majorText = 3"
definition majorArray :: byte where [go_consts]: "majorArray = 4"
definition majorMap :: byte where [go_consts]: "majorMap = 5"
definition majorSimple :: byte where [go_consts]: "majorSimple = 7"

definition infoUint8 :: byte where [go_consts]: "infoUint8 = 24"
definition infoUint16 :: byte where [go_consts]: "infoUint16 = 25"
definition infoUint32 :: byte where [go_consts]: "infoUint32 = 26"
definition infoUint64 :: byte where [go_consts]: "infoUint64 = 27"

definition simpleFalse :: byte where [go_consts]: "simpleFalse = 20"
definition simpleTrue :: byte where [go_consts]: "simpleTrue = 21"
definition simpleNull :: byte where [go_consts]: "simpleNull = 22"

definition maxDepth :: nat where [go_consts]: "maxDepth = 32"

datatype cbor_error =
    ErrInvalidMajorType
  | ErrInvalidAdditionalInfo
  | ErrUnexpectedEOF
  | ErrNonCanonical
  | ErrInvalidUTF8
  | ErrTrailingBytes
  | ErrUnexpectedItemCount
  | ErrUnsupportedType
  | ErrIntegerOverflow
  | ErrDuplicateMapKey
  | ErrInvalidMapKeyOrder
  | ErrUnexpectedNil
  | ErrUnexpectedNull
  | ErrMaxDepthExceeded
  | ErrCustom nat \<comment> \<open>an error value made by a user-supplied Marshaler or Unmarshaler\<close>

section \<open>Encoder\<close>

record encoder =
  buf :: bytes

definition NewEncoder :: encoder where
  "NewEncoder = \<lparr>buf = []\<rparr>"

definition Encoder_Bytes :: "encoder \<Rightarrow> bytes" where
  [simp]: "Encoder_Bytes e = buf e"

definition append_buf :: "bytes \<Rightarrow> encoder \<Rightarrow> encoder" where
  "append_buf bs e = e\<lparr>buf := buf e @ bs\<rparr>"

text \<open>The initial byte \<^verbatim>\<open>majorType<<5|info\<close>.\<close>

definition head_byte :: "byte \<Rightarrow> byte \<Rightarrow> byte" where
  "head_byte major info = push_bit 5 major OR info"

definition encodeLength :: "byte \<Rightarrow> u64 \<Rightarrow> encoder \<Rightarrow> encoder" where
  "encodeLength majorType len e =
     (if len < 24 then append_buf [head_byte majorType (ucast len)] e
      else if len \<le> 0xFF then append_buf [head_byte majorType infoUint8, ucast len] e
      else if len \<le> 0xFFFF then
        append_buf (be_bytes 2 (unat len)) (append_buf [head_byte majorType infoUint16] e)
      else if len \<le> 0xFFFFFFFF then
        append_buf (be_bytes 4 (unat len)) (append_buf [head_byte majorType infoUint32] e)
      else
        append_buf (be_bytes 8 (unat len)) (append_buf [head_byte majorType infoUint64] e))"

definition EncodeUint :: "u64 \<Rightarrow> encoder \<Rightarrow> encoder" where
  "EncodeUint value = encodeLength majorUint value"

definition EncodeInt :: "i64 \<Rightarrow> encoder \<Rightarrow> encoder" where
  "EncodeInt value =
     (if 0 \<le>s value then encodeLength majorUint value
      else encodeLength majorNint (-1 - value))"

definition EncodeBytes :: "bytes \<Rightarrow> encoder \<Rightarrow> encoder" where
  "EncodeBytes value e = append_buf value (encodeLength majorBytes (of_nat (length value)) e)"

definition EncodeText :: "bytes \<Rightarrow> (encoder, cbor_error, unit) op" where
  "EncodeText value e =
     (if \<not> utf8_valid value then fail ErrInvalidUTF8 e
      else ret () (append_buf value (encodeLength majorText (of_nat (length value)) e)))"

definition EncodeArrayHeader :: "int \<Rightarrow> encoder \<Rightarrow> encoder" where
  "EncodeArrayHeader len = encodeLength majorArray (of_int len)"

definition EncodeMapHeader :: "int \<Rightarrow> encoder \<Rightarrow> encoder" where
  "EncodeMapHeader len = encodeLength majorMap (of_int len)"

definition EncodeBool :: "bool \<Rightarrow> encoder \<Rightarrow> encoder" where
  "EncodeBool value =
     append_buf [if value then head_byte majorSimple simpleTrue else head_byte majorSimple simpleFalse]"

definition EncodeNull :: "encoder \<Rightarrow> encoder" where
  "EncodeNull = append_buf [head_byte majorSimple simpleNull]"

text \<open>A method that cannot fail, used where an operation with an error result is expected.\<close>

definition emit :: "(encoder \<Rightarrow> encoder) \<Rightarrow> (encoder, cbor_error, unit) op" where
  "emit f e = (Inr (), f e)"

section \<open>Decoder\<close>

record decoder =
  data :: bytes
  pos :: nat

definition NewDecoder :: "bytes \<Rightarrow> decoder" where
  "NewDecoder bs = \<lparr>data = bs, pos = 0\<rparr>"

definition Finish :: "decoder \<Rightarrow> cbor_error + unit" where
  "Finish d = (if pos d \<noteq> length (data d) then Inl ErrTrailingBytes else Inr ())"

text \<open>
  \<^verbatim>\<open>readBytes\<close>: the comparison with \<^verbatim>\<open>maxInt\<close> keeps the conversion \<^verbatim>\<open>int(n)\<close> from
  wrapping; the length of the rest of the buffer is an \<^verbatim>\<open>int\<close>.
\<close>

definition readBytes :: "u64 \<Rightarrow> (decoder, cbor_error, bytes) op" where
  "readBytes n d =
     (if n > 0x7FFFFFFFFFFFFFFF then fail ErrUnexpectedEOF d
      else if int (unat n) > int (length (data d)) - int (pos d) then fail ErrUnexpectedEOF d
      else ret (take (unat n) (drop (pos d) (data d))) (d\<lparr>pos := pos d + unat n\<rparr>))"

text \<open>The integer that follows the initial byte, by its additional information.\<close>

definition header_value :: "byte \<Rightarrow> (decoder, cbor_error, u64) op" where
  "header_value info =
     (if info \<le> 23 then ret (ucast info)
      else if info = infoUint8 then andThen (readBytes 1) (\<lambda>bs. ret (of_nat (be_val bs)))
      else if info = infoUint16 then andThen (readBytes 2) (\<lambda>bs. ret (of_nat (be_val bs)))
      else if info = infoUint32 then andThen (readBytes 4) (\<lambda>bs. ret (of_nat (be_val bs)))
      else if info = infoUint64 then andThen (readBytes 8) (\<lambda>bs. ret (of_nat (be_val bs)))
      else fail ErrInvalidAdditionalInfo)"

definition header_canonical :: "byte \<Rightarrow> u64 \<Rightarrow> bool" where
  "header_canonical info value =
     (if info \<le> 23 then value < 24
      else if info = infoUint8 then 24 \<le> value \<and> value \<le> 0xFF
      else if info = infoUint16 then 0xFF < value \<and> value \<le> 0xFFFF
      else if info = infoUint32 then 0xFFFF < value \<and> value \<le> 0xFFFFFFFF
      else if info = infoUint64 then 0xFFFFFFFF < value
      else False)"

definition decodeHeader :: "(decoder, cbor_error, byte \<times> u64) op" where
  "decodeHeader d =
     (if pos d \<ge> length (data d) then fail ErrUnexpectedEOF d
      else
        let b = data d ! pos d; major = drop_bit 5 b; info = b AND 0x1F
        in andThen (header_value info)
             (\<lambda>value. if header_canonical info value then ret (major, value) else fail ErrNonCanonical)
             (d\<lparr>pos := pos d + 1\<rparr>))"

definition DecodeUint :: "(decoder, cbor_error, u64) op" where
  "DecodeUint = andThen decodeHeader (\<lambda>(major, value).
     if major \<noteq> majorUint then fail ErrInvalidMajorType else ret value)"

definition DecodeInt :: "(decoder, cbor_error, i64) op" where
  "DecodeInt = andThen decodeHeader (\<lambda>(major, value).
     if major = majorUint then
       (if value > 0x7FFFFFFFFFFFFFFF then fail ErrIntegerOverflow else ret value)
     else if major = majorNint then
       (if value > 0x7FFFFFFFFFFFFFFF then fail ErrIntegerOverflow else ret (-1 - value))
     else fail ErrInvalidMajorType)"

definition DecodeBytes :: "(decoder, cbor_error, bytes) op" where
  "DecodeBytes = andThen decodeHeader (\<lambda>(major, len).
     if major \<noteq> majorBytes then fail ErrInvalidMajorType else readBytes len)"

text \<open>
  \<^verbatim>\<open>int(length) != n\<close> compares the 64-bit pattern of the length, read as a signed number,
  with the requested size.
\<close>

definition DecodeBytesFixed :: "int \<Rightarrow> (decoder, cbor_error, bytes) op" where
  "DecodeBytesFixed n = andThen decodeHeader (\<lambda>(major, len).
     if major \<noteq> majorBytes then fail ErrInvalidMajorType
     else if sint len \<noteq> n then fail ErrUnexpectedItemCount
     else readBytes len)"

definition DecodeText :: "(decoder, cbor_error, bytes) op" where
  "DecodeText = andThen decodeHeader (\<lambda>(major, len).
     if major \<noteq> majorText then fail ErrInvalidMajorType
     else andThen (readBytes len) (\<lambda>bs. if \<not> utf8_valid bs then fail ErrInvalidUTF8 else ret bs))"

definition DecodeArrayHeader :: "(decoder, cbor_error, u64) op" where
  "DecodeArrayHeader = andThen decodeHeader (\<lambda>(major, len).
     if major \<noteq> majorArray then fail ErrInvalidMajorType else ret len)"

definition DecodeMapHeader :: "(decoder, cbor_error, u64) op" where
  "DecodeMapHeader = andThen decodeHeader (\<lambda>(major, len).
     if major \<noteq> majorMap then fail ErrInvalidMajorType else ret len)"

definition DecodeBool :: "(decoder, cbor_error, bool) op" where
  "DecodeBool d =
     (if pos d \<ge> length (data d) then fail ErrUnexpectedEOF d
      else
        let b = data d ! pos d
        in if b = head_byte majorSimple simpleFalse then ret False (d\<lparr>pos := pos d + 1\<rparr>)
           else if b = head_byte majorSimple simpleTrue then ret True (d\<lparr>pos := pos d + 1\<rparr>)
           else fail ErrInvalidMajorType d)"

definition DecodeNull :: "(decoder, cbor_error, unit) op" where
  "DecodeNull d =
     (if pos d \<ge> length (data d) then fail ErrUnexpectedEOF d
      else if data d ! pos d \<noteq> head_byte majorSimple simpleNull then fail ErrInvalidMajorType d
      else ret () (d\<lparr>pos := pos d + 1\<rparr>))"

definition PeekNull :: "decoder \<Rightarrow> bool" where
  "PeekNull d \<longleftrightarrow> pos d < length (data d) \<and> data d ! pos d = head_byte majorSimple simpleNull"

end
