(* ===== verification/Cbor_Codec.thy ===== *)
theory Cbor_Codec
  imports Cbor_Core
begin

text \<open>
  Correctness of the low-level encoder and decoder. A decoder whose cursor stands between
  \<open>pre\<close> and \<open>s\<close> is \<open>at_pos pre s\<close>; every decoder method is characterised by what it does to
  that split. The contract every pair of methods \<^verbatim>\<open>EncodeX\<close>/\<^verbatim>\<open>DecodeX\<close> keeps is the locale
  \<open>wire_codec\<close>: decoding inverts encoding in front of any continuation, and only the
  canonical encoding of a value is accepted. The locale is interpreted on each pair.
\<close>

section \<open>Cursor positions\<close>

definition at_pos :: "bytes \<Rightarrow> bytes \<Rightarrow> decoder" where
  "at_pos pre s = \<lparr>data = pre @ s, pos = length pre\<rparr>"

lemma at_pos_simps [simp]:
  "data (at_pos pre s) = pre @ s"
  "pos (at_pos pre s) = length pre"
  by (simp_all add: at_pos_def)

lemma NewDecoder_at_pos: "NewDecoder bs = at_pos [] bs"
  by (simp add: NewDecoder_def at_pos_def)

lemma at_pos_eq: "at_pos p s = at_pos p' s' \<longleftrightarrow> p = p' \<and> s = s'"
  by (auto simp: at_pos_def)

lemma at_pos_advance:
  "(at_pos pre (bs @ s))\<lparr>pos := length pre + length bs\<rparr> = at_pos (pre @ bs) s"
  by (simp add: at_pos_def)

lemma at_pos_advance1:
  "(at_pos pre (b # s))\<lparr>pos := Suc (length pre)\<rparr> = at_pos (pre @ [b]) s"
  by (simp add: at_pos_def)

lemma decoder_at_pos:
  "pos d \<le> length (data d) \<Longrightarrow> d = at_pos (take (pos d) (data d)) (drop (pos d) (data d))"
  by (simp add: at_pos_def)

lemma Finish_at_pos [simp]: "Finish (at_pos pre s) = (if s = [] then Inr () else Inl ErrTrailingBytes)"
  by (simp add: Finish_def)

lemma append_buf_simps [simp]:
  "append_buf [] e = e"
  "append_buf ys (append_buf xs e) = append_buf (xs @ ys) e"
  "buf (append_buf xs e) = buf e @ xs"
  by (simp_all add: append_buf_def)

lemma buf_NewEncoder [simp]: "buf NewEncoder = []"
  by (simp add: NewEncoder_def)

lemma append_buf_inject [simp]: "append_buf xs e = append_buf ys e \<longleftrightarrow> xs = ys"
  by (metis append_buf_simps(3) same_append_eq)

section \<open>The initial byte\<close>

lemma low5_bits: "(i :: byte) < 32 \<Longrightarrow> 5 \<le> n \<Longrightarrow> \<not> bit i n"
proof
  assume i: "i < 32" and n: "5 \<le> n" and b: "bit i n"
  have "unat i < 32" using i by (simp add: word_less_nat_alt)
  also have "(32 :: nat) \<le> 2 ^ n" using power_increasing [OF n, of "2 :: nat"] by simp
  finally have "unat i div 2 ^ n = 0" by simp
  moreover have "bit (unat i) n" using b by (simp add: bit_unsigned_iff)
  ultimately show False by (simp add: bit_iff_odd)
qed

lemma low3_bits: "(i :: byte) < 8 \<Longrightarrow> 3 \<le> n \<Longrightarrow> \<not> bit i n"
proof
  assume i: "i < 8" and n: "3 \<le> n" and b: "bit i n"
  have "unat i < 8" using i by (simp add: word_less_nat_alt)
  also have "(8 :: nat) \<le> 2 ^ n" using power_increasing [OF n, of "2 :: nat"] by simp
  finally have "unat i div 2 ^ n = 0" by simp
  moreover have "bit (unat i) n" using b by (simp add: bit_unsigned_iff)
  ultimately show False by (simp add: bit_iff_odd)
qed

lemma mask5: "(0x1F :: byte) = mask 5"
  by (simp add: mask_eq_exp_minus_1)

lemma head_byte_major [simp]: "m < 8 \<Longrightarrow> i < 32 \<Longrightarrow> drop_bit 5 (head_byte m i) = m"
  by (rule bit_word_eqI)
    (auto simp: head_byte_def bit_simps low5_bits, meson low3_bits not_less)

lemma head_byte_info [simp]: "i < 32 \<Longrightarrow> head_byte m i AND 0x1F = i"
  unfolding mask5
  by (rule bit_word_eqI) (auto simp: head_byte_def bit_simps not_less dest: low5_bits)

lemma head_byte_split: "head_byte (drop_bit 5 b) (b AND 0x1F) = b"
  unfolding mask5
  by (rule bit_word_eqI) (auto simp: head_byte_def bit_simps)

lemma major_less [simp]: "drop_bit 5 (b :: byte) < 8"
proof -
  have "unat b < 256" by simp
  moreover have "unat (drop_bit 5 b) = unat b div 32"
    by (simp only: unat_drop_bit_eq) (simp add: drop_bit_eq_div)
  ultimately have "unat (drop_bit 5 b) < 8" by linarith
  then show ?thesis by (simp add: word_less_nat_alt)
qed

lemma info_less [simp]: "(b :: byte) AND 0x1F < 32"
  using word_and_le1 [of b "0x1F"] by (simp add: word_le_nat_alt word_less_nat_alt)

section \<open>Headers\<close>

text \<open>The bytes of the canonical header of major type \<open>m\<close> and argument \<open>v\<close>.\<close>

definition enc_head :: "byte \<Rightarrow> u64 \<Rightarrow> bytes" where
  "enc_head m v = buf (encodeLength m v NewEncoder)"

lemma encodeLength_enc_head: "encodeLength m v e = append_buf (enc_head m v) e"
  by (simp add: enc_head_def encodeLength_def append_buf_def NewEncoder_def)

lemma enc_head_eq:
  "enc_head m v =
     (if v < 24 then [head_byte m (ucast v)]
      else if v \<le> 0xFF then head_byte m 24 # be_bytes 1 (unat v)
      else if v \<le> 0xFFFF then head_byte m 25 # be_bytes 2 (unat v)
      else if v \<le> 0xFFFFFFFF then head_byte m 26 # be_bytes 4 (unat v)
      else head_byte m 27 # be_bytes 8 (unat v))"
  by (simp add: enc_head_def encodeLength_def append_buf_def NewEncoder_def go_consts unsigned_ucast_eq)

lemma enc_head_nonempty [simp]: "enc_head m v \<noteq> []"
  by (simp add: enc_head_eq)

lemma readBytes_at_pos:
  "readBytes n (at_pos pre s) =
     (if unat n > max_int \<or> unat n > length s then (Inl ErrUnexpectedEOF, at_pos pre s)
      else (Inr (take (unat n) s), at_pos (pre @ take (unat n) s) (drop (unat n) s)))"
  by (auto simp: readBytes_def at_pos_def max_int_def word_less_nat_alt simp del: of_nat_unat)

lemma readBytes_append:
  "unat n = length bs \<Longrightarrow> length bs \<le> max_int \<Longrightarrow>
   readBytes n (at_pos pre (bs @ s)) = (Inr bs, at_pos (pre @ bs) s)"
  by (simp add: readBytes_at_pos)

lemma readBytes_Inr_iff:
  "readBytes n (at_pos pre s) = (Inr bs, d) \<longleftrightarrow>
   unat n = length bs \<and> length bs \<le> max_int \<and> (\<exists>s'. s = bs @ s' \<and> d = at_pos (pre @ bs) s')"
proof
  assume "readBytes n (at_pos pre s) = (Inr bs, d)"
  then have "unat n \<le> max_int" "unat n \<le> length s" "bs = take (unat n) s"
      "d = at_pos (pre @ take (unat n) s) (drop (unat n) s)"
    by (auto simp: readBytes_at_pos split: if_splits)
  then show "unat n = length bs \<and> length bs \<le> max_int \<and> (\<exists>s'. s = bs @ s' \<and> d = at_pos (pre @ bs) s')"
    by (intro conjI exI [of _ "drop (unat n) s"]) auto
qed (auto simp: readBytes_append)

lemma unat_of_be_val: "length bs \<le> 8 \<Longrightarrow> unat (of_nat (be_val bs) :: u64) = be_val bs"
proof -
  assume "length bs \<le> 8"
  have "be_val bs < 256 ^ length bs" by (rule be_val_less)
  also have "\<dots> \<le> 256 ^ 8" using \<open>length bs \<le> 8\<close> by (intro power_increasing) auto
  finally show ?thesis by (simp add: unat_of_nat)
qed

lemma unat_u64_less: "unat (v :: u64) < 256 ^ 8"
  using unsigned_less [of v] by simp

lemma small_ucast [simp]: "(v :: u64) < 24 \<Longrightarrow> unat (ucast v :: byte) = unat v"
  by (simp add: unsigned_ucast_eq unsigned_take_bit_eq word_less_nat_alt take_bit_nat_eq_self)

lemma decodeHeader_step:
  "decodeHeader (at_pos pre (b # s)) =
     andThen (header_value (b AND 0x1F))
       (\<lambda>v. if header_canonical (b AND 0x1F) v then ret (drop_bit 5 b, v) else fail ErrNonCanonical)
       (at_pos (pre @ [b]) s)"
  by (simp add: decodeHeader_def at_pos_advance1 Let_def)

lemma decodeHeader_Nil [simp]: "decodeHeader (at_pos pre []) = (Inl ErrUnexpectedEOF, at_pos pre [])"
  by (simp add: decodeHeader_def)

lemma header_value_read:
  assumes "(info, n) \<in> {(24, 1), (25, 2), (26, 4), (27, 8)}" and "length bs = n"
  shows "header_value info (at_pos pre (bs @ s)) = (Inr (of_nat (be_val bs)), at_pos (pre @ bs) s)"
  using assms by (auto simp: header_value_def go_consts readBytes_append)

lemma decodeHeader_enc_head [simp]:
  assumes m: "m < 8"
  shows "decodeHeader (at_pos pre (enc_head m v @ s)) = (Inr (m, v), at_pos (pre @ enc_head m v) s)"
proof -
  have long: "decodeHeader (at_pos pre (head_byte m info # be_bytes n (unat v) @ s)) =
      (Inr (m, v), at_pos (pre @ head_byte m info # be_bytes n (unat v)) s)"
    if i: "(info, n) \<in> {(24, 1), (25, 2), (26, 4), (27, 8)}"
      and c: "header_canonical info v" and l: "unat v < 256 ^ n" for info n
  proof -
    have "header_value info (at_pos (pre @ [head_byte m info]) (be_bytes n (unat v) @ s)) =
        (Inr v, at_pos (pre @ head_byte m info # be_bytes n (unat v)) s)"
      using header_value_read [OF i, of "be_bytes n (unat v)"] l by simp
    moreover have "info < 32" using i by auto
    ultimately show ?thesis using m c by (simp add: decodeHeader_step)
  qed
  consider "v < 24" | "24 \<le> v" "v \<le> 0xFF" | "0xFF < v" "v \<le> 0xFFFF"
    | "0xFFFF < v" "v \<le> 0xFFFFFFFF" | "0xFFFFFFFF < v"
    by force
  then show ?thesis
  proof cases
    case 1
    have u: "unat (ucast v :: byte) = unat v" using 1 by simp
    have "(ucast v :: byte) < 32" "(ucast v :: byte) \<le> 23"
      using 1 by (simp_all add: word_less_nat_alt word_le_nat_alt u)
    moreover have "ucast (ucast v :: byte) = v" 
      using 1 by (simp add: word_unat_eq_iff unsigned_ucast_eq unsigned_take_bit_eq
          word_less_nat_alt take_bit_nat_eq_self)
    ultimately show ?thesis
      using 1 m by (simp add: enc_head_eq decodeHeader_step header_value_def header_canonical_def)
  next
    case 2
    then show ?thesis using long [of 24 1]
      by (auto simp: enc_head_eq header_canonical_def go_consts word_le_nat_alt word_less_nat_alt)
  next
    case 3
    then show ?thesis using long [of 25 2]
      by (auto simp: enc_head_eq header_canonical_def go_consts word_le_nat_alt word_less_nat_alt)
  next
    case 4
    then show ?thesis using long [of 26 4]
      by (auto simp: enc_head_eq header_canonical_def go_consts word_le_nat_alt word_less_nat_alt)
  next
    case 5
    then show ?thesis using long [of 27 8] unat_u64_less [of v]
      by (auto simp: enc_head_eq header_canonical_def go_consts word_le_nat_alt word_less_nat_alt)
  qed
qed

lemma header_value_Inr:
  assumes "header_value info (at_pos p t) = (Inr v, d)"
  shows "info \<le> 23 \<and> v = ucast info \<and> d = at_pos p t \<or>
    (\<exists>n bs t'. (info, n) \<in> {(24, 1), (25, 2), (26, 4), (27, 8)} \<and> length bs = n \<and>
       t = bs @ t' \<and> v = of_nat (be_val bs) \<and> d = at_pos (p @ bs) t')"
  using assms
  by (auto simp: header_value_def go_consts andThen_eq_Inr readBytes_Inr_iff split: if_splits)

lemma header_value_len:
  assumes "(info, n) \<in> {(24, 1), (25, 2), (26, 4), (27, 8)}" and "length bs = n"
  shows "unat (of_nat (be_val bs) :: u64) = be_val bs"
  using assms by (auto intro: unat_of_be_val)

lemma enc_head_of_header:
  assumes i: "(info, n) \<in> {(24, 1), (25, 2), (26, 4), (27, 8 :: nat)}" and l: "length bs = n"
    and c: "header_canonical info (of_nat (be_val bs))"
  shows "enc_head m (of_nat (be_val bs)) = head_byte m info # bs"
proof -
  define v :: u64 where "v = of_nat (be_val bs)"
  have u: "unat v = be_val bs" unfolding v_def by (rule header_value_len [OF i l])
  then have b: "be_bytes n (unat v) = bs" using l by auto
  have "header_canonical info v" using c by (simp add: v_def)
  then have "enc_head m v = head_byte m info # be_bytes n (unat v)"
    using i by (auto simp: enc_head_eq header_canonical_def go_consts word_le_nat_alt word_less_nat_alt)
  with b show ?thesis by (simp add: v_def)
qed

lemma decodeHeader_Inr_iff:
  "decodeHeader (at_pos pre s) = (Inr (m, v), d) \<longleftrightarrow>
   m < 8 \<and> (\<exists>s'. s = enc_head m v @ s' \<and> d = at_pos (pre @ enc_head m v) s')"
proof
  assume a: "decodeHeader (at_pos pre s) = (Inr (m, v), d)"
  then obtain b t where s: "s = b # t" by (cases s) auto
  let ?i = "b AND 0x1F"
  from a have h: "header_value ?i (at_pos (pre @ [b]) t) = (Inr v, d)"
    and c: "header_canonical ?i v" and m: "m = drop_bit 5 b"
    by (auto simp: s decodeHeader_step andThen_eq_Inr split: if_splits)
  have b: "head_byte m ?i = b" unfolding m by (rule head_byte_split)
  from header_value_Inr [OF h] show "m < 8 \<and> (\<exists>s'. s = enc_head m v @ s' \<and> d = at_pos (pre @ enc_head m v) s')"
  proof
    assume small: "?i \<le> 23 \<and> v = ucast ?i \<and> d = at_pos (pre @ [b]) t"
    have "v < 24" using small c by (simp add: header_canonical_def)
    moreover have "ucast v = ?i" using small by (simp add: ucast_up_ucast_id is_up)
    ultimately have "enc_head m v = [b]" using b by (simp add: enc_head_eq)
    with small show ?thesis by (auto simp: s m)
  next
    assume "\<exists>n bs t'. (?i, n) \<in> {(24, 1), (25, 2), (26, 4), (27, 8)} \<and> length bs = n \<and>
       t = bs @ t' \<and> v = of_nat (be_val bs) \<and> d = at_pos ((pre @ [b]) @ bs) t'"
    then obtain n bs t' where i: "(?i, n) \<in> {(24, 1), (25, 2), (26, 4), (27, 8)}" and l: "length bs = n"
      and t: "t = bs @ t'" and v: "v = of_nat (be_val bs)" and d: "d = at_pos ((pre @ [b]) @ bs) t'"
      by blast
    have "enc_head m v = b # bs"
      using enc_head_of_header [OF i l] c b by (simp add: v)
    with t d show ?thesis by (simp add: s m)
  qed
qed auto

lemma enc_head_inject:
  assumes "m < 8" and "m' < 8" and "enc_head m v @ s = enc_head m' v' @ s'"
  shows "m = m' \<and> v = v' \<and> s = s'"
proof -
  have "(Inr (m, v), at_pos ([] @ enc_head m v) s) = decodeHeader (at_pos [] (enc_head m v @ s))"
    using assms(1) by simp
  also have "\<dots> = (Inr (m', v'), at_pos ([] @ enc_head m' v') s')"
    using assms(2) by (simp add: assms(3))
  finally show ?thesis by (simp add: at_pos_eq)
qed

lemma major_consts_less [simp]:
  "majorUint < 8" "majorNint < 8" "majorBytes < 8" "majorText < 8" "majorArray < 8" "majorMap < 8"
  "majorSimple < 8"
  by (simp_all add: go_consts)

section \<open>Local operations\<close>

text \<open>
  \<open>reads f w x\<close>: in front of any continuation, \<open>f\<close> consumes exactly \<open>w\<close> and returns \<open>x\<close>.
\<close>

definition reads :: "(decoder, cbor_error, 'a) op \<Rightarrow> bytes \<Rightarrow> 'a \<Rightarrow> bool" where
  "reads f w x \<longleftrightarrow> (\<forall>pre s. f (at_pos pre (w @ s)) = (Inr x, at_pos (pre @ w) s))"

text \<open>Whatever \<open>f\<close> returns it has read from a prefix of its input, and only that matters.\<close>

definition local_op :: "(decoder, cbor_error, 'a) op \<Rightarrow> bool" where
  "local_op f \<longleftrightarrow> (\<forall>pre s x d. f (at_pos pre s) = (Inr x, d) \<longrightarrow>
     (\<exists>w s'. s = w @ s' \<and> d = at_pos (pre @ w) s' \<and> reads f w x))"

lemma readsD: "reads f w x \<Longrightarrow> f (at_pos pre (w @ s)) = (Inr x, at_pos (pre @ w) s)"
  by (simp add: reads_def)

lemma reads_andThen: "reads m w x \<Longrightarrow> reads (f x) v y \<Longrightarrow> reads (andThen m f) (w @ v) y"
  by (simp add: reads_def)

lemma reads_ret: "reads (ret x) [] x"
  by (simp add: reads_def)

lemma local_opE:
  assumes "local_op f" and "f (at_pos pre s) = (Inr x, d)"
  obtains w s' where "s = w @ s'" and "d = at_pos (pre @ w) s'" and "reads f w x"
  using assms unfolding local_op_def by blast

lemma local_opI:
  assumes "\<And>pre s x d. f (at_pos pre s) = (Inr x, d) \<Longrightarrow>
    \<exists>w s'. s = w @ s' \<and> d = at_pos (pre @ w) s' \<and> reads f w x"
  shows "local_op f"
  using assms unfolding local_op_def by blast

lemma local_ret [intro]: "local_op (ret x)"
proof (rule local_opI)
  fix pre s y d assume "ret x (at_pos pre s) = (Inr y, d)"
  then show "\<exists>w s'. s = w @ s' \<and> d = at_pos (pre @ w) s' \<and> reads (ret x) w y"
    using reads_ret [of x] by (intro exI [of _ "[]"] exI [of _ s]) simp
qed

lemma local_fail [intro]: "local_op (fail e)"
  by (rule local_opI) simp

lemma local_andThen [intro]:
  assumes "local_op m" and "\<And>x. local_op (f x)"
  shows "local_op (andThen m f)"
proof (rule local_opI)
  fix pre s y d
  assume "andThen m f (at_pos pre s) = (Inr y, d)"
  then obtain x d1 where m: "m (at_pos pre s) = (Inr x, d1)" and f: "f x d1 = (Inr y, d)"
    by (rule andThen_InrE)
  from m obtain w s1 where s: "s = w @ s1" and d1: "d1 = at_pos (pre @ w) s1" and rm: "reads m w x"
    by (rule local_opE [OF assms(1)])
  from f obtain v s2 where s1: "s1 = v @ s2" and d: "d = at_pos ((pre @ w) @ v) s2"
      and rf: "reads (f x) v y"
    unfolding d1 by (rule local_opE [OF assms(2)])
  have "reads (andThen m f) (w @ v) y" using rm rf by (rule reads_andThen)
  then show "\<exists>u s'. s = u @ s' \<and> d = at_pos (pre @ u) s' \<and> reads (andThen m f) u y"
    using s s1 d by (intro exI [of _ "w @ v"] exI [of _ s2]) simp
qed

lemma local_decodeHeader [intro]: "local_op decodeHeader"
proof (rule local_opI)
  fix pre s x d assume a: "decodeHeader (at_pos pre s) = (Inr x, d)"
  obtain m v where x: "x = (m, v)" by (cases x)
  from a obtain s' where "m < 8" "s = enc_head m v @ s'" "d = at_pos (pre @ enc_head m v) s'"
    by (auto simp: x decodeHeader_Inr_iff)
  then show "\<exists>w s'. s = w @ s' \<and> d = at_pos (pre @ w) s' \<and> reads decodeHeader w x"
    by (intro exI [of _ "enc_head m v"] exI [of _ s']) (simp add: x reads_def)
qed

lemma local_readBytes [intro]: "local_op (readBytes n)"
  by (rule local_opI) (auto simp: readBytes_Inr_iff reads_def)

section \<open>The contract of an encoder/decoder pair\<close>

text \<open>
  \<open>ok\<close> is the set of values the pair supports and \<open>wire x\<close> the bytes of \<open>x\<close>. Encoding
  appends exactly \<open>wire x\<close>, decoding reads it back in front of any continuation and leaves
  the cursor behind it, and a successful decoding has read \<open>wire x\<close> and nothing else.
\<close>

locale wire_codec =
  fixes enc :: "'a \<Rightarrow> (encoder, cbor_error, unit) op"
    and dec :: "(decoder, cbor_error, 'a) op"
    and ok :: "'a \<Rightarrow> bool"
    and wire :: "'a \<Rightarrow> bytes"
  assumes enc_wire: "ok x \<Longrightarrow> enc x e = (Inr (), append_buf (wire x) e)"
    and dec_wire: "ok x \<Longrightarrow> dec (at_pos pre (wire x @ s)) = (Inr x, at_pos (pre @ wire x) s)"
    and dec_only: "dec (at_pos pre s) = (Inr x, d) \<Longrightarrow>
      ok x \<and> (\<exists>s'. s = wire x @ s' \<and> d = at_pos (pre @ wire x) s')"
    and wire_nonempty: "ok x \<Longrightarrow> wire x \<noteq> []"
begin

lemma dec_iff:
  "dec (at_pos pre s) = (Inr x, d) \<longleftrightarrow> ok x \<and> (\<exists>s'. s = wire x @ s' \<and> d = at_pos (pre @ wire x) s')"
  using dec_wire dec_only by blast

text \<open>A value written after any prefix is read back, and the rest of the input is untouched.\<close>

lemma roundtrip:
  assumes "ok x" and "enc x e = (Inr (), e')"
  shows "dec (at_pos (buf e) (drop (length (buf e)) (buf e') @ s)) = (Inr x, at_pos (buf e') s)"
proof -
  have "buf e' = buf e @ wire x" using assms enc_wire by auto
  then show ?thesis using dec_wire [OF assms(1)] by simp
qed

lemma roundtrip_whole:
  assumes "ok x"
  shows "dec (NewDecoder (buf (snd (enc x NewEncoder)))) = (Inr x, at_pos (wire x) [])"
  using dec_wire [OF assms, of "[]" "[]"] by (simp add: enc_wire [OF assms] NewDecoder_at_pos)

text \<open>Whatever is accepted as a whole is the encoder's output for the decoded value.\<close>

lemma canonical_whole:
  assumes "dec (NewDecoder bs) = (Inr x, d)" and "Finish d = Inr ()"
  shows "enc x NewEncoder = (Inr (), append_buf bs NewEncoder)"
  using assms by (auto simp: NewDecoder_at_pos dec_iff enc_wire split: if_splits)

lemma wire_prefix_free:
  assumes "ok x" and "ok y" and "wire x @ s = wire y @ t"
  shows "x = y \<and> s = t"
proof -
  have "(Inr x, at_pos ([] @ wire x) s) = dec (at_pos [] (wire x @ s))"
    using dec_wire [OF assms(1)] by simp
  also have "\<dots> = (Inr y, at_pos ([] @ wire y) t)"
    using dec_wire [OF assms(2)] by (simp add: assms(3))
  finally show ?thesis by (simp add: at_pos_eq)
qed

text \<open>A sequence of encodings is parsed in one way only.\<close>

lemma wire_concat_inject:
  assumes "list_all ok xs" and "list_all ok ys" and "concat (map wire xs) = concat (map wire ys)"
  shows "xs = ys"
  using assms
proof (induction xs arbitrary: ys)
  case Nil
  then show ?case using wire_nonempty by (cases ys) auto
next
  case (Cons x xs)
  from Cons.prems wire_nonempty obtain y ys' where ys: "ys = y # ys'" by (cases ys) auto
  with Cons.prems wire_prefix_free [of x y "concat (map wire xs)" "concat (map wire ys')"]
  have "x = y" and "concat (map wire xs) = concat (map wire ys')" by auto
  with Cons ys show ?case by simp
qed

lemma dec_local: "local_op dec"
proof (rule local_opI)
  fix pre s x d assume "dec (at_pos pre s) = (Inr x, d)"
  from dec_only [OF this] obtain s' where "ok x" "s = wire x @ s'" "d = at_pos (pre @ wire x) s'" by blast
  then show "\<exists>w s'. s = w @ s' \<and> d = at_pos (pre @ w) s' \<and> reads dec w x"
    by (intro exI [of _ "wire x"] exI [of _ s']) (simp add: reads_def dec_wire)
qed

lemma dec_progress:
  assumes "dec (at_pos pre s) = (Inr x, d)"
  shows "length pre < pos d \<and> data d = pre @ s"
proof -
  from dec_only [OF assms] obtain s' where "ok x" "s = wire x @ s'" "d = at_pos (pre @ wire x) s'"
    by blast
  then show ?thesis using wire_nonempty [of x] by simp
qed

end

section \<open>Wire forms\<close>

lemma emit_app [simp]: "emit f e = (Inr (), f e)"
  by (simp add: emit_def)

definition wire_int :: "i64 \<Rightarrow> bytes" where
  "wire_int k = (if 0 \<le>s k then enc_head majorUint k else enc_head majorNint (-1 - k))"

definition wire_bytes :: "bytes \<Rightarrow> bytes" where
  "wire_bytes bs = enc_head majorBytes (of_nat (length bs)) @ bs"

definition wire_text :: "bytes \<Rightarrow> bytes" where
  "wire_text bs = enc_head majorText (of_nat (length bs)) @ bs"

definition wire_bool :: "bool \<Rightarrow> bytes" where
  "wire_bool b = [if b then head_byte majorSimple simpleTrue else head_byte majorSimple simpleFalse]"

definition wire_null :: bytes where
  "wire_null = [head_byte majorSimple simpleNull]"

text \<open>Go slices have a length that fits \<^verbatim>\<open>int\<close>.\<close>

definition go_slice :: "'a list \<Rightarrow> bool" where
  "go_slice bs \<longleftrightarrow> length bs \<le> max_int"

lemma unat_length_go [simp]: "go_slice bs \<Longrightarrow> unat (of_nat (length bs) :: u64) = length bs"
  by (simp add: go_slice_def max_int_def unat_of_nat)

lemma readBytes_go [simp]:
  "go_slice bs \<Longrightarrow>
   readBytes (of_nat (length bs)) (at_pos pre (bs @ s)) = (Inr bs, at_pos (pre @ bs) s)"
  by (rule readBytes_append) (simp_all add: go_slice_def [symmetric])

lemma sle_zero_iff: "0 \<le>s (v :: i64) \<longleftrightarrow> v \<le> 0x7FFFFFFFFFFFFFFF"
proof -
  have u: "0 \<le> uint v" "uint v < 2 ^ 64" using unsigned_less [of v] by simp_all
  have "0 \<le>s v \<longleftrightarrow> \<not> bit (uint v) 63"
    using signed_take_bit_negative_iff [of 63 "uint v"] by (simp add: word_sle_eq sint_uint not_less)
  also have "\<dots> \<longleftrightarrow> uint v < 2 ^ 63"
  proof (cases "uint v < 2 ^ 63")
    case True
    with u(1) have "uint v div 2 ^ 63 = 0" by (intro div_pos_pos_trivial) auto
    with True show ?thesis by (simp add: bit_iff_odd)
  next
    case False
    with u have "uint v div 2 ^ 63 = 1" by (intro div_pos_geq [THEN trans]) (auto simp: div_pos_pos_trivial)
    with False show ?thesis by (simp add: bit_iff_odd)
  qed
  also have "\<dots> \<longleftrightarrow> v \<le> 0x7FFFFFFFFFFFFFFF" by (auto simp: word_le_def)
  finally show ?thesis .
qed

lemma unat_neg_wire: "unat (-1 - v :: i64) = 2 ^ 64 - 1 - unat v"
  by (subst unat_sub) (auto simp: unsigned_minus_1_eq_mask mask_eq_exp_minus_1)

lemma neg_int_wire: "-1 - v \<le> 0x7FFFFFFFFFFFFFFF \<longleftrightarrow> \<not> 0 \<le>s (v :: i64)"
  using unsigned_less [of v]
  by (auto simp: sle_zero_iff word_le_nat_alt unat_neg_wire)

section \<open>Every encoder/decoder pair keeps the contract\<close>

interpretation uint_codec: wire_codec "\<lambda>v. emit (EncodeUint v)" DecodeUint "\<lambda>_. True" "enc_head majorUint"
proof (unfold_locales, goal_cases)
  case (3 pre s x d)
  then show ?case
    by (auto simp: DecodeUint_def andThen_eq_Inr decodeHeader_Inr_iff split: if_splits)
qed (auto simp: EncodeUint_def encodeLength_enc_head DecodeUint_def)

lemma wire_int_cases:
  obtains (pos) v where "wire_int k = enc_head majorUint v" "k = v" "v \<le> 0x7FFFFFFFFFFFFFFF"
  | (neg) v where "wire_int k = enc_head majorNint v" "k = -1 - v" "v \<le> 0x7FFFFFFFFFFFFFFF"
proof (cases "0 \<le>s k")
  case True
  then show ?thesis by (intro pos [of k]) (auto simp: wire_int_def sle_zero_iff)
next
  case False
  then show ?thesis by (intro neg [of "-1 - k"]) (auto simp: wire_int_def neg_int_wire)
qed

lemma wire_int_pos: "v \<le> 0x7FFFFFFFFFFFFFFF \<Longrightarrow> wire_int v = enc_head majorUint v"
  by (simp add: wire_int_def sle_zero_iff)

lemma wire_int_neg: "v \<le> 0x7FFFFFFFFFFFFFFF \<Longrightarrow> wire_int (-1 - v) = enc_head majorNint v"
  using neg_int_wire [of "-1 - v"] by (simp add: wire_int_def)

interpretation int_codec: wire_codec "\<lambda>v. emit (EncodeInt v)" DecodeInt "\<lambda>_. True" wire_int
proof (unfold_locales, goal_cases)
  case (1 x e)
  then show ?case by (simp add: EncodeInt_def wire_int_def encodeLength_enc_head)
next
  case (2 x pre s)
  show ?case
    by (cases x rule: wire_int_cases) (auto simp: DecodeInt_def go_consts)
next
  case (3 pre s x d)
  then obtain m v s' where s: "s = enc_head m v @ s'" and d: "d = at_pos (pre @ enc_head m v) s'"
    and v: "v \<le> 0x7FFFFFFFFFFFFFFF" and m: "m = majorUint \<and> x = v \<or> m = majorNint \<and> x = -1 - v"
    by (fastforce simp: DecodeInt_def andThen_eq_Inr decodeHeader_Inr_iff not_less split: if_splits)
  from m v have "wire_int x = enc_head m v" by (auto simp: wire_int_pos wire_int_neg)
  with s d show ?case by simp
next
  case (4 x)
  show ?case by (simp add: wire_int_def)
qed

interpretation bytes_codec: wire_codec "\<lambda>v. emit (EncodeBytes v)" DecodeBytes go_slice wire_bytes
proof (unfold_locales, goal_cases)
  case (1 x e)
  show ?case by (simp add: EncodeBytes_def wire_bytes_def encodeLength_enc_head)
next
  case (2 x pre s)
  then show ?case by (simp add: DecodeBytes_def wire_bytes_def readBytes_append go_slice_def [symmetric])
next
  case (3 pre s x d)
  then obtain l s' s'' where "s = enc_head majorBytes l @ s'" "unat l = length x" "length x \<le> max_int"
      "s' = x @ s''" "d = at_pos ((pre @ enc_head majorBytes l) @ x) s''"
    by (auto simp: DecodeBytes_def andThen_eq_Inr decodeHeader_Inr_iff readBytes_Inr_iff split: if_splits)
  then show ?case by (auto simp: wire_bytes_def go_slice_def simp flip: \<open>unat l = length x\<close>)
next
  case (4 x)
  show ?case by (simp add: wire_bytes_def)
qed

interpretation text_codec: wire_codec EncodeText DecodeText "\<lambda>x. go_slice x \<and> utf8_valid x" wire_text
proof (unfold_locales, goal_cases)
  case (1 x e)
  then show ?case by (simp add: EncodeText_def wire_text_def encodeLength_enc_head)
next
  case (2 x pre s)
  then show ?case by (simp add: DecodeText_def wire_text_def readBytes_append go_slice_def [symmetric])
next
  case (3 pre s x d)
  then obtain l s' s'' where "s = enc_head majorText l @ s'" "unat l = length x" "length x \<le> max_int"
      "s' = x @ s''" "d = at_pos ((pre @ enc_head majorText l) @ x) s''" "utf8_valid x"
    by (auto simp: DecodeText_def andThen_eq_Inr decodeHeader_Inr_iff readBytes_Inr_iff split: if_splits)
  then show ?case by (auto simp: wire_text_def go_slice_def simp flip: \<open>unat l = length x\<close>)
next
  case (4 x)
  show ?case by (simp add: wire_text_def)
qed

text \<open>\<^verbatim>\<open>int(length) == n\<close> for a size \<^verbatim>\<open>n\<close>: no 64-bit length other than \<open>n\<close> itself passes.\<close>

lemma sint_eq_nat: "sint (l :: u64) = int n \<longleftrightarrow> unat l = n \<and> n \<le> max_int"
proof (cases "l \<le> 0x7FFFFFFFFFFFFFFF")
  case True
  then have "uint l < 2 ^ 63" by (simp add: word_le_def)
  moreover have "- (2 ^ 63) \<le> uint l" by (rule order_trans [of _ 0]) simp_all
  ultimately have "sint l = uint l"
    using signed_take_bit_int_eq_self [of 63 "uint l"] by (simp add: sint_uint)
  then have "sint l = int (unat l)" by simp
  then show ?thesis using True by (simp only: of_nat_eq_iff) (auto simp: max_int_def word_le_nat_alt)
next
  case False
  then have "sint l < 0" by (simp add: word_sle_eq not_le flip: sle_zero_iff)
  with False show ?thesis by (auto simp: max_int_def word_le_nat_alt)
qed

interpretation fixed_codec: wire_codec "\<lambda>v. emit (EncodeBytes v)" "DecodeBytesFixed (int n)"
    "\<lambda>x. go_slice x \<and> length x = n" wire_bytes for n
proof (unfold_locales, goal_cases)
  case (1 x e)
  show ?case by (simp add: EncodeBytes_def wire_bytes_def encodeLength_enc_head)
next
  case (2 x pre s)
  then show ?case
    by (auto simp: DecodeBytesFixed_def wire_bytes_def readBytes_append sint_eq_nat go_slice_def [symmetric])
next
  case (3 pre s x d)
  then obtain l s' s'' where "s = enc_head majorBytes l @ s'" "unat l = length x" "length x \<le> max_int"
      "s' = x @ s''" "d = at_pos ((pre @ enc_head majorBytes l) @ x) s''" "unat l = n"
    by (auto simp: DecodeBytesFixed_def andThen_eq_Inr decodeHeader_Inr_iff readBytes_Inr_iff sint_eq_nat
        split: if_splits)
  then show ?case by (auto simp: wire_bytes_def go_slice_def simp flip: \<open>unat l = length x\<close>)
next
  case (4 x)
  show ?case by (simp add: wire_bytes_def)
qed

interpretation bool_codec: wire_codec "\<lambda>v. emit (EncodeBool v)" DecodeBool "\<lambda>_. True" wire_bool
proof (unfold_locales, goal_cases)
  case (3 pre s x d)
  then show ?case
    by (cases s) (auto simp: DecodeBool_def wire_bool_def at_pos_advance1 Let_def split: if_splits)
qed (auto simp: EncodeBool_def wire_bool_def DecodeBool_def at_pos_advance1 Let_def go_consts head_byte_def)

interpretation null_codec: wire_codec "\<lambda>_. emit EncodeNull" DecodeNull "\<lambda>_. True" "\<lambda>_. wire_null"
proof (unfold_locales, goal_cases)
  case (3 pre s x d)
  then show ?case
    by (cases s) (auto simp: DecodeNull_def wire_null_def at_pos_advance1 split: if_splits)
qed (auto simp: EncodeNull_def wire_null_def DecodeNull_def at_pos_advance1)

interpretation array_header_codec: wire_codec "\<lambda>n. emit (EncodeArrayHeader (int (unat n)))" DecodeArrayHeader
    "\<lambda>_. True" "enc_head majorArray"
proof (unfold_locales, goal_cases)
  case (3 pre s x d)
  then show ?case
    by (auto simp: DecodeArrayHeader_def andThen_eq_Inr decodeHeader_Inr_iff split: if_splits)
qed (auto simp: EncodeArrayHeader_def encodeLength_enc_head DecodeArrayHeader_def)

interpretation map_header_codec: wire_codec "\<lambda>n. emit (EncodeMapHeader (int (unat n)))" DecodeMapHeader
    "\<lambda>_. True" "enc_head majorMap"
proof (unfold_locales, goal_cases)
  case (3 pre s x d)
  then show ?case
    by (auto simp: DecodeMapHeader_def andThen_eq_Inr decodeHeader_Inr_iff split: if_splits)
qed (auto simp: EncodeMapHeader_def encodeLength_enc_head DecodeMapHeader_def)

lemma PeekNull_iff: "PeekNull (at_pos pre s) \<longleftrightarrow> (\<exists>s'. s = wire_null @ s')"
  by (cases s) (auto simp: PeekNull_def wire_null_def)


section \<open>Properties\<close>

text \<open>C1: integers round trip and only their shortest form is read. A decoder that stands in
  front of \<open>s\<close> reads the signed integer \<open>k\<close> and leaves the rest \<open>s'\<close> if and only if \<open>s\<close> begins
  with exactly the bytes \<^verbatim>\<open>EncodeInt\<close> writes for \<open>k\<close>; the same for unsigned integers. Hence every
  64-bit integer is read back, no longer form of it is, and no magnitude wraps.\<close>

theorem integers_exact:
  "(DecodeInt (at_pos pre s) = (Inr k, at_pos q s') \<longleftrightarrow>
      s = buf (EncodeInt k NewEncoder) @ s' \<and> q = pre @ buf (EncodeInt k NewEncoder)) \<and>
   (DecodeUint (at_pos pre s) = (Inr v, at_pos q s') \<longleftrightarrow>
      s = buf (EncodeUint v NewEncoder) @ s' \<and> q = pre @ buf (EncodeUint v NewEncoder))"
proof -
  have i: "buf (EncodeInt k NewEncoder) = wire_int k"
    by (simp add: EncodeInt_def wire_int_def encodeLength_enc_head)
  have u: "buf (EncodeUint v NewEncoder) = enc_head majorUint v"
    by (simp add: EncodeUint_def encodeLength_enc_head)
  show ?thesis unfolding i u int_codec.dec_iff uint_codec.dec_iff by (auto simp: at_pos_eq)
qed

text \<open>Text strings are read exactly when they are the encoder's output for valid UTF-8, and
  the encoder refuses the rest: a decoder reads \<open>x\<close> and leaves \<open>s'\<close> if and only if \<open>x\<close> fits a Go
  string and \<^verbatim>\<open>EncodeText\<close> accepts it and writes the bytes in front of \<open>s'\<close>. The accepted contents
  are the encodings of sequences of Unicode scalar values.\<close>

theorem text_exact:
  "(DecodeText (at_pos pre s) = (Inr x, at_pos q s') \<longleftrightarrow>
      go_slice x \<and> (\<exists>w. EncodeText x NewEncoder = (Inr (), append_buf w NewEncoder) \<and> s = w @ s' \<and> q = pre @ w)) \<and>
   (EncodeText x e = (Inl ErrInvalidUTF8, e) \<longleftrightarrow>
      \<not> (\<exists>cs. list_all scalar cs \<and> x = concat (map utf8_encode cs)))"
proof -
  have "EncodeText x NewEncoder = (Inr (), append_buf w NewEncoder) \<longleftrightarrow> utf8_valid x \<and> w = wire_text x" for w
    by (auto simp: EncodeText_def wire_text_def encodeLength_enc_head)
  moreover have "EncodeText x e = (Inl ErrInvalidUTF8, e) \<longleftrightarrow> \<not> utf8_valid x"
    by (simp add: EncodeText_def)
  ultimately show ?thesis
    unfolding text_codec.dec_iff utf8_valid_iff [symmetric] by (auto simp: at_pos_eq)
qed

text \<open>Reading never leaves the buffer and never wraps. \<^verbatim>\<open>readBytes(n)\<close> succeeds if and only if
  the 64-bit \<open>n\<close> fits \<^verbatim>\<open>int\<close> and that many bytes remain; then it returns exactly those bytes and
  advances by \<open>n\<close>, otherwise it reports the end of the input and does not move. A byte string of
  a required size is accepted only when the announced length is that size as a number.\<close>

lemma readBytes_safe:
  "readBytes n (at_pos pre s) =
     (if unat n \<le> max_int \<and> unat n \<le> length s
      then (Inr (take (unat n) s), at_pos (pre @ take (unat n) s) (drop (unat n) s))
      else (Inl ErrUnexpectedEOF, at_pos pre s)) \<and>
   (DecodeBytesFixed (int sz) (at_pos pre s) = (Inr x, d) \<longleftrightarrow>
      length x = sz \<and> go_slice x \<and>
      (\<exists>s'. s = buf (EncodeBytes x NewEncoder) @ s' \<and> d = at_pos (pre @ buf (EncodeBytes x NewEncoder)) s'))"
proof -
  have "buf (EncodeBytes x NewEncoder) = wire_bytes x"
    by (simp add: EncodeBytes_def wire_bytes_def encodeLength_enc_head)
  then show ?thesis by (auto simp: readBytes_at_pos fixed_codec.dec_iff)
qed

end
