(* ===== verification/Cbor_Verify.thy ===== *)
theory Cbor_Verify
  imports Cbor_Codec
begin

text \<open>
  The validating walks of \<^verbatim>\<open>src/cbor/cbor.go\<close>: the map key order \<open>mapKeyCmp\<close>, \<open>skipObject\<close>,
  \<open>verifyObject\<close> and \<open>Verify\<close>. The \<^verbatim>\<open>for range value\<close> loops are the mutually recursive
  functions \<open>skipItems\<close>, \<open>skipPairs\<close>, \<open>verifyItems\<close> and \<open>verifyPairs\<close>, which count the
  64-bit \<^verbatim>\<open>value\<close> down. The specification is a grammar of canonical items (\<open>item\<close>,
  \<open>enc_item\<close>, \<open>item_ok\<close>): the walk accepts exactly the encodings of its well-formed items.
\<close>

section \<open>The order of map keys\<close>

text \<open>\<^verbatim>\<open>slices.Compare\<close> on byte slices.\<close>

fun slices_Compare :: "bytes \<Rightarrow> bytes \<Rightarrow> int" where
  "slices_Compare [] [] = 0"
| "slices_Compare [] (y # ys) = -1"
| "slices_Compare (x # xs) [] = 1"
| "slices_Compare (x # xs) (y # ys) =
     (if x < y then -1 else if y < x then 1 else slices_Compare xs ys)"

definition mapKeyCmp :: "i64 \<Rightarrow> i64 \<Rightarrow> int" where
  "mapKeyCmp a b =
     (let encodeKey = (\<lambda>k. buf (EncodeInt k NewEncoder)) in slices_Compare (encodeKey a) (encodeKey b))"

text \<open>The documented order: non-negative keys first, then -1, -2, ...\<close>

definition key_rank :: "i64 \<Rightarrow> nat" where
  "key_rank k = (if 0 \<le>s k then unat k else 2 ^ 63 + unat (-1 - k))"

definition cmp_nat :: "nat \<Rightarrow> nat \<Rightarrow> int" where
  "cmp_nat a b = (if a < b then -1 else if b < a then 1 else 0)"

section \<open>The walks\<close>

function skipObject :: "nat \<Rightarrow> (decoder, cbor_error, unit) op"
  and skipItems :: "nat \<Rightarrow> nat \<Rightarrow> (decoder, cbor_error, unit) op"
  and skipPairs :: "nat \<Rightarrow> nat \<Rightarrow> (decoder, cbor_error, unit) op"
where
  "skipObject depth dec =
     (if depth = 0 then fail ErrMaxDepthExceeded dec
      else andThen decodeHeader (\<lambda>(major, value).
        if major = majorUint \<or> major = majorNint then ret ()
        else if major = majorBytes \<or> major = majorText then andThen (readBytes value) (\<lambda>_. ret ())
        else if major = majorArray then skipItems (depth - 1) (unat value)
        else if major = majorMap then skipPairs (depth - 1) (unat value)
        else if major = majorSimple then
          (if value = ucast simpleFalse \<or> value = ucast simpleTrue \<or> value = ucast simpleNull
           then ret () else fail ErrUnsupportedType)
        else fail ErrUnsupportedType) dec)"
| "skipItems depth n dec =
     (if n = 0 then ret () dec
      else andThen (skipObject depth) (\<lambda>_. skipItems depth (n - 1)) dec)"
| "skipPairs depth n dec =
     (if n = 0 then ret () dec
      else andThen (skipObject depth) (\<lambda>_. andThen (skipObject depth) (\<lambda>_. skipPairs depth (n - 1))) dec)"
  by pat_completeness auto
termination
  by (relation "measures [\<lambda>a. case a of Inl (d, _) \<Rightarrow> d | Inr (Inl (d, n, _)) \<Rightarrow> d | Inr (Inr (d, n, _)) \<Rightarrow> d,
        \<lambda>a. case a of Inl _ \<Rightarrow> 0 | Inr (Inl (d, n, _)) \<Rightarrow> Suc n | Inr (Inr (d, n, _)) \<Rightarrow> Suc n]") auto

function verifyObject :: "nat \<Rightarrow> (decoder, cbor_error, unit) op"
  and verifyItems :: "nat \<Rightarrow> nat \<Rightarrow> (decoder, cbor_error, unit) op"
  and verifyPairs :: "nat \<Rightarrow> nat \<Rightarrow> i64 option \<Rightarrow> (decoder, cbor_error, unit) op"
where
  "verifyObject depth dec =
     (if depth = 0 then fail ErrMaxDepthExceeded dec
      else andThen decodeHeader (\<lambda>(major, value).
        if major = majorUint \<or> major = majorNint then ret ()
        else if major = majorBytes then andThen (readBytes value) (\<lambda>_. ret ())
        else if major = majorText then
          andThen (readBytes value) (\<lambda>bs. if \<not> utf8_valid bs then fail ErrInvalidUTF8 else ret ())
        else if major = majorArray then verifyItems (depth - 1) (unat value)
        else if major = majorMap then verifyPairs (depth - 1) (unat value) None
        else if major = majorSimple then
          (if value = ucast simpleFalse \<or> value = ucast simpleTrue \<or> value = ucast simpleNull
           then ret () else fail ErrUnsupportedType)
        else fail ErrUnsupportedType) dec)"
| "verifyItems depth n dec =
     (if n = 0 then ret () dec
      else andThen (verifyObject depth) (\<lambda>_. verifyItems depth (n - 1)) dec)"
| "verifyPairs depth n prevKey dec =
     (if n = 0 then ret () dec
      else andThen DecodeInt (\<lambda>key.
        if (case prevKey of None \<Rightarrow> False | Some p \<Rightarrow> mapKeyCmp p key \<ge> 0) then fail ErrInvalidMapKeyOrder
        else andThen (verifyObject depth) (\<lambda>_. verifyPairs depth (n - 1) (Some key))) dec)"
  by pat_completeness auto
termination
  by (relation "measures [\<lambda>a. case a of Inl (d, _) \<Rightarrow> d | Inr (Inl (d, n, _)) \<Rightarrow> d | Inr (Inr (d, n, _)) \<Rightarrow> d,
        \<lambda>a. case a of Inl _ \<Rightarrow> 0 | Inr (Inl (d, n, _)) \<Rightarrow> Suc n | Inr (Inr (d, n, _)) \<Rightarrow> Suc n]") auto

definition Verify :: "bytes \<Rightarrow> cbor_error + unit" where
  "Verify bs =
     (case verifyObject maxDepth (NewDecoder bs) of
        (Inl e, _) \<Rightarrow> Inl e
      | (Inr _, dec) \<Rightarrow> Finish dec)"

declare skipObject.simps [simp del] skipItems.simps [simp del] skipPairs.simps [simp del]
declare verifyObject.simps [simp del] verifyItems.simps [simp del] verifyPairs.simps [simp del]

section \<open>The grammar of canonical items\<close>

datatype item =
    IUint u64
  | INint u64 \<comment> \<open>the integer \<open>-1 - v\<close>\<close>
  | IBytes bytes
  | IText bytes
  | IArray "item list"
  | IMap "(i64 \<times> item) list"
  | IBool bool
  | INull

fun enc_item :: "item \<Rightarrow> bytes" where
  "enc_item (IUint v) = enc_head majorUint v"
| "enc_item (INint v) = enc_head majorNint v"
| "enc_item (IBytes bs) = wire_bytes bs"
| "enc_item (IText bs) = wire_text bs"
| "enc_item (IArray xs) = enc_head majorArray (of_nat (length xs)) @ concat (map enc_item xs)"
| "enc_item (IMap kvs) =
     enc_head majorMap (of_nat (length kvs)) @ concat (map (\<lambda>(k, x). wire_int k @ enc_item x) kvs)"
| "enc_item (IBool b) = wire_bool b"
| "enc_item INull = wire_null"

definition keys_sorted :: "i64 list \<Rightarrow> bool" where
  "keys_sorted ks \<longleftrightarrow> sorted_wrt (<) (map key_rank ks)"

fun item_ok :: "item \<Rightarrow> bool" where
  "item_ok (IBytes bs) \<longleftrightarrow> go_slice bs"
| "item_ok (IText bs) \<longleftrightarrow> go_slice bs \<and> utf8_valid bs"
| "item_ok (IArray xs) \<longleftrightarrow> length xs < 2 ^ 64 \<and> (\<forall>x \<in> set xs. item_ok x)"
| "item_ok (IMap kvs) \<longleftrightarrow>
     length kvs < 2 ^ 64 \<and> keys_sorted (map fst kvs) \<and> (\<forall>(k, x) \<in> set kvs. item_ok x)"
| "item_ok _ \<longleftrightarrow> True"

text \<open>Nesting depth, a scalar counting one level.\<close>

fun depth_le :: "nat \<Rightarrow> item \<Rightarrow> bool" where
  "depth_le 0 x \<longleftrightarrow> False"
| "depth_le (Suc d) (IArray xs) \<longleftrightarrow> (\<forall>x \<in> set xs. depth_le d x)"
| "depth_le (Suc d) (IMap kvs) \<longleftrightarrow> (\<forall>(k, x) \<in> set kvs. depth_le d x)"
| "depth_le (Suc d) _ \<longleftrightarrow> True"

section \<open>The key order is the documented one\<close>

lemma cmp_nat_lex: "b < c \<Longrightarrow> d < c \<Longrightarrow>
  cmp_nat (a * c + b) (e * c + d) = (if a = e then cmp_nat b d else cmp_nat a e)"
proof -
  assume b: "b < c" and d: "d < c"
  have "a * c + b < e * c + d" if "a < e"
  proof -
    have "a * c + b < (a + 1) * c" using b by simp
    also have "\<dots> \<le> e * c" using that by (intro mult_right_mono) auto
    finally show ?thesis by simp
  qed
  moreover have "e * c + d < a * c + b" if "e < a"
  proof -
    have "e * c + d < (e + 1) * c" using d by simp
    also have "\<dots> \<le> a * c" using that by (intro mult_right_mono) auto
    finally show ?thesis by simp
  qed
  ultimately show ?thesis by (cases a e rule: linorder_cases) (auto simp: cmp_nat_def)
qed

lemma slices_Compare_append:
  "length xs = length ys \<Longrightarrow>
   slices_Compare (xs @ as) (ys @ bs) =
     (if slices_Compare xs ys = 0 then slices_Compare as bs else slices_Compare xs ys)"
  by (induction xs ys rule: list_induct2) auto

lemma slices_Compare_single: "slices_Compare [a] [b] = cmp_nat (unat a) (unat b)"
  by (auto simp: cmp_nat_def word_less_nat_alt)

lemma cmp_nat_0 [simp]: "cmp_nat a b = 0 \<longleftrightarrow> a = b"
  by (auto simp: cmp_nat_def)

lemma slices_Compare_be_val:
  "length xs = length ys \<Longrightarrow> slices_Compare xs ys = cmp_nat (be_val xs) (be_val ys)"
proof (induction xs arbitrary: ys rule: rev_induct)
  case Nil
  then show ?case by simp
next
  case (snoc x xs)
  then obtain y ys' where ys: "ys = ys' @ [y]" by (cases ys rule: rev_cases) auto
  have "slices_Compare (xs @ [x]) (ys' @ [y]) =
      (if be_val xs = be_val ys' then cmp_nat (unat x) (unat y) else cmp_nat (be_val xs) (be_val ys'))"
    using snoc ys by (simp add: slices_Compare_append slices_Compare_single del: slices_Compare.simps)
  also have "\<dots> = cmp_nat (be_val (xs @ [x])) (be_val (ys' @ [y]))"
    by (simp add: cmp_nat_lex)
  finally show ?case by (simp add: ys)
qed

lemma unat_head_byte: "m < 8 \<Longrightarrow> i < 32 \<Longrightarrow> unat (head_byte m i) = 32 * unat m + unat i"
proof -
  assume m: "m < 8" and i: "i < 32"
  define b where "b = head_byte m i"
  have "unat m = unat b div 32"
    using head_byte_major [OF m i] unat_drop_bit_eq [of 5 b]
    by (simp add: b_def) (simp add: drop_bit_eq_div)
  moreover have "unat i = unat b mod 32"
    using head_byte_info [OF i, of m] unsigned_take_bit_eq [of 5 b, where ?'a = nat]
    by (simp add: b_def mask5 take_bit_eq_mask [symmetric]) (simp add: take_bit_eq_mod)
  ultimately show ?thesis by (simp add: b_def [symmetric])
qed

text \<open>An encoded header as its first byte and its argument bytes, by size class.\<close>

definition hd_info :: "nat \<Rightarrow> nat" where
  "hd_info v = (if v < 24 then v else if v < 256 then 24 else if v < 65536 then 25
     else if v < 4294967296 then 26 else 27)"

definition hd_width :: "nat \<Rightarrow> nat" where
  "hd_width v = (if v < 24 then 0 else if v < 256 then 1 else if v < 65536 then 2
     else if v < 4294967296 then 4 else 8)"

lemma enc_head_info:
  "enc_head m v = head_byte m (of_nat (hd_info (unat v))) # be_bytes (hd_width (unat v)) (unat v)"
  by (auto simp: enc_head_eq hd_info_def hd_width_def word_le_nat_alt word_less_nat_alt)

lemma hd_info_mono: "hd_info v < hd_info w \<Longrightarrow> v < w"
  by (auto simp: hd_info_def split: if_splits)

lemma hd_info_eq: "hd_info v = hd_info w \<Longrightarrow> hd_width v = hd_width w \<and> (hd_width v = 0 \<longrightarrow> v = w)"
  by (auto simp: hd_info_def hd_width_def split: if_splits)

lemma hd_width_fits: "v < 256 ^ 8 \<Longrightarrow> hd_width v \<noteq> 0 \<Longrightarrow> v < 256 ^ hd_width v"
  by (auto simp: hd_width_def split: if_splits)

lemma unat_hd_info: "unat (of_nat (hd_info v) :: byte) = hd_info v"
  by (simp add: unat_of_nat hd_info_def)

lemma hd_info_less: "(of_nat (hd_info v) :: byte) < 32"
  by (simp add: word_less_nat_alt unat_hd_info) (simp add: hd_info_def)

lemma compare_args:
  assumes "hd_info v = hd_info w" and "v < 256 ^ 8" and "w < 256 ^ 8"
  shows "slices_Compare (be_bytes (hd_width v) v) (be_bytes (hd_width w) w) = cmp_nat v w"
proof (cases "hd_width v = 0")
  case True
  with hd_info_eq [OF assms(1)] show ?thesis by simp
next
  case False
  with hd_info_eq [OF assms(1)] hd_width_fits [OF assms(2)] hd_width_fits [OF assms(3)]
  show ?thesis by (simp add: slices_Compare_be_val)
qed

lemma slices_Compare_enc_head:
  assumes m: "m < 8" "m' < 8"
  shows "slices_Compare (enc_head m v) (enc_head m' w) =
    (if m = m' then cmp_nat (unat v) (unat w) else cmp_nat (unat m) (unat m'))"
proof -
  let ?i = "hd_info (unat v)" and ?j = "hd_info (unat w)"
  have h: "unat (head_byte m (of_nat ?i)) = unat m * 32 + ?i"
      "unat (head_byte m' (of_nat ?j)) = unat m' * 32 + ?j"
    using m by (simp_all add: unat_head_byte hd_info_less unat_hd_info)
  have "?i < 32" "?j < 32" by (auto simp: hd_info_def)
  note lex = cmp_nat_lex [OF this, of "unat m" "unat m'"]
  have "slices_Compare (enc_head m v) (enc_head m' w) =
      (if cmp_nat (unat m * 32 + ?i) (unat m' * 32 + ?j) = 0
       then slices_Compare (be_bytes (hd_width (unat v)) (unat v)) (be_bytes (hd_width (unat w)) (unat w))
       else cmp_nat (unat m * 32 + ?i) (unat m' * 32 + ?j))"
    unfolding enc_head_info by (simp add: h word_less_nat_alt) (simp add: cmp_nat_def)
  also have "\<dots> = (if m = m' then cmp_nat (unat v) (unat w) else cmp_nat (unat m) (unat m'))"
  proof (cases "m = m' \<and> ?i = ?j")
    case True
    then show ?thesis using compare_args [of "unat v" "unat w"] unat_u64_less by simp
  next
    case False
    then have "cmp_nat ?i ?j = cmp_nat (unat v) (unat w)" if "m = m'"
      using that hd_info_mono [of "unat v" "unat w"] hd_info_mono [of "unat w" "unat v"]
      by (cases ?i ?j rule: linorder_cases) (auto simp: cmp_nat_def)
    with False show ?thesis unfolding lex by (auto simp: word_unat_eq_iff)
  qed
  finally show ?thesis .
qed

lemma mapKeyCmp_wire: "mapKeyCmp a b = slices_Compare (wire_int a) (wire_int b)"
  by (simp add: mapKeyCmp_def EncodeInt_def wire_int_def encodeLength_enc_head)

lemma nonneg_less: "0 \<le>s (k :: i64) \<Longrightarrow> unat k < 2 ^ 63"
  by (simp add: sle_zero_iff word_le_nat_alt)

lemma mapKeyCmp_eq: "mapKeyCmp a b = cmp_nat (key_rank a) (key_rank b)"
proof -
  have "cmp_nat (2 ^ 63 + x) (2 ^ 63 + y) = cmp_nat x y" for x y
    by (simp add: cmp_nat_def)
  then show ?thesis
    using nonneg_less [of a] nonneg_less [of b]
    by (auto simp: mapKeyCmp_wire wire_int_def key_rank_def slices_Compare_enc_head go_consts)
      (auto simp: cmp_nat_def)
qed

lemma key_rank_inject: "key_rank a = key_rank b \<longleftrightarrow> a = b"
proof
  assume "key_rank a = key_rank b"
  moreover have "-1 - a = -1 - b \<Longrightarrow> a = b" by simp
  ultimately show "a = b"
    using nonneg_less [of a] nonneg_less [of b]
    by (auto simp: key_rank_def word_unat_eq_iff [symmetric] split: if_splits)
qed simp

section \<open>The walk accepts exactly the canonical items\<close>

lemma simple_value_iff:
  "(v = ucast simpleFalse \<or> v = ucast simpleTrue \<or> v = ucast simpleNull) \<longleftrightarrow>
   (v :: u64) = 20 \<or> v = 21 \<or> v = 22"
  by (simp add: go_consts)

lemma wire_bool_head: "wire_bool b = enc_head majorSimple (if b then 21 else 20)"
  by (simp add: wire_bool_def enc_head_eq go_consts)

lemma wire_null_head: "wire_null = enc_head majorSimple 22"
  by (simp add: wire_null_def enc_head_eq go_consts)

definition prev_ok :: "i64 option \<Rightarrow> i64 list \<Rightarrow> bool" where
  "prev_ok prev ks \<longleftrightarrow> keys_sorted ((case prev of None \<Rightarrow> [] | Some p \<Rightarrow> [p]) @ ks)"

lemma prev_ok_Nil [simp]: "prev_ok prev []"
  by (simp add: prev_ok_def keys_sorted_def split: option.splits)

lemma prev_ok_None: "prev_ok None ks = keys_sorted ks"
  by (simp add: prev_ok_def)

lemma prev_ok_Cons:
  "prev_ok prev (k # ks) \<longleftrightarrow>
     \<not> (case prev of None \<Rightarrow> False | Some p \<Rightarrow> mapKeyCmp p k \<ge> 0) \<and> prev_ok (Some k) ks"
  by (auto simp: prev_ok_def keys_sorted_def mapKeyCmp_eq cmp_nat_def split: option.splits)

text \<open>Completeness: every well-formed item is accepted in front of any continuation.\<close>

lemma verifyItems_accepts:
  assumes "\<forall>x \<in> set xs. \<forall>pre s. verifyObject d (at_pos pre (enc_item x @ s)) = (Inr (), at_pos (pre @ enc_item x) s)"
  shows "verifyItems d (length xs) (at_pos pre (concat (map enc_item xs) @ s)) =
    (Inr (), at_pos (pre @ concat (map enc_item xs)) s)"
  using assms
proof (induction xs arbitrary: pre)
  case Nil
  show ?case by (subst verifyItems.simps) simp
next
  case (Cons x xs)
  then show ?case by (subst verifyItems.simps) simp
qed

abbreviation enc_pair :: "i64 \<times> item \<Rightarrow> bytes" where
  "enc_pair \<equiv> \<lambda>(k, x). wire_int k @ enc_item x"

lemma verifyPairs_accepts:
  assumes "\<forall>(k, x) \<in> set kvs. \<forall>pre s. verifyObject d (at_pos pre (enc_item x @ s)) = (Inr (), at_pos (pre @ enc_item x) s)"
    and "prev_ok prev (map fst kvs)"
  shows "verifyPairs d (length kvs) prev (at_pos pre (concat (map enc_pair kvs) @ s)) =
    (Inr (), at_pos (pre @ concat (map enc_pair kvs)) s)"
  using assms
proof (induction kvs arbitrary: pre prev)
  case Nil
  show ?case by (subst verifyPairs.simps) simp
next
  case (Cons kv kvs)
  obtain k x where kv: "kv = (k, x)" by (cases kv)
  have "DecodeInt (at_pos pre (wire_int k @ t)) = (Inr k, at_pos (pre @ wire_int k) t)" for t
    by (rule int_codec.dec_wire) simp
  with Cons kv show ?case
    by (subst verifyPairs.simps) (auto simp: prev_ok_Cons)
qed

lemma verifyObject_accepts:
  "item_ok x \<Longrightarrow> depth_le d x \<Longrightarrow>
   verifyObject d (at_pos pre (enc_item x @ s)) = (Inr (), at_pos (pre @ enc_item x) s)"
proof (induction x arbitrary: d pre s)
  case (IArray xs)
  then obtain e where d: "d = Suc e" by (cases d) auto
  have "verifyItems e (length xs) (at_pos p (concat (map enc_item xs) @ s)) =
      (Inr (), at_pos (p @ concat (map enc_item xs)) s)" for p
    by (rule verifyItems_accepts) (use IArray d in auto)
  then show ?case
    using IArray.prems d by (subst verifyObject.simps) (simp add: go_consts unat_of_nat)
next
  case (IMap kvs)
  then obtain e where d: "d = Suc e" by (cases d) auto
  have "verifyPairs e (length kvs) None (at_pos p (concat (map enc_pair kvs) @ s)) =
      (Inr (), at_pos (p @ concat (map enc_pair kvs)) s)" for p
    by (rule verifyPairs_accepts) (use IMap d in \<open>auto simp: prev_ok_None split: prod.splits\<close>)
  then show ?case
    using IMap.prems d by (subst verifyObject.simps) (simp add: go_consts unat_of_nat)
next
  case (IUint v)
  then show ?case by (cases d; subst verifyObject.simps) auto
next
  case (INint v)
  then show ?case by (cases d; subst verifyObject.simps) auto
next
  case (IBytes bs)
  then show ?case
    by (cases d; subst verifyObject.simps)
      (auto simp: wire_bytes_def go_consts)
next
  case (IText bs)
  then show ?case
    by (cases d; subst verifyObject.simps)
      (auto simp: wire_text_def go_consts)
next
  case (IBool b)
  then show ?case
    by (cases d; subst verifyObject.simps) (auto simp: wire_bool_head go_consts)
next
  case INull
  then show ?case
    by (cases d; subst verifyObject.simps) (auto simp: wire_null_head go_consts)
qed

text \<open>Soundness: what the walk accepts is the encoding of a well-formed item.\<close>

definition walk_sound :: "nat \<Rightarrow> bool" where
  "walk_sound d \<longleftrightarrow> (\<forall>pre s t. verifyObject d (at_pos pre s) = (Inr (), t) \<longrightarrow>
     (\<exists>x s'. item_ok x \<and> depth_le d x \<and> s = enc_item x @ s' \<and> t = at_pos (pre @ enc_item x) s'))"

lemma walk_soundE:
  assumes "walk_sound d" and "verifyObject d (at_pos pre s) = (Inr (), t)"
  obtains x s' where "item_ok x" "depth_le d x" "s = enc_item x @ s'" "t = at_pos (pre @ enc_item x) s'"
  using assms unfolding walk_sound_def by blast

lemma verifyItems_sound:
  assumes "walk_sound d" and "verifyItems d n (at_pos pre s) = (Inr (), t)"
  shows "\<exists>xs s'. length xs = n \<and> (\<forall>x \<in> set xs. item_ok x \<and> depth_le d x) \<and>
     s = concat (map enc_item xs) @ s' \<and> t = at_pos (pre @ concat (map enc_item xs)) s'"
  using assms(2)
proof (induction n arbitrary: pre s)
  case 0
  then show ?case by (subst (asm) verifyItems.simps) simp
next
  case (Suc n)
  then obtain t1 where v: "verifyObject d (at_pos pre s) = (Inr (), t1)" and r: "verifyItems d n t1 = (Inr (), t)"
    by (subst (asm) verifyItems.simps) (auto simp: andThen_eq_Inr)
  from walk_soundE [OF assms(1) v] obtain x s1 where x: "item_ok x" "depth_le d x" "s = enc_item x @ s1"
    and t1: "t1 = at_pos (pre @ enc_item x) s1" .
  from Suc.IH r t1 obtain xs s' where "length xs = n" "\<forall>x \<in> set xs. item_ok x \<and> depth_le d x"
      "s1 = concat (map enc_item xs) @ s'" "t = at_pos ((pre @ enc_item x) @ concat (map enc_item xs)) s'"
    by blast
  with x show ?case by (intro exI [of _ "x # xs"] exI [of _ s']) auto
qed

lemma verifyPairs_sound:
  assumes "walk_sound d" and "verifyPairs d n prev (at_pos pre s) = (Inr (), t)"
  shows "\<exists>kvs s'. length kvs = n \<and> prev_ok prev (map fst kvs) \<and>
     (\<forall>(k, x) \<in> set kvs. item_ok x \<and> depth_le d x) \<and>
     s = concat (map enc_pair kvs) @ s' \<and> t = at_pos (pre @ concat (map enc_pair kvs)) s'"
  using assms(2)
proof (induction n arbitrary: pre s prev)
  case 0
  then show ?case by (subst (asm) verifyPairs.simps) simp
next
  case (Suc n)
  let ?bad = "\<lambda>k. case prev of None \<Rightarrow> False | Some p \<Rightarrow> mapKeyCmp p k \<ge> 0"
  from Suc.prems obtain k t0 t1 where k: "DecodeInt (at_pos pre s) = (Inr k, t0)" and b: "\<not> ?bad k"
    and v: "verifyObject d t0 = (Inr (), t1)" and r: "verifyPairs d n (Some k) t1 = (Inr (), t)"
    by (subst (asm) verifyPairs.simps) (auto simp: andThen_eq_Inr split: if_splits)
  from int_codec.dec_only [OF k] obtain s0 where s: "s = wire_int k @ s0" and t0: "t0 = at_pos (pre @ wire_int k) s0"
    by blast
  from walk_soundE [OF assms(1) v [unfolded t0]] obtain x s1 where x: "item_ok x" "depth_le d x"
    "s0 = enc_item x @ s1" and t1: "t1 = at_pos ((pre @ wire_int k) @ enc_item x) s1" .
  from Suc.IH r t1 obtain kvs s' where "length kvs = n" "prev_ok (Some k) (map fst kvs)"
      "\<forall>(k, x) \<in> set kvs. item_ok x \<and> depth_le d x" "s1 = concat (map enc_pair kvs) @ s'"
      "t = at_pos (((pre @ wire_int k) @ enc_item x) @ concat (map enc_pair kvs)) s'"
    by blast
  with x s b show ?case by (intro exI [of _ "(k, x) # kvs"] exI [of _ s']) (auto simp: prev_ok_Cons)
qed

text \<open>What \<open>verifyObject\<close> has done between the header \<open>(m, v)\<close> and its success.\<close>

definition walk_step :: "nat \<Rightarrow> byte \<Rightarrow> u64 \<Rightarrow> decoder \<Rightarrow> decoder \<Rightarrow> bool" where
  "walk_step d m v t1 t \<longleftrightarrow>
     (m = majorUint \<or> m = majorNint) \<and> t = t1 \<or>
     m = majorBytes \<and> (\<exists>bs. readBytes v t1 = (Inr bs, t)) \<or>
     m = majorText \<and> (\<exists>bs. readBytes v t1 = (Inr bs, t) \<and> utf8_valid bs) \<or>
     m = majorArray \<and> verifyItems d (unat v) t1 = (Inr (), t) \<or>
     m = majorMap \<and> verifyPairs d (unat v) None t1 = (Inr (), t) \<or>
     m = majorSimple \<and> (v = 20 \<or> v = 21 \<or> v = 22) \<and> t = t1"

lemma verifyObject_Suc:
  assumes "verifyObject (Suc d) dec = (Inr (), t)"
  obtains m v t1 where "decodeHeader dec = (Inr (m, v), t1)"
    "walk_step d m v t1 t"
proof -
  from assms obtain p t1 where h: "decodeHeader dec = (Inr p, t1)"
    and b: "(case p of (major, value) \<Rightarrow>
        if major = majorUint \<or> major = majorNint then ret ()
        else if major = majorBytes then andThen (readBytes value) (\<lambda>_. ret ())
        else if major = majorText then
          andThen (readBytes value) (\<lambda>bs. if \<not> utf8_valid bs then fail ErrInvalidUTF8 else ret ())
        else if major = majorArray then verifyItems d (unat value)
        else if major = majorMap then verifyPairs d (unat value) None
        else if major = majorSimple then
          (if value = ucast simpleFalse \<or> value = ucast simpleTrue \<or> value = ucast simpleNull
           then ret () else fail ErrUnsupportedType)
        else fail ErrUnsupportedType) t1 = (Inr (), t)"
    by (subst (asm) verifyObject.simps) (auto simp only: nat.simps if_False diff_Suc_1 elim!: andThen_InrE)
  obtain m v where p: "p = (m, v)" by (cases p)
  show ?thesis
    using b by (intro that [OF h [unfolded p]]) (auto simp: p walk_step_def andThen_eq_Inr simple_value_iff split: if_splits)
qed

lemma walk_sound_Suc:
  assumes d: "walk_sound d"
  shows "walk_sound (Suc d)"
  unfolding walk_sound_def
proof (intro allI impI)
  fix pre s t
  assume "verifyObject (Suc d) (at_pos pre s) = (Inr (), t)"
  then obtain m v t1 where h: "decodeHeader (at_pos pre s) = (Inr (m, v), t1)" and b: "walk_step d m v t1 t"
    by (rule verifyObject_Suc)
  from h obtain s1 where s: "s = enc_head m v @ s1" and t1: "t1 = at_pos (pre @ enc_head m v) s1"
    by (auto simp: decodeHeader_Inr_iff)
  have v: "of_nat (length xs) = v" if "length xs = unat v" for xs :: "'a list" using that by simp
  show "\<exists>x s'. item_ok x \<and> depth_le (Suc d) x \<and> s = enc_item x @ s' \<and> t = at_pos (pre @ enc_item x) s'"
    using b unfolding t1 walk_step_def
  proof (elim disjE conjE exE)
    assume "m = majorUint" "t = at_pos (pre @ enc_head m v) s1"
    then show ?thesis using s by (intro exI [of _ "IUint v"]) auto
  next
    assume "m = majorNint" "t = at_pos (pre @ enc_head m v) s1"
    then show ?thesis using s by (intro exI [of _ "INint v"]) auto
  next
    fix bs assume "m = majorBytes" "readBytes v (at_pos (pre @ enc_head m v) s1) = (Inr bs, t)"
    then show ?thesis using s v [of bs]
      by (intro exI [of _ "IBytes bs"]) (auto simp: readBytes_Inr_iff wire_bytes_def go_slice_def)
  next
    fix bs assume "m = majorText" "readBytes v (at_pos (pre @ enc_head m v) s1) = (Inr bs, t)" "utf8_valid bs"
    then show ?thesis using s v [of bs]
      by (intro exI [of _ "IText bs"]) (auto simp: readBytes_Inr_iff wire_text_def go_slice_def)
  next
    assume m: "m = majorArray" and "verifyItems d (unat v) (at_pos (pre @ enc_head m v) s1) = (Inr (), t)"
    from verifyItems_sound [OF d this(2)] obtain xs s' where "length xs = unat v"
      "\<forall>x \<in> set xs. item_ok x \<and> depth_le d x" "s1 = concat (map enc_item xs) @ s'"
      "t = at_pos ((pre @ enc_head m v) @ concat (map enc_item xs)) s'" by blast
    then show ?thesis using m s v [of xs] unat_u64_less [of v] by (intro exI [of _ "IArray xs"]) simp
  next
    assume m: "m = majorMap" and "verifyPairs d (unat v) None (at_pos (pre @ enc_head m v) s1) = (Inr (), t)"
    from verifyPairs_sound [OF d this(2)] obtain kvs s' where "length kvs = unat v"
      "keys_sorted (map fst kvs)" "\<forall>(k, x) \<in> set kvs. item_ok x \<and> depth_le d x"
      "s1 = concat (map enc_pair kvs) @ s'"
      "t = at_pos ((pre @ enc_head m v) @ concat (map enc_pair kvs)) s'"
      by (auto simp: prev_ok_None)
    then show ?thesis using m s v [of kvs] unat_u64_less [of v]
      by (intro exI [of _ "IMap kvs"]) (auto split: prod.splits)
  next
    assume "m = majorSimple" "v = 20" "t = at_pos (pre @ enc_head m v) s1"
    then show ?thesis using s by (intro exI [of _ "IBool False"]) (simp add: wire_bool_head)
  next
    assume "m = majorSimple" "v = 21" "t = at_pos (pre @ enc_head m v) s1"
    then show ?thesis using s by (intro exI [of _ "IBool True"]) (simp add: wire_bool_head)
  next
    assume "m = majorSimple" "v = 22" "t = at_pos (pre @ enc_head m v) s1"
    then show ?thesis using s by (intro exI [of _ INull]) (simp add: wire_null_head)
  qed
qed

lemma walk_sound: "walk_sound d"
proof (induction d)
  case 0
  show ?case by (simp add: walk_sound_def verifyObject.simps)
qed (rule walk_sound_Suc)

lemma verifyObject_iff:
  "verifyObject d (at_pos pre s) = (Inr (), t) \<longleftrightarrow>
   (\<exists>x s'. item_ok x \<and> depth_le d x \<and> s = enc_item x @ s' \<and> t = at_pos (pre @ enc_item x) s')"
  using walk_sound [of d] verifyObject_accepts by (fastforce simp: walk_sound_def)

lemma Verify_iff: "Verify bs = Inr () \<longleftrightarrow> (\<exists>x. item_ok x \<and> depth_le maxDepth x \<and> bs = enc_item x)"
proof -
  have "Verify bs = Inr () \<longleftrightarrow> (\<exists>t. verifyObject maxDepth (at_pos [] bs) = (Inr (), t) \<and> Finish t = Inr ())"
    by (auto simp: Verify_def NewDecoder_at_pos split: prod.splits sum.splits)
  also have "\<dots> \<longleftrightarrow> (\<exists>x. item_ok x \<and> depth_le maxDepth x \<and> bs = enc_item x)"
  proof
    assume "\<exists>x. item_ok x \<and> depth_le maxDepth x \<and> bs = enc_item x"
    then obtain x where x: "item_ok x" "depth_le maxDepth x" and bs: "bs = enc_item x" by blast
    from x have "verifyObject maxDepth (at_pos [] (enc_item x @ [])) = (Inr (), at_pos ([] @ enc_item x) [])"
      by (rule verifyObject_accepts)
    then show "\<exists>t. verifyObject maxDepth (at_pos [] bs) = (Inr (), t) \<and> Finish t = Inr ()"
      by (auto simp: bs)
  qed (auto simp: verifyObject_iff split: if_splits)
  finally show ?thesis .
qed

section \<open>Canonical encodings are uniquely decodable\<close>

fun item_major :: "item \<Rightarrow> byte" where
  "item_major (IUint v) = majorUint"
| "item_major (INint v) = majorNint"
| "item_major (IBytes bs) = majorBytes"
| "item_major (IText bs) = majorText"
| "item_major (IArray xs) = majorArray"
| "item_major (IMap kvs) = majorMap"
| "item_major (IBool b) = majorSimple"
| "item_major INull = majorSimple"

fun item_arg :: "item \<Rightarrow> u64" where
  "item_arg (IUint v) = v"
| "item_arg (INint v) = v"
| "item_arg (IBytes bs) = of_nat (length bs)"
| "item_arg (IText bs) = of_nat (length bs)"
| "item_arg (IArray xs) = of_nat (length xs)"
| "item_arg (IMap kvs) = of_nat (length kvs)"
| "item_arg (IBool b) = (if b then 21 else 20)"
| "item_arg INull = 22"

fun item_body :: "item \<Rightarrow> bytes" where
  "item_body (IBytes bs) = bs"
| "item_body (IText bs) = bs"
| "item_body (IArray xs) = concat (map enc_item xs)"
| "item_body (IMap kvs) = concat (map enc_pair kvs)"
| "item_body _ = []"

lemma enc_item_parts: "enc_item x = enc_head (item_major x) (item_arg x) @ item_body x"
  by (cases x) (simp_all add: wire_bytes_def wire_text_def wire_bool_head wire_null_head)

lemma enc_item_headD:
  assumes "enc_item x @ s = enc_item y @ t"
  shows "item_major x = item_major y \<and> item_arg x = item_arg y \<and> item_body x @ s = item_body y @ t"
proof (rule enc_head_inject)
  show "item_major x < 8" by (cases x) simp_all
  show "item_major y < 8" by (cases y) simp_all
  show "enc_head (item_major x) (item_arg x) @ item_body x @ s =
      enc_head (item_major y) (item_arg y) @ item_body y @ t"
    using assms by (simp add: enc_item_parts)
qed

lemma of_nat_u64_inject: "m < 2 ^ 64 \<Longrightarrow> n < 2 ^ 64 \<Longrightarrow> of_nat m = (of_nat n :: u64) \<longleftrightarrow> m = n"
  by (simp add: word_unat_eq_iff unat_of_nat)

lemma concat_prefix_free:
  assumes "length xs = length ys"
    and "\<And>x y s t. x \<in> set xs \<Longrightarrow> y \<in> set ys \<Longrightarrow> f x @ s = f y @ t \<Longrightarrow> x = y \<and> s = t"
    and "concat (map f xs) @ s = concat (map f ys) @ t"
  shows "xs = ys \<and> s = t"
  using assms
proof (induction xs ys rule: list_induct2)
  case Nil
  then show ?case by simp
next
  case (Cons x xs y ys)
  have "x = y \<and> concat (map f xs) @ s = concat (map f ys) @ t"
    using Cons.prems(2) by (intro Cons.prems(1)) auto
  moreover then have "xs = ys \<and> s = t" using Cons.prems(1) by (intro Cons.IH) auto
  ultimately show ?case by simp
qed

lemma enc_item_prefix_free:
  "item_ok x \<Longrightarrow> item_ok y \<Longrightarrow> enc_item x @ s = enc_item y @ t \<Longrightarrow> x = y \<and> s = t"
proof (induction x arbitrary: y s t)
  case (IArray xs)
  note h = enc_item_headD [OF IArray.prems(3)]
  then obtain ys where y: "y = IArray ys" by (cases y) (auto simp: go_consts)
  have "xs = ys \<and> s = t"
  proof (rule concat_prefix_free)
    show "length xs = length ys" using h IArray.prems y by (simp add: of_nat_u64_inject)
    show "concat (map enc_item xs) @ s = concat (map enc_item ys) @ t" using h y by simp
  qed (use IArray y in auto)
  with y show ?case by simp
next
  case (IMap kvs)
  note h = enc_item_headD [OF IMap.prems(3)]
  then obtain kvs' where y: "y = IMap kvs'" by (cases y) (auto simp: go_consts)
  have pairs: "p = q \<and> s = t"
    if "p \<in> set kvs" "q \<in> set kvs'" "enc_pair p @ s = enc_pair q @ t" for p q s t
  proof -
    obtain k x k' x' where pq: "p = (k, x)" "q = (k', x')" by (cases p, cases q)
    have "wire_int k @ enc_item x @ s = wire_int k' @ enc_item x' @ t" using that pq by simp
    then have k: "k = k'" and e: "enc_item x @ s = enc_item x' @ t"
      using int_codec.wire_prefix_free by blast+
    have "x = x' \<and> s = t"
      using IMap.IH [of p x x' s t] IMap.prems that pq y e by auto
    with k pq show ?thesis by simp
  qed
  have "kvs = kvs' \<and> s = t"
  proof (rule concat_prefix_free)
    show "length kvs = length kvs'" using h IMap.prems y by (simp add: of_nat_u64_inject)
    show "concat (map enc_pair kvs) @ s = concat (map enc_pair kvs') @ t" using h y by simp
  qed (rule pairs)
  with y show ?case by simp
next
  case (IBytes bs)
  note h = enc_item_headD [OF IBytes.prems(3)]
  then obtain bs' where y: "y = IBytes bs'" by (cases y) (auto simp: go_consts)
  then show ?case using h IBytes.prems
    by (auto simp: of_nat_u64_inject go_slice_def max_int_def)
next
  case (IText bs)
  note h = enc_item_headD [OF IText.prems(3)]
  then obtain bs' where y: "y = IText bs'" by (cases y) (auto simp: go_consts)
  then show ?case using h IText.prems
    by (auto simp: of_nat_u64_inject go_slice_def max_int_def)
next
  case (IUint v)
  then show ?case using enc_item_headD [OF IUint.prems(3)] by (cases y) (auto simp: go_consts)
next
  case (INint v)
  then show ?case using enc_item_headD [OF INint.prems(3)] by (cases y) (auto simp: go_consts)
next
  case (IBool b)
  then show ?case using enc_item_headD [OF IBool.prems(3)] by (cases y) (auto simp: go_consts split: if_splits)
next
  case INull
  then show ?case using enc_item_headD [OF INull.prems(3)] by (cases y) (auto simp: go_consts split: if_splits)
qed

lemma enc_item_inject: "item_ok x \<Longrightarrow> item_ok y \<Longrightarrow> enc_item x = enc_item y \<longleftrightarrow> x = y"
  using enc_item_prefix_free [of x y "[]" "[]"] by auto

section \<open>Bounds and the relation of the two walks\<close>

lemma enc_item_nonempty: "enc_item x \<noteq> []"
  by (simp add: enc_item_parts)

lemma length_concat_items: "length xs \<le> length (concat (map enc_item xs))"
proof (induction xs)
  case (Cons x xs)
  have "0 < length (enc_item x)" using enc_item_nonempty by simp
  with Cons have "Suc (length xs) \<le> length (enc_item x) + length (concat (map enc_item xs))" by linarith
  then show ?case by simp
qed simp

lemma length_concat_pairs: "2 * length kvs \<le> length (concat (map enc_pair kvs))"
proof (induction kvs)
  case (Cons kv kvs)
  obtain k x where kv: "kv = (k, x)" by (cases kv)
  have "0 < length (enc_item x)" "0 < length (wire_int k)"
    using enc_item_nonempty int_codec.wire_nonempty by simp_all
  with Cons have "2 + 2 * length kvs \<le> length (wire_int k) + length (enc_item x) + length (concat (map enc_pair kvs))"
    by linarith
  then show ?case by (simp add: kv)
qed simp

text \<open>The loops are bounded by the input, whatever count the header announces.\<close>

lemma verifyItems_bound:
  assumes "verifyItems d n (at_pos pre s) = (Inr (), t)"
  shows "n \<le> length s"
proof -
  from verifyItems_sound [OF walk_sound assms] obtain xs s'
    where "length xs = n" "s = concat (map enc_item xs) @ s'" by blast
  then show ?thesis using length_concat_items [of xs] by simp
qed

lemma verifyPairs_bound:
  assumes "verifyPairs d n prev (at_pos pre s) = (Inr (), t)"
  shows "2 * n \<le> length s"
proof -
  from verifyPairs_sound [OF walk_sound assms] obtain kvs s'
    where "length kvs = n" "s = concat (map enc_pair kvs) @ s'" by blast
  then show ?thesis using length_concat_pairs [of kvs] by simp
qed

text \<open>Skipping agrees with verifying wherever the latter succeeds.\<close>

lemma DecodeInt_skip:
  assumes "DecodeInt dec = (Inr k, t)"
  shows "skipObject (Suc d) dec = (Inr (), t)"
proof -
  from assms obtain m v where h: "decodeHeader dec = (Inr (m, v), t)" and "m = majorUint \<or> m = majorNint"
    by (auto simp: DecodeInt_def elim!: andThen_InrE split: if_splits)
  then show ?thesis by (subst skipObject.simps) (simp add: h)
qed

lemma verify_skip_items:
  assumes "\<And>dec t. verifyObject d dec = (Inr (), t) \<Longrightarrow> skipObject d dec = (Inr (), t)"
  shows "verifyItems d n dec = (Inr (), t) \<Longrightarrow> skipItems d n dec = (Inr (), t)"
proof (induction n arbitrary: dec)
  case 0
  then show ?case by (simp add: verifyItems.simps skipItems.simps)
next
  case (Suc n)
  then show ?case
    by (subst (asm) verifyItems.simps, subst skipItems.simps) (auto simp: andThen_eq_Inr dest!: assms)
qed

lemma verify_skip_pairs:
  assumes "\<And>dec t. verifyObject d dec = (Inr (), t) \<Longrightarrow> skipObject d dec = (Inr (), t)"
  shows "verifyPairs d n prev dec = (Inr (), t) \<Longrightarrow> skipPairs d n dec = (Inr (), t)"
proof (induction n arbitrary: dec prev)
  case 0
  then show ?case by (simp add: verifyPairs.simps skipPairs.simps)
next
  case (Suc n)
  then obtain k t0 t1 where k: "DecodeInt dec = (Inr k, t0)" and v: "verifyObject d t0 = (Inr (), t1)"
    and r: "verifyPairs d n (Some k) t1 = (Inr (), t)"
    by (subst (asm) verifyPairs.simps) (auto simp: andThen_eq_Inr split: if_splits)
  obtain e where "d = Suc e" using v by (cases d) (auto simp: verifyObject.simps)
  then have "skipObject d dec = (Inr (), t0)" using k by (simp add: DecodeInt_skip)
  with assms [OF v] Suc.IH [OF r] show ?case by (subst skipPairs.simps) simp
qed

lemma verifyObject_skip: "verifyObject d dec = (Inr (), t) \<Longrightarrow> skipObject d dec = (Inr (), t)"
proof (induction d arbitrary: dec t)
  case 0
  then show ?case by (simp add: verifyObject.simps)
next
  case (Suc d)
  from Suc.prems obtain m v t1 where h: "decodeHeader dec = (Inr (m, v), t1)" and b: "walk_step d m v t1 t"
    by (rule verifyObject_Suc)
  note items = verify_skip_items [OF Suc.IH, of "unat v" t1 t]
  note pairs = verify_skip_pairs [OF Suc.IH, of "unat v" None t1 t]
  from b show ?case
    unfolding walk_step_def
  proof (elim disjE conjE exE)
  qed (subst skipObject.simps; simp add: h go_consts items pairs)+
qed


section \<open>Properties\<close>

text \<open>C2: \<^verbatim>\<open>Verify\<close> accepts exactly the canonical encodings of the supported data model: some
  item of unsigned and negative integers, byte strings, valid UTF-8 text, arrays, maps with
  strictly ascending integer keys, booleans and null, nested at most 32 levels deep, whose
  shortest encoding is the whole input.\<close>

theorem Verify_accepts_canonical:
  "Verify bs = Inr () \<longleftrightarrow> (\<exists>x. item_ok x \<and> depth_le maxDepth x \<and> bs = enc_item x)"
  by (rule Verify_iff)

text \<open>C3: an accepted input has one reading only, and no accepted input is a proper prefix of
  another, so two signers of the same data sign the same bytes and nothing can be appended.\<close>

theorem Verify_unambiguous:
  assumes "Verify bs = Inr ()"
  shows "(\<exists>!x. item_ok x \<and> bs = enc_item x) \<and> (Verify (bs @ t) = Inr () \<longleftrightarrow> t = [])"
proof -
  from assms obtain x where x: "item_ok x" "depth_le maxDepth x" and bs: "bs = enc_item x"
    by (auto simp: Verify_iff)
  then have "\<exists>!y. item_ok y \<and> bs = enc_item y"
    by (intro ex1I [of _ x]) (auto simp: enc_item_inject)
  moreover have "t = []" if "Verify (bs @ t) = Inr ()"
  proof -
    from that obtain y where "item_ok y" "enc_item x @ t = enc_item y @ []" by (auto simp: Verify_iff bs)
    then show ?thesis using enc_item_prefix_free [OF x(1), of y t "[]"] by simp
  qed
  ultimately show ?thesis using assms by auto
qed

lemma Verify_unambiguous_witness:
  "(\<exists>!x. item_ok x \<and> [0xA1, 0x01, 0xF6] = enc_item x) \<and> (Verify ([0xA1, 0x01, 0xF6] @ [0x00]) = Inr () \<longleftrightarrow> [0x00 :: byte] = [])"
  by (rule Verify_unambiguous) code_simp

lemma key_rank_sint: "int (key_rank k) = (if 0 \<le> sint k then sint k else 2 ^ 63 - 1 - sint k)"
proof (cases "0 \<le>s k")
  case True
  then have "unat k \<le> max_int" using nonneg_less [of k] by (simp add: max_int_def)
  then have "sint k = int (unat k)" by (simp only: sint_eq_nat)
  with True show ?thesis by (simp add: key_rank_def word_sle_eq del: of_nat_unat)
next
  case False
  then have neg: "sint k < 0" by (simp add: word_sle_eq)
  have "- (2 ^ 63) \<le> sint k" using sint_greater_eq [of k] by simp
  then have "(sint k + 2 ^ 64) mod 2 ^ 64 = sint k + 2 ^ 64"
    using neg by (intro mod_pos_pos_trivial) auto
  then have "uint k = sint k + 2 ^ 64" by (simp add: uint_sint take_bit_eq_mod)
  moreover have "int (unat (-1 - k)) = 2 ^ 64 - 1 - uint k"
    using unat_u64_less [of k] by (simp add: unat_neg_wire of_nat_diff)
  ultimately have "int (unat (-1 - k)) = -1 - sint k" by simp
  with False neg show ?thesis by (simp add: key_rank_def del: of_nat_unat)
qed

text \<open>\<^verbatim>\<open>mapKeyCmp\<close>, which compares the encodings byte by byte, is the documented order of
  integer keys: every non-negative key before every negative one, non-negative keys ascending,
  negative keys descending from -1; two different keys never compare equal.\<close>

theorem mapKeyCmp_order:
  "(mapKeyCmp a b < 0 \<longleftrightarrow>
      (if 0 \<le> sint a then sint b < 0 \<or> sint a < sint b else sint b < 0 \<and> sint b < sint a)) \<and>
   (mapKeyCmp a b = 0 \<longleftrightarrow> a = b) \<and> mapKeyCmp b a = - mapKeyCmp a b"
proof -
  have "key_rank a < key_rank b \<longleftrightarrow> int (key_rank a) < int (key_rank b)" by simp
  also have "\<dots> \<longleftrightarrow> (if 0 \<le> sint a then sint b < 0 \<or> sint a < sint b else sint b < 0 \<and> sint b < sint a)"
    using sint_less [of a] sint_less [of b] unfolding key_rank_sint by auto
  finally have "key_rank a < key_rank b \<longleftrightarrow>
      (if 0 \<le> sint a then sint b < 0 \<or> sint a < sint b else sint b < 0 \<and> sint b < sint a)" .
  moreover have "mapKeyCmp a b < 0 \<longleftrightarrow> key_rank a < key_rank b"
    by (simp add: mapKeyCmp_eq cmp_nat_def)
  moreover have "mapKeyCmp b a = - mapKeyCmp a b"
    by (simp add: mapKeyCmp_eq cmp_nat_def)
  ultimately show ?thesis by (simp only: mapKeyCmp_eq [of a b] cmp_nat_0 key_rank_inject)
qed

text \<open>The work of the validating walk is bounded by the input and not by the counts it
  announces: where the loop over an array of \<open>n\<close> items succeeds, at least \<open>n\<close> bytes were there,
  and where the loop over a map of \<open>n\<close> pairs succeeds, at least \<open>2 n\<close>. On an exhausted input the
  loops stop at their first iteration, whatever the count.\<close>

lemma verify_loops_bounded:
  "(verifyItems d n (at_pos pre s) = (Inr (), t) \<longrightarrow> n \<le> length s) \<and>
   (verifyPairs d n prev (at_pos pre s) = (Inr (), t) \<longrightarrow> 2 * n \<le> length s) \<and>
   (verifyItems (Suc d) (Suc n) (at_pos pre []) = (Inl ErrUnexpectedEOF, at_pos pre [])) \<and>
   (verifyPairs (Suc d) (Suc n) prev (at_pos pre []) = (Inl ErrUnexpectedEOF, at_pos pre []))"
proof -
  have "verifyObject (Suc d) (at_pos pre []) = (Inl ErrUnexpectedEOF, at_pos pre [])"
    by (subst verifyObject.simps) simp
  then show ?thesis
    by (auto simp: verifyItems.simps [of "Suc d" "Suc n"] verifyPairs.simps [of "Suc d" "Suc n"] DecodeInt_def
        dest: verifyItems_bound verifyPairs_bound)
qed

lemma verify_loops_bounded_witness:
  "verifyItems 1 2 (at_pos [] [0xF6, 0x00]) = (Inr (), at_pos [0xF6, 0x00] []) \<and>
   verifyPairs 1 1 None (at_pos [] [0x01, 0xF6]) = (Inr (), at_pos [0x01, 0xF6] []) \<and>
   (2 :: nat) \<le> length [0xF6, 0x00 :: byte] \<and> 2 * (1 :: nat) \<le> length [0x01, 0xF6 :: byte]"
proof -
  have a: "verifyItems 1 2 (at_pos [] [0xF6, 0x00]) = (Inr (), at_pos [0xF6, 0x00] [])"
    by code_simp
  have b: "verifyPairs 1 1 None (at_pos [] [0x01, 0xF6]) = (Inr (), at_pos [0x01, 0xF6] [])"
    by code_simp
  show ?thesis
    using verify_loops_bounded [of 1 2 "[]" "[0xF6, 0x00]" "at_pos [0xF6, 0x00] []" None]
      verify_loops_bounded [of 1 1 "[]" "[0x01, 0xF6]" "at_pos [0x01, 0xF6] []" None] a b
    by blast
qed

text \<open>C4: \<^verbatim>\<open>skipObject\<close>, which captures \<^verbatim>\<open>Raw\<close> values, moves over an accepted item exactly as the
  verifying walk does and consumes its whole encoding and nothing more, at every depth budget.\<close>

theorem skip_agrees_with_verify:
  assumes "item_ok x" and "depth_le d x"
  shows "skipObject d (at_pos pre (enc_item x @ s)) = (Inr (), at_pos (pre @ enc_item x) s) \<and>
    verifyObject d (at_pos pre (enc_item x @ s)) = (Inr (), at_pos (pre @ enc_item x) s)"
  using verifyObject_accepts [OF assms] verifyObject_skip by blast

lemma skip_agrees_with_verify_witness:
  "skipObject 2 (at_pos [] (enc_item (IArray [IUint 1, INull]) @ [])) =
     (Inr (), at_pos ([] @ enc_item (IArray [IUint 1, INull])) []) \<and>
   verifyObject 2 (at_pos [] (enc_item (IArray [IUint 1, INull]) @ [])) =
     (Inr (), at_pos ([] @ enc_item (IArray [IUint 1, INull])) [])"
proof (rule skip_agrees_with_verify)
  show "item_ok (IArray [IUint 1, INull])" by simp
  show "depth_le 2 (IArray [IUint 1, INull])" by (simp add: numeral_2_eq_2)
qed

end
