(* ===== verification/Cbor_Reflect.thy ===== *)
theory Cbor_Reflect
  imports Cbor_Verify
begin

text \<open>
  The reflective marshaller of \<^verbatim>\<open>src/cbor/reflect.go\<close>. A \<^verbatim>\<open>reflect.Type\<close> is a \<open>gtype\<close>, a
  \<^verbatim>\<open>reflect.Value\<close> a pair of a \<open>gtype\<close> and a \<open>gval\<close> of that type; the struct tags are the
  strings the code parses. A type whose pointer has the methods \<^verbatim>\<open>MarshalCBOR\<close> and
  \<^verbatim>\<open>UnmarshalCBOR\<close> is a \<open>TCustom\<close>: its methods are user code and a parameter (\<open>hooks\<close>). As in
  every such type of the repository its fields are unexported. \<open>decodeValue\<close> returns the new
  value of the variable it fills; the same function in place, with what a failed decoding leaves in
  the variable, is \<open>fillValue\<close> of \<open>Cbor_Fill\<close>.
\<close>

section \<open>Types and values\<close>

datatype gtype =
    TBool
  | TUint nat \<comment> \<open>\<^verbatim>\<open>uint8\<close> to \<^verbatim>\<open>uint64\<close>, by width\<close>
  | TInt nat
  | TString
  | TRaw
  | TBytes
  | TSlice gtype \<comment> \<open>a slice of anything but bytes\<close>
  | TByteArray nat
  | TArray nat gtype \<comment> \<open>an array of anything but bytes\<close>
  | TUnit
  | TNull
  | TStruct string "gfield list"
  | TPtr gtype
  | TCustom string
  | TOther string
and gfield = GField (f_name: string) (f_exported: bool) (f_tag: string) (f_type: gtype)

datatype 'c gval =
    VBool bool
  | VUint u64
  | VInt i64
  | VString bytes
  | VBytes "bytes option" \<comment> \<open>\<open>None\<close> is the nil slice\<close>
  | VArray bytes
  | VEmpty \<comment> \<open>the only value of \<open>TUnit\<close> and \<open>TNull\<close>\<close>
  | VStruct "'c gval list" \<comment> \<open>one value per field\<close>
  | VPtr "'c gval option"
  | VCustom "'c"
  | VOther

text \<open>The methods of the types that marshal themselves; a nil receiver is \<open>None\<close>.\<close>

record 'c hooks =
  marshalCBOR :: "string \<Rightarrow> 'c option \<Rightarrow> (encoder, cbor_error, unit) op"
  unmarshalCBOR :: "string \<Rightarrow> (decoder, cbor_error, 'c) op"
  zeroCustom :: "string \<Rightarrow> 'c"

lemma size_field_mem [simp, termination_simp]:
  "f \<in> set fs \<Longrightarrow> size (f_type f) < Suc (size_list size fs)"
proof (induction fs)
  case (Cons g fs)
  then show ?case by (cases g) auto
qed simp

lemma size_field_nth [simp, termination_simp]:
  "i < length fs \<Longrightarrow> size (f_type (fs ! i)) < Suc (size_list size fs)"
  by simp

text \<open>\<^verbatim>\<open>reflect.Zero\<close>\<close>

fun zero_val :: "'c hooks \<Rightarrow> gtype \<Rightarrow> 'c gval" where
  "zero_val hk TBool = VBool False"
| "zero_val hk (TUint b) = VUint 0"
| "zero_val hk (TInt b) = VInt 0"
| "zero_val hk TString = VString []"
| "zero_val hk TRaw = VBytes None"
| "zero_val hk TBytes = VBytes None"
| "zero_val hk (TSlice t) = VOther"
| "zero_val hk (TByteArray n) = VArray (replicate n 0)"
| "zero_val hk (TArray n t) = VOther"
| "zero_val hk TUnit = VEmpty"
| "zero_val hk TNull = VEmpty"
| "zero_val hk (TStruct nm fs) = VStruct (map (\<lambda>f. zero_val hk (f_type f)) fs)"
| "zero_val hk (TPtr t) = VPtr None"
| "zero_val hk (TCustom nm) = VCustom (zeroCustom hk nm)"
| "zero_val hk (TOther nm) = VOther"

section \<open>Struct tags\<close>

text \<open>
  \<^verbatim>\<open>strconv.ParseInt(s, 10, 64)\<close>: an optional sign, decimal digits, and a value that fits;
  \<open>None\<close> for the syntax and range errors.
\<close>

definition digit_val :: "char \<Rightarrow> int option" where
  "digit_val c = (if of_char c \<ge> (48 :: int) \<and> of_char c \<le> (57 :: int) then Some (of_char c - 48) else None)"

fun parse_digits :: "int \<Rightarrow> string \<Rightarrow> int option" where
  "parse_digits n [] = Some n"
| "parse_digits n (c # cs) =
     (case digit_val c of None \<Rightarrow> None | Some d \<Rightarrow> parse_digits (10 * n + d) cs)"

definition ParseInt :: "string \<Rightarrow> i64 option" where
  "ParseInt s =
     (let neg = (case s of c # _ \<Rightarrow> c = CHR ''-'' | [] \<Rightarrow> False);
          sgned = (case s of c # _ \<Rightarrow> c = CHR ''-'' \<or> c = CHR ''+'' | [] \<Rightarrow> False);
          digits = (if sgned then tl s else s)
      in if digits = [] then None
         else case parse_digits 0 digits of
           None \<Rightarrow> None
         | Some n \<Rightarrow>
             if neg then (if n \<le> 2 ^ 63 then Some (- of_int n) else None)
             else (if n < 2 ^ 63 then Some (of_int n) else None))"

definition tag_parts :: "string \<Rightarrow> string list" where
  "tag_parts tag = split_on CHR '','' tag"

definition structFields :: "gfield list \<Rightarrow> gfield list" where
  "structFields fs = filter f_exported fs"

text \<open>The tag may be on any field, exported or not.\<close>

definition wantArray :: "gfield list \<Rightarrow> bool" where
  "wantArray fs \<longleftrightarrow> (\<exists>f \<in> set fs. f_tag f \<noteq> [] \<and> ''array'' \<in> set (tl (tag_parts (f_tag f))))"

text \<open>A \<^verbatim>\<open>reflect.StructField\<close> is represented by its index in the struct.\<close>

record fieldInfo =
  fi_field :: nat
  fi_key :: i64
  fi_optional :: bool

fun mapFieldsFrom :: "nat \<Rightarrow> gfield list \<Rightarrow> cbor_error + fieldInfo list" where
  "mapFieldsFrom i [] = Inr []"
| "mapFieldsFrom i (f # fs) =
     (if \<not> f_exported f then mapFieldsFrom (Suc i) fs
      else if f_tag f = [] then mapFieldsFrom (Suc i) fs
      else
        let parts = tag_parts (f_tag f);
            hasKeyAsInt = (''key'' \<in> set (tl parts));
            opt = (''optional'' \<in> set (tl parts))
        in if \<not> hasKeyAsInt then mapFieldsFrom (Suc i) fs
           else if hd parts = '''' \<or> hd parts = ''_'' then Inl ErrUnsupportedType
           else case ParseInt (hd parts) of
             None \<Rightarrow> Inl ErrUnsupportedType
           | Some k \<Rightarrow>
               (case mapFieldsFrom (Suc i) fs of
                  Inl e \<Rightarrow> Inl e
                | Inr infos \<Rightarrow> Inr (\<lparr>fi_field = i, fi_key = k, fi_optional = opt\<rparr> # infos)))"

definition mapFields :: "gfield list \<Rightarrow> cbor_error + fieldInfo list" where
  "mapFields fs = mapFieldsFrom 0 fs"

record arrayFieldInfo =
  afi_field :: nat
  afi_optional :: bool

fun arrayFieldsFrom :: "nat \<Rightarrow> gfield list \<Rightarrow> arrayFieldInfo list" where
  "arrayFieldsFrom i [] = []"
| "arrayFieldsFrom i (f # fs) =
     (if \<not> f_exported f then arrayFieldsFrom (Suc i) fs
      else
        \<lparr>afi_field = i,
         afi_optional = (f_tag f \<noteq> [] \<and> ''optional'' \<in> set (tl (tag_parts (f_tag f))))\<rparr>
        # arrayFieldsFrom (Suc i) fs)"

definition arrayFields :: "gfield list \<Rightarrow> arrayFieldInfo list" where
  "arrayFields fs = arrayFieldsFrom 0 fs"

text \<open>\<^verbatim>\<open>isOptionType\<close> looks at the names of the fields and the kind of the second one.\<close>

definition isOptionType :: "gtype \<Rightarrow> bool" where
  "isOptionType t =
     (case t of
        TStruct nm [f0, f1] \<Rightarrow> f_name f0 = ''Value'' \<and> f_name f1 = ''Some'' \<and> f_type f1 = TBool
      | _ \<Rightarrow> False)"

text \<open>\<^verbatim>\<open>Option[T]\<close> and its two constructors.\<close>

definition Option_type :: "gtype \<Rightarrow> gtype" where
  "Option_type t = TStruct ''Option'' [GField ''Value'' True [] t, GField ''Some'' True [] TBool]"

definition MakeSome :: "'c gval \<Rightarrow> 'c gval" where
  "MakeSome v = VStruct [v, VBool True]"

definition MakeNone :: "'c hooks \<Rightarrow> gtype \<Rightarrow> 'c gval" where
  "MakeNone hk t = zero_val hk (Option_type t)"

text \<open>
  \<^verbatim>\<open>slices.SortFunc\<close> by \<^verbatim>\<open>mapKeyCmp\<close>; the order of equal keys, which the library leaves open,
  is the declaration order here.
\<close>

fun insert_field :: "fieldInfo \<Rightarrow> fieldInfo list \<Rightarrow> fieldInfo list" where
  "insert_field x [] = [x]"
| "insert_field x (y # ys) =
     (if mapKeyCmp (fi_key x) (fi_key y) \<le> 0 then x # y # ys else y # insert_field x ys)"

definition sort_fields :: "fieldInfo list \<Rightarrow> fieldInfo list" where
  "sort_fields fis = foldr insert_field fis []"

lemma arrayFieldsFrom_index: "f \<in> set (arrayFieldsFrom i fs) \<Longrightarrow> i \<le> afi_field f \<and> afi_field f < i + length fs"
  by (induction i fs rule: arrayFieldsFrom.induct) (fastforce split: if_splits)+

lemma arrayFields_index: "f \<in> set (arrayFields fs) \<Longrightarrow> afi_field f < length fs"
  using arrayFieldsFrom_index [of f 0 fs] by (simp add: arrayFields_def)

lemma mapFieldsFrom_index:
  "mapFieldsFrom i fs = Inr fis \<Longrightarrow> f \<in> set fis \<Longrightarrow> i \<le> fi_field f \<and> fi_field f < i + length fs"
  by (induction i fs arbitrary: fis rule: mapFieldsFrom.induct)
    (fastforce simp: Let_def split: if_splits option.splits sum.splits)+

lemma mapFields_index: "mapFields fs = Inr fis \<Longrightarrow> f \<in> set fis \<Longrightarrow> fi_field f < length fs"
  using mapFieldsFrom_index [of 0 fs fis f] by (simp add: mapFields_def)

lemma set_insert_field [simp]: "set (insert_field x ys) = insert x (set ys)"
  by (induction ys) auto

lemma set_sort_fields [simp]: "set (sort_fields fis) = set fis"
  by (induction fis) (auto simp: sort_fields_def)

lemma isOptionType_length: "isOptionType (TStruct nm fs) \<Longrightarrow> 0 < length fs"
  by (auto simp: isOptionType_def split: list.splits)

section \<open>Encoding\<close>

function encodeValue :: "'c hooks \<Rightarrow> gtype \<Rightarrow> 'c gval \<Rightarrow> bool \<Rightarrow> bool \<Rightarrow> (encoder, cbor_error, unit) op" where
  "encodeValue hk ty v canAddr optional =
     (case (ty, v) of
        (TCustom nm, VCustom c) \<Rightarrow>
          if canAddr then marshalCBOR hk nm (Some c)
          else emit (EncodeMapHeader 0) \<comment> \<open>no exported field: an empty map\<close>
      | (TPtr (TCustom nm), VPtr (Some (VCustom c))) \<Rightarrow> marshalCBOR hk nm (Some c)
      | (TPtr (TCustom nm), VPtr None) \<Rightarrow> marshalCBOR hk nm None
      | (TBool, VBool b) \<Rightarrow> emit (EncodeBool b)
      | (TUint _, VUint n) \<Rightarrow> emit (EncodeUint n)
      | (TInt _, VInt n) \<Rightarrow> emit (EncodeInt n)
      | (TString, VString s) \<Rightarrow> EncodeText s
      | (TRaw, VBytes bs) \<Rightarrow> emit (append_buf (case bs of None \<Rightarrow> [] | Some b \<Rightarrow> b))
      | (TBytes, VBytes None) \<Rightarrow> if \<not> optional then fail ErrUnexpectedNil else emit EncodeNull
      | (TBytes, VBytes (Some bs)) \<Rightarrow> emit (EncodeBytes bs)
      | (TByteArray _, VArray bs) \<Rightarrow> emit (EncodeBytes bs)
      | (TUnit, _) \<Rightarrow> emit (EncodeArrayHeader 0)
      | (TNull, _) \<Rightarrow> emit EncodeNull
      | (TStruct nm fs, VStruct vs) \<Rightarrow>
          if isOptionType ty then
            (if vs ! 1 \<noteq> VBool True then emit EncodeNull
             else encodeValue hk (f_type (fs ! 0)) (vs ! 0) canAddr False)
          else if wantArray fs then
            andThen (emit (EncodeArrayHeader (int (length (arrayFields fs))))) (\<lambda>_.
              seq_ops (map (\<lambda>f. encodeValue hk (f_type (fs ! afi_field f)) (vs ! afi_field f) canAddr (afi_optional f))
                (arrayFields fs)))
          else
            (case mapFields fs of
               Inl e \<Rightarrow> fail e
             | Inr mf \<Rightarrow>
                 if mf = [] \<and> structFields fs \<noteq> [] then fail ErrUnsupportedType
                 else andThen (emit (EncodeMapHeader (int (length mf)))) (\<lambda>_.
                   seq_ops (map (\<lambda>f. andThen (emit (EncodeInt (fi_key f))) (\<lambda>_.
                       encodeValue hk (f_type (fs ! fi_field f)) (vs ! fi_field f) canAddr (fi_optional f)))
                     (sort_fields mf))))
      | (TPtr t, VPtr None) \<Rightarrow> if \<not> optional then fail ErrUnexpectedNil else emit EncodeNull
      | (TPtr t, VPtr (Some x)) \<Rightarrow> encodeValue hk t x True False
      | _ \<Rightarrow> fail ErrUnsupportedType)"
  by pat_completeness auto
termination
  by (relation "measure (\<lambda>(hk, ty, v, _). size ty)")
    (auto dest!: arrayFields_index mapFields_index isOptionType_length)

declare encodeValue.simps [simp del]

text \<open>
  \<^verbatim>\<open>Marshal(v any)\<close>: the value inside the interface is not addressable. A caller who passes a
  pointer, as every caller in the repository that marshals a struct does, passes a \<open>TPtr\<close>.
\<close>

definition Marshal :: "'c hooks \<Rightarrow> gtype \<Rightarrow> 'c gval \<Rightarrow> cbor_error + bytes" where
  "Marshal hk ty v =
     (case encodeValue hk ty v False False NewEncoder of
        (Inl e, _) \<Rightarrow> Inl e
      | (Inr _, enc) \<Rightarrow> Inr (Encoder_Bytes enc))"

section \<open>Decoding\<close>

text \<open>
  \<open>decodeValue\<close> is the part of the Go function that looks for an \<^verbatim>\<open>Unmarshaler\<close> and handles
  pointers, \<open>decodeKind\<close> the \<^verbatim>\<open>switch v.Kind()\<close> it falls into. Every value it reaches is
  addressable. \<open>old\<close> is the value the variable holds before.
\<close>

definition set_uint :: "nat \<Rightarrow> u64 \<Rightarrow> 'c gval" where
  "set_uint b n = VUint (take_bit b n)" \<comment> \<open>\<^verbatim>\<open>SetUint\<close> keeps the low bits\<close>

definition set_int :: "nat \<Rightarrow> i64 \<Rightarrow> 'c gval" where
  "set_int b n = VInt (signed_take_bit (b - 1) n)"

text \<open>\<^verbatim>\<open>keyToField[mf.key] = mf\<close> for every field in order: the last one wins.\<close>

definition keyToField :: "fieldInfo list \<Rightarrow> i64 \<rightharpoonup> fieldInfo" where
  "keyToField mf = map_of (rev (map (\<lambda>f. (fi_key f, f)) mf))"

lemma keyToField_mem: "keyToField mf k = Some f \<Longrightarrow> f \<in> set mf \<and> fi_key f = k"
  by (auto simp: keyToField_def dest!: map_of_SomeD)

text \<open>
  One round of the loop over the entries of a map: \<open>dec\<close> decodes into a field, \<open>vs\<close> are the values of
  the fields so far.
\<close>

definition map_step :: "(fieldInfo \<Rightarrow> 'a \<Rightarrow> (decoder, cbor_error, 'a) op) \<Rightarrow> fieldInfo list \<Rightarrow>
    'a list \<times> i64 option \<Rightarrow> nat \<Rightarrow> (decoder, cbor_error, 'a list \<times> i64 option) op" where
  "map_step dec mf = (\<lambda>(vs, prevKey) _.
     andThen DecodeInt (\<lambda>key.
       if (case prevKey of None \<Rightarrow> False | Some p \<Rightarrow> mapKeyCmp p key = 0) then fail ErrDuplicateMapKey
       else if (case prevKey of None \<Rightarrow> False | Some p \<Rightarrow> mapKeyCmp p key > 0) then fail ErrInvalidMapKeyOrder
       else case keyToField mf key of
         None \<Rightarrow> fail ErrUnsupportedType
       | Some fi \<Rightarrow> andThen (dec fi (vs ! fi_field fi)) (\<lambda>x. ret (vs[fi_field fi := x], Some key))))"

lemma map_step_cong [fundef_cong]:
  assumes "mf = mf'" and "st = st'" and "n = n'" and "\<And>fi vs. fi \<in> set mf' \<Longrightarrow> dec fi vs = dec' fi vs"
  shows "map_step dec mf st n = map_step dec' mf' st' n'"
proof -
  have "map_step dec mf' (vs, prev) n' = map_step dec' mf' (vs, prev) n'" for vs prev
    unfolding map_step_def prod.case
    by (rule arg_cong [where f = "andThen DecodeInt"], rule ext)
       (use assms(4) keyToField_mem in \<open>simp split: option.split\<close>)
  with assms(1,2,3) show ?thesis by (cases st') simp
qed

definition old_fields :: "'c gval \<Rightarrow> 'c gval list" where
  "old_fields v = (case v of VStruct vs \<Rightarrow> vs | _ \<Rightarrow> [])"

function decodeValue :: "'c hooks \<Rightarrow> gtype \<Rightarrow> 'c gval \<Rightarrow> bool \<Rightarrow> (decoder, cbor_error, 'c gval) op"
  and decodeKind :: "'c hooks \<Rightarrow> gtype \<Rightarrow> 'c gval \<Rightarrow> bool \<Rightarrow> (decoder, cbor_error, 'c gval) op"
where
  "decodeValue hk ty old optional =
     (case ty of
        TCustom nm \<Rightarrow> andThen (unmarshalCBOR hk nm) (\<lambda>c. ret (VCustom c))
      | TPtr t \<Rightarrow>
          (case t of
             TCustom nm \<Rightarrow> andThen (unmarshalCBOR hk nm) (\<lambda>c. ret (VPtr (Some (VCustom c))))
           | _ \<Rightarrow> (\<lambda>dec.
               if \<not> isOptionType t \<and> PeekNull dec then
                 (if \<not> optional then fail ErrUnexpectedNull
                  else andThen DecodeNull (\<lambda>_. ret (VPtr None))) dec
               else
                 andThen (decodeKind hk t (case old of VPtr (Some x) \<Rightarrow> x | _ \<Rightarrow> zero_val hk t) False)
                   (\<lambda>x. ret (VPtr (Some x))) dec))
      | _ \<Rightarrow> decodeKind hk ty old optional)"
| "decodeKind hk ty old optional =
     (case ty of
        TBool \<Rightarrow> andThen DecodeBool (\<lambda>b. ret (VBool b))
      | TUint b \<Rightarrow> andThen DecodeUint (\<lambda>n. ret (set_uint b n))
      | TInt b \<Rightarrow> andThen DecodeInt (\<lambda>n. ret (set_int b n))
      | TString \<Rightarrow> andThen DecodeText (\<lambda>s. ret (VString s))
      | TRaw \<Rightarrow> (\<lambda>dec. andThen (skipObject maxDepth)
          (\<lambda>_ dec'. ret (VBytes (Some (take (pos dec' - pos dec) (drop (pos dec) (data dec))))) dec') dec)
      | TBytes \<Rightarrow> (\<lambda>dec.
          if PeekNull dec then
            (if \<not> optional then fail ErrUnexpectedNull
             else andThen DecodeNull (\<lambda>_. ret (VBytes None))) dec
          else andThen DecodeBytes (\<lambda>bs. ret (VBytes (Some bs))) dec)
      | TByteArray n \<Rightarrow> andThen (DecodeBytesFixed (int n)) (\<lambda>bs. ret (VArray bs))
      | TUnit \<Rightarrow> andThen DecodeArrayHeader (\<lambda>len. if len \<noteq> 0 then fail ErrUnexpectedItemCount else ret VEmpty)
      | TNull \<Rightarrow> andThen DecodeNull (\<lambda>_. ret VEmpty)
      | TStruct nm fs \<Rightarrow>
          if isOptionType ty then (\<lambda>dec.
            if PeekNull dec then
              andThen DecodeNull (\<lambda>_. ret (VStruct [zero_val hk (f_type (fs ! 0)), VBool False])) dec
            else
              andThen (decodeValue hk (f_type (fs ! 0)) (old_fields old ! 0) False)
                (\<lambda>x. ret (VStruct [x, VBool True])) dec)
          else if wantArray fs then
            andThen DecodeArrayHeader (\<lambda>len.
              if sint len \<noteq> int (length (arrayFields fs)) then fail ErrUnexpectedItemCount
              else andThen (fold_ops (\<lambda>vs f.
                  andThen (decodeValue hk (f_type (fs ! afi_field f)) (vs ! afi_field f) (afi_optional f))
                    (\<lambda>x. ret (vs[afi_field f := x])))
                (old_fields old) (arrayFields fs)) (\<lambda>vs. ret (VStruct vs)))
          else
            (case mapFields fs of
               Inl e \<Rightarrow> fail e
             | Inr mf \<Rightarrow>
                 if mf = [] \<and> structFields fs \<noteq> [] then fail ErrUnsupportedType
                 else andThen DecodeMapHeader (\<lambda>len.
                   if sint len \<noteq> int (length mf) then fail ErrUnexpectedItemCount
                   else andThen (fold_ops (map_step (\<lambda>fi old. decodeValue hk (f_type (fs ! fi_field fi)) old (fi_optional fi)) mf)
                     (old_fields old, None) [0..<unat len]) (\<lambda>(vs, _). ret (VStruct vs))))
      | TCustom nm \<Rightarrow> fail ErrUnsupportedType \<comment> \<open>not reached: \<open>decodeValue\<close> has called the method\<close>
      | _ \<Rightarrow> fail ErrUnsupportedType)"
  by pat_completeness auto
termination
  by (relation "measures [\<lambda>a. case a of Inl (hk, ty, _) \<Rightarrow> size ty | Inr (hk, ty, _) \<Rightarrow> size ty,
        \<lambda>a. case a of Inl _ \<Rightarrow> 1 | Inr _ \<Rightarrow> 0]")
    (auto dest!: arrayFields_index mapFields_index isOptionType_length keyToField_mem)

declare decodeValue.simps [simp del] decodeKind.simps [simp del]

text \<open>\<^verbatim>\<open>Unmarshal(data, &x)\<close> for a variable \<^verbatim>\<open>x\<close> of type \<open>ty\<close> that holds \<open>old\<close>.\<close>

definition Unmarshal :: "'c hooks \<Rightarrow> bytes \<Rightarrow> gtype \<Rightarrow> 'c gval \<Rightarrow> cbor_error + 'c gval" where
  "Unmarshal hk bs ty old =
     (case decodeValue hk (TPtr ty) (VPtr (Some old)) False (NewDecoder bs) of
        (Inl e, _) \<Rightarrow> Inl e
      | (Inr v, dec) \<Rightarrow>
          (case Finish dec of Inl e \<Rightarrow> Inl e
           | Inr _ \<Rightarrow> (case v of VPtr (Some x) \<Rightarrow> Inr x | _ \<Rightarrow> Inr old)))"

end
