(* ===== verification/Cbor_Marshal.thy ===== *)
theory Cbor_Marshal
  imports Cbor_Reflect
begin

text \<open>
  Correctness of the reflective marshaller: the values a type can carry over the wire
  (\<open>val_ok\<close>), \<open>Unmarshal\<close> inverts \<open>Marshal\<close> on them, and what \<open>Unmarshal\<close> accepts is what
  \<open>Marshal\<close> writes for the decoded value. The methods of custom types are assumed to keep
  the contract \<open>wire_codec\<close> of the low-level codecs.
\<close>

section \<open>Locality of skipping\<close>

lemma local_if: "local_op f \<Longrightarrow> local_op g \<Longrightarrow> local_op (if b then f else g)"
  by simp

lemma local_case_prod: "(\<And>a b. local_op (f a b)) \<Longrightarrow> local_op (case x of (a, b) \<Rightarrow> f a b)"
  by (cases x) simp

lemma local_skip_items: "local_op (skipObject d) \<Longrightarrow> local_op (skipItems d n)"
proof (induction n)
  case 0
  have "skipItems d 0 = ret ()" by (rule ext) (simp add: skipItems.simps)
  then show ?case by (simp only: local_ret)
next
  case (Suc n)
  have "skipItems d (Suc n) = andThen (skipObject d) (\<lambda>_. skipItems d n)"
    by (rule ext) (simp add: skipItems.simps)
  then show ?case using Suc by auto
qed

lemma local_skip_pairs: "local_op (skipObject d) \<Longrightarrow> local_op (skipPairs d n)"
proof (induction n)
  case 0
  have "skipPairs d 0 = ret ()" by (rule ext) (simp add: skipPairs.simps)
  then show ?case by (simp only: local_ret)
next
  case (Suc n)
  have "skipPairs d (Suc n) = andThen (skipObject d) (\<lambda>_. andThen (skipObject d) (\<lambda>_. skipPairs d n))"
    by (rule ext) (simp add: skipPairs.simps)
  then show ?case using Suc by auto
qed

lemma local_skipObject: "local_op (skipObject d)"
proof (induction d)
  case 0
  have "skipObject 0 = fail ErrMaxDepthExceeded" by (rule ext) (simp add: skipObject.simps)
  then show ?case by (simp only: local_fail)
next
  case (Suc d)
  have "skipObject (Suc d) = andThen decodeHeader (\<lambda>(major, value).
        if major = majorUint \<or> major = majorNint then ret ()
        else if major = majorBytes \<or> major = majorText then andThen (readBytes value) (\<lambda>_. ret ())
        else if major = majorArray then skipItems d (unat value)
        else if major = majorMap then skipPairs d (unat value)
        else if major = majorSimple then
          (if value = ucast simpleFalse \<or> value = ucast simpleTrue \<or> value = ucast simpleNull
           then ret () else fail ErrUnsupportedType)
        else fail ErrUnsupportedType)"
    by (rule ext) (simp add: skipObject.simps cong del: prod.case_cong_weak if_weak_cong)
  then show ?case
    by (simp only:) (intro local_andThen local_case_prod local_if local_decodeHeader local_readBytes local_ret local_fail
        local_skip_items [OF Suc] local_skip_pairs [OF Suc])
qed

lemma skipObject_nonempty: "\<not> reads (skipObject d) [] ()"
proof
  assume "reads (skipObject d) [] ()"
  from readsD [OF this, of "[]" "[]"] show False
    by (subst (asm) skipObject.simps) (auto split: if_splits)
qed


section \<open>Values that survive the wire\<close>

text \<open>The values whose encoding is the null byte.\<close>

function null_val :: "gtype \<Rightarrow> 'c gval \<Rightarrow> bool" where
  "null_val ty v =
     (case (ty, v) of
        (TPtr t, VPtr None) \<Rightarrow> True
      | (TPtr t, VPtr (Some x)) \<Rightarrow> null_val t x
      | (TBytes, VBytes None) \<Rightarrow> True
      | (TNull, _) \<Rightarrow> True
      | (TRaw, VBytes (Some bs)) \<Rightarrow> bs = wire_null
      | (TStruct nm fs, VStruct vs) \<Rightarrow>
          if isOptionType ty then vs ! 1 \<noteq> VBool True \<or> null_val (f_type (fs ! 0)) (vs ! 0) else False
      | _ \<Rightarrow> False)"
  by pat_completeness auto
termination
  by (relation "measure (\<lambda>(ty, v). size ty)") (auto dest!: isOptionType_length)

declare null_val.simps [simp del]

definition raw_ok :: "bytes \<Rightarrow> bool" where
  "raw_ok bs \<longleftrightarrow> skipObject maxDepth (NewDecoder bs) = (Inr (), at_pos bs [])"

text \<open>
  \<open>val_ok hk cok ty v optional\<close>: a value of type \<open>ty\<close> that can be written and read back, in a
  field marked optional or not. Numbers fit the width of their type; a nil pointer or slice
  is in an optional field; nothing that encodes as null is behind an option or a pointer;
  the keys of a map struct differ; the fields that are not encoded are zero.
\<close>

definition fields_of :: "gfield list \<Rightarrow> cbor_error + (nat \<times> bool) list" where
  "fields_of fs =
     (if wantArray fs then Inr (map (\<lambda>f. (afi_field f, afi_optional f)) (arrayFields fs))
      else case mapFields fs of
        Inl e \<Rightarrow> Inl e
      | Inr mf \<Rightarrow>
          if mf = [] \<and> structFields fs \<noteq> [] then Inl ErrUnsupportedType
          else Inr (map (\<lambda>f. (fi_field f, fi_optional f)) mf))"

lemma fields_of_index:
  assumes "fields_of fs = Inr ios" and "p \<in> set ios"
  shows "fst p < length fs"
proof (cases "wantArray fs")
  case True
  with assms have "ios = map (\<lambda>f. (afi_field f, afi_optional f)) (arrayFields fs)"
    by (simp add: fields_of_def)
  with assms(2) show ?thesis using arrayFields_index by auto
next
  case False
  with assms obtain mf where m: "mapFields fs = Inr mf" and "ios = map (\<lambda>f. (fi_field f, fi_optional f)) mf"
    by (auto simp: fields_of_def split: sum.splits if_splits)
  with assms(2) show ?thesis using mapFields_index [OF m] by auto
qed

definition distinct_keys :: "gfield list \<Rightarrow> bool" where
  "distinct_keys fs \<longleftrightarrow>
     wantArray fs \<or> (case mapFields fs of Inl e \<Rightarrow> False | Inr mf \<Rightarrow> distinct (map fi_key mf))"

definition encoded :: "gfield list \<Rightarrow> nat \<Rightarrow> bool" where
  "encoded fs i \<longleftrightarrow> (case fields_of fs of Inl e \<Rightarrow> False | Inr ios \<Rightarrow> i \<in> fst ` set ios)"

definition is_custom :: "gtype \<Rightarrow> bool" where
  "is_custom t \<longleftrightarrow> (case t of TCustom nm \<Rightarrow> True | _ \<Rightarrow> False)"

definition is_ptr :: "gtype \<Rightarrow> bool" where
  "is_ptr t \<longleftrightarrow> (case t of TPtr u \<Rightarrow> True | _ \<Rightarrow> False)"

lemma is_custom_iff: "is_custom t \<longleftrightarrow> (\<exists>nm. t = TCustom nm)"
  by (cases t) (simp_all add: is_custom_def)

lemma is_ptr_iff: "is_ptr t \<longleftrightarrow> (\<exists>u. t = TPtr u)"
  by (cases t) (simp_all add: is_ptr_def)

function val_ok :: "'c hooks \<Rightarrow> (string \<Rightarrow> 'c \<Rightarrow> bool) \<Rightarrow> gtype \<Rightarrow> 'c gval \<Rightarrow> bool \<Rightarrow> bool" where
  "val_ok hk cok ty v optional =
     (case (ty, v) of
        (TCustom nm, VCustom c) \<Rightarrow> cok nm c
      | (TBool, VBool b) \<Rightarrow> True
      | (TUint b, VUint n) \<Rightarrow> take_bit b n = n
      | (TInt b, VInt n) \<Rightarrow> signed_take_bit (b - 1) n = n
      | (TString, VString s) \<Rightarrow> go_slice s \<and> utf8_valid s
      | (TRaw, VBytes (Some bs)) \<Rightarrow> raw_ok bs
      | (TBytes, VBytes None) \<Rightarrow> optional
      | (TBytes, VBytes (Some bs)) \<Rightarrow> go_slice bs
      | (TByteArray n, VArray bs) \<Rightarrow> length bs = n \<and> go_slice bs
      | (TUnit, VEmpty) \<Rightarrow> True
      | (TNull, VEmpty) \<Rightarrow> True
      | (TStruct nm fs, VStruct vs) \<Rightarrow>
          go_slice fs \<and> length vs = length fs \<and>
          (if isOptionType ty then
             (vs ! 1 = VBool True \<and> val_ok hk cok (f_type (fs ! 0)) (vs ! 0) False \<and>
                \<not> null_val (f_type (fs ! 0)) (vs ! 0)) \<or>
             (vs ! 1 = VBool False \<and> vs ! 0 = zero_val hk (f_type (fs ! 0)))
           else
             distinct_keys fs \<and>
             (\<forall>i < length fs. encoded fs i \<or> vs ! i = zero_val hk (f_type (fs ! i))) \<and>
             (case fields_of fs of
                Inl e \<Rightarrow> False
              | Inr ios \<Rightarrow> \<forall>p \<in> set ios. val_ok hk cok (f_type (fs ! fst p)) (vs ! fst p) (snd p)))
      | (TPtr t, VPtr None) \<Rightarrow> optional \<and> \<not> isOptionType t \<and> \<not> is_custom t
      | (TPtr t, VPtr (Some x)) \<Rightarrow>
          \<not> is_ptr t \<and> val_ok hk cok t x False \<and> (isOptionType t \<or> \<not> null_val t x)
      | _ \<Rightarrow> False)"
  by pat_completeness auto
termination
  by (relation "measure (\<lambda>(hk, cok, ty, v, _). size ty)")
    (auto dest!: fields_of_index isOptionType_length)

declare val_ok.simps [simp del]


section \<open>Sequences of fields\<close>

definition emits :: "(encoder, cbor_error, unit) op \<Rightarrow> bytes \<Rightarrow> bool" where
  "emits f w \<longleftrightarrow> (\<forall>e. f e = (Inr (), append_buf w e))"

lemma emits_emit: "emits (emit (append_buf w)) w"
  by (simp add: emits_def)

lemma emits_andThen: "emits f w \<Longrightarrow> emits g v \<Longrightarrow> emits (andThen f (\<lambda>_. g)) (w @ v)"
  by (simp add: emits_def)

lemma emits_seq_ops:
  "(\<And>x. x \<in> set xs \<Longrightarrow> emits (f x) (w x)) \<Longrightarrow> emits (seq_ops (map f xs)) (concat (map w xs))"
  by (induction xs) (auto simp: emits_def)

definition set_fields :: "('x \<Rightarrow> nat) \<Rightarrow> 'a list \<Rightarrow> 'x list \<Rightarrow> 'a list \<Rightarrow> 'a list" where
  "set_fields idx v ps vs = fold (\<lambda>p vs. vs[idx p := v ! idx p]) ps vs"

lemma set_fields_simps [simp]:
  "set_fields idx v [] vs = vs"
  "set_fields idx v (p # ps) vs = set_fields idx v ps (vs[idx p := v ! idx p])"
  by (simp_all add: set_fields_def)

lemma length_set_fields [simp]: "length (set_fields idx v ps vs) = length vs"
  by (induction ps arbitrary: vs) simp_all

lemma nth_set_fields:
  "i < length vs \<Longrightarrow> set_fields idx v ps vs ! i = (if i \<in> idx ` set ps then v ! i else vs ! i)"
  by (induction ps arbitrary: vs) (auto simp: nth_list_update)

lemma set_fields_id:
  assumes "length v = length vs" and "\<And>i. i < length vs \<Longrightarrow> i \<in> idx ` set ps \<or> v ! i = vs ! i"
  shows "set_fields idx v ps vs = v"
  using assms by (intro nth_equalityI) (force simp: nth_set_fields)+

lemma reads_fold_Cons:
  "reads (f a x) w b \<Longrightarrow> reads (fold_ops f b xs) v c \<Longrightarrow> reads (fold_ops f a (x # xs)) (w @ v) c"
  by (simp add: reads_def)

lemma reads_array_fields:
  assumes "distinct (map idx ps)"
    and "\<And>p. p \<in> set ps \<Longrightarrow> reads (dec p (vs ! idx p)) (w p) (v ! idx p)"
  shows "reads (fold_ops (\<lambda>vs p. andThen (dec p (vs ! idx p)) (\<lambda>x. ret (vs[idx p := x]))) vs ps)
    (concat (map w ps)) (set_fields idx v ps vs)"
  using assms
proof (induction ps arbitrary: vs)
  case Nil
  then show ?case by (simp add: reads_def)
next
  case (Cons p ps)
  let ?vs = "vs[idx p := v ! idx p]"
  have "reads (andThen (dec p (vs ! idx p)) (\<lambda>x. ret (vs[idx p := x]))) (w p) ?vs"
    using Cons.prems(2) [of p] by (simp add: reads_def)
  moreover have "reads (fold_ops (\<lambda>vs p. andThen (dec p (vs ! idx p)) (\<lambda>x. ret (vs[idx p := x]))) ?vs ps)
      (concat (map w ps)) (set_fields idx v ps ?vs)"
  proof (rule Cons.IH)
    show "reads (dec q (?vs ! idx q)) (w q) (v ! idx q)" if q: "q \<in> set ps" for q
    proof -
      have "idx q \<noteq> idx p" using Cons.prems(1) q by (metis distinct.simps(2) image_eqI list.map(2) set_map)
      then show ?thesis using Cons.prems(2) [of q] q by simp
    qed
  qed (use Cons.prems in simp)
  ultimately show ?case unfolding list.map concat.simps set_fields_simps by (rule reads_fold_Cons)
qed

definition after_key :: "i64 option \<Rightarrow> i64 \<Rightarrow> bool" where
  "after_key prev k \<longleftrightarrow> (case prev of None \<Rightarrow> True | Some p \<Rightarrow> mapKeyCmp p k < 0)"

lemma reads_DecodeInt: "reads DecodeInt (wire_int k) k"
  by (simp add: reads_def int_codec.dec_wire)

lemma reads_map_step:
  assumes "after_key prev (fi_key p)" and "keyToField mf (fi_key p) = Some p"
    and "reads (dec p (vs ! fi_field p)) w x"
  shows "reads (map_step dec mf (vs, prev) n) (wire_int (fi_key p) @ w) (vs[fi_field p := x], Some (fi_key p))"
  unfolding map_step_def prod.case
proof (rule reads_andThen [OF reads_DecodeInt])
qed (use assms in \<open>auto simp: after_key_def reads_def split: option.splits\<close>)

lemma reads_map_fields:
  assumes "length ns = length ps" and "sorted_wrt (\<lambda>p q. mapKeyCmp (fi_key p) (fi_key q) < 0) ps"
    and "\<And>p. p \<in> set ps \<Longrightarrow> after_key prev (fi_key p)"
    and "\<And>p. p \<in> set ps \<Longrightarrow> keyToField mf (fi_key p) = Some p"
    and "distinct (map fi_field ps)"
    and "\<And>p. p \<in> set ps \<Longrightarrow> reads (dec p (vs ! fi_field p)) (w p) (v ! fi_field p)"
  shows "\<exists>k. reads (fold_ops (map_step dec mf) (vs, prev) ns)
    (concat (map (\<lambda>p. wire_int (fi_key p) @ w p) ps)) (set_fields fi_field v ps vs, k)"
  using assms
proof (induction ns ps arbitrary: vs prev rule: list_induct2)
  case Nil
  then show ?case by (auto simp: reads_def)
next
  case (Cons n ns p ps)
  let ?vs = "vs[fi_field p := v ! fi_field p]"
  have step: "reads (map_step dec mf (vs, prev) n) (wire_int (fi_key p) @ w p) (?vs, Some (fi_key p))"
    using Cons.prems by (intro reads_map_step) auto
  have "\<exists>k. reads (fold_ops (map_step dec mf) (?vs, Some (fi_key p)) ns)
      (concat (map (\<lambda>p. wire_int (fi_key p) @ w p) ps)) (set_fields fi_field v ps ?vs, k)"
  proof (rule Cons.IH)
    show "reads (dec q (?vs ! fi_field q)) (w q) (v ! fi_field q)" if q: "q \<in> set ps" for q
    proof -
      have "fi_field q \<noteq> fi_field p" using Cons.prems(4) q by (metis distinct.simps(2) image_eqI list.map(2) set_map)
      then show ?thesis using Cons.prems(5) [of q] q by simp
    qed
  qed (use Cons.prems in \<open>auto simp: after_key_def\<close>)
  then obtain k where "reads (fold_ops (map_step dec mf) (?vs, Some (fi_key p)) ns)
      (concat (map (\<lambda>p. wire_int (fi_key p) @ w p) ps)) (set_fields fi_field v ps ?vs, k)" ..
  with step have "reads (fold_ops (map_step dec mf) (vs, prev) (n # ns))
      ((wire_int (fi_key p) @ w p) @ concat (map (\<lambda>p. wire_int (fi_key p) @ w p) ps))
      (set_fields fi_field v ps ?vs, k)"
    by (rule reads_fold_Cons)
  then show ?case by auto
qed


section \<open>The sorted fields of a map struct\<close>

lemma distinct_insert_field:
  "distinct (map g (insert_field x ys)) \<longleftrightarrow> g x \<notin> g ` set ys \<and> distinct (map g ys)"
  by (induction ys) auto

lemma sort_fields_simps [simp]:
  "sort_fields [] = []"
  "sort_fields (x # xs) = insert_field x (sort_fields xs)"
  by (simp_all add: sort_fields_def)

lemma distinct_sort_fields: "distinct (map g (sort_fields fis)) \<longleftrightarrow> distinct (map g fis)"
  by (induction fis) (auto simp: distinct_insert_field)

lemma length_sort_fields [simp]: "length (sort_fields fis) = length fis"
proof -
  have "length (insert_field x ys) = Suc (length ys)" for x ys by (induction ys) auto
  then show ?thesis by (induction fis) (auto simp: sort_fields_def)
qed

lemma mapKeyCmp_less: "mapKeyCmp a b < 0 \<longleftrightarrow> key_rank a < key_rank b"
  by (simp add: mapKeyCmp_eq cmp_nat_def)

lemma mapKeyCmp_self [simp]: "mapKeyCmp a a = 0"
  by (simp add: mapKeyCmp_eq)

lemma mapKeyCmp_zero [simp]: "mapKeyCmp a b = 0 \<longleftrightarrow> a = b"
  by (simp add: mapKeyCmp_eq key_rank_inject)

lemma mapKeyCmp_le: "mapKeyCmp a b \<le> 0 \<longleftrightarrow> key_rank a \<le> key_rank b"
  by (simp add: mapKeyCmp_eq cmp_nat_def)

lemma sorted_sort_fields: "sorted_wrt (\<lambda>p q. mapKeyCmp (fi_key p) (fi_key q) \<le> 0) (sort_fields fis)"
proof (induction fis)
  case Nil
  show ?case by (simp add: sort_fields_def)
next
  case (Cons x fis)
  have "sorted_wrt (\<lambda>p q. mapKeyCmp (fi_key p) (fi_key q) \<le> 0) ys \<Longrightarrow>
      sorted_wrt (\<lambda>p q. mapKeyCmp (fi_key p) (fi_key q) \<le> 0) (insert_field x ys)" for ys
    by (induction ys) (auto simp: mapKeyCmp_le)
  with Cons show ?case by (simp add: sort_fields_def)
qed

lemma sorted_strict:
  "sorted_wrt (\<lambda>p q. mapKeyCmp (fi_key p) (fi_key q) \<le> 0) ps \<Longrightarrow> distinct (map fi_key ps) \<Longrightarrow>
   sorted_wrt (\<lambda>p q. mapKeyCmp (fi_key p) (fi_key q) < 0) ps"
  by (induction ps)
    (auto simp: mapKeyCmp_le mapKeyCmp_less order.strict_iff_order key_rank_inject image_iff)

lemma strictly_sorted_fields:
  "distinct (map fi_key fis) \<Longrightarrow> sorted_wrt (\<lambda>p q. mapKeyCmp (fi_key p) (fi_key q) < 0) (sort_fields fis)"
  by (intro sorted_strict sorted_sort_fields) (simp add: distinct_sort_fields)

lemma keyToField_distinct:
  assumes "distinct (map fi_key mf)" and "f \<in> set mf"
  shows "keyToField mf (fi_key f) = Some f"
proof -
  have "distinct (map fst (rev (map (\<lambda>f. (fi_key f, f)) mf)))"
    using assms(1) by (simp add: comp_def rev_map [symmetric])
  then show ?thesis unfolding keyToField_def using assms(2) by (intro map_of_is_SomeI) auto
qed

lemma mapFieldsFrom_distinct: "mapFieldsFrom i fs = Inr fis \<Longrightarrow> distinct (map fi_field fis)"
proof (induction i fs arbitrary: fis rule: mapFieldsFrom.induct)
  case (2 i f fs)
  then show ?case
    by (auto simp: Let_def split: if_splits option.splits sum.splits)
      (fastforce dest: mapFieldsFrom_index)
qed simp

lemma mapFields_distinct: "mapFields fs = Inr fis \<Longrightarrow> distinct (map fi_field fis)"
  by (simp add: mapFields_def mapFieldsFrom_distinct)

lemma arrayFields_distinct: "distinct (map afi_field (arrayFields fs))"
proof -
  have "distinct (map afi_field (arrayFieldsFrom i fs))" for i
    by (induction i fs rule: arrayFieldsFrom.induct) (auto dest!: arrayFieldsFrom_index)
  then show ?thesis by (simp add: arrayFields_def)
qed

lemma length_arrayFields: "length (arrayFields fs) \<le> length fs"
proof -
  have "length (arrayFieldsFrom i fs) \<le> length fs" for i
    by (induction i fs rule: arrayFieldsFrom.induct) auto
  then show ?thesis by (simp add: arrayFields_def)
qed

lemma length_mapFields: "mapFields fs = Inr mf \<Longrightarrow> length mf \<le> length fs"
proof -
  have "mapFieldsFrom i fs = Inr mf \<Longrightarrow> length mf \<le> length fs" for i
    by (induction i fs arbitrary: mf rule: mapFieldsFrom.induct)
      (fastforce simp: Let_def split: if_splits option.splits sum.splits)+
  then show "mapFields fs = Inr mf \<Longrightarrow> length mf \<le> length fs" by (simp add: mapFields_def)
qed

section \<open>The null byte\<close>

definition null_first :: "bytes \<Rightarrow> bool" where
  "null_first w \<longleftrightarrow> w \<noteq> [] \<and> hd w = head_byte majorSimple simpleNull"

lemma PeekNull_null_first: "w \<noteq> [] \<Longrightarrow> PeekNull (at_pos pre (w @ s)) \<longleftrightarrow> null_first w"
  by (cases w) (auto simp: PeekNull_def null_first_def)

lemma null_first_head: "null_first (enc_head m v @ s) \<longleftrightarrow> m = majorSimple \<and> v = 22" if "m < 8"
proof
  assume "null_first (enc_head m v @ s)"
  then obtain t where "enc_head m v @ s = wire_null @ t"
    by (cases "enc_head m v @ s") (auto simp: null_first_def wire_null_def)
  then show "m = majorSimple \<and> v = 22"
    using enc_head_inject [OF that major_consts_less(7), of v s 22 t] by (simp add: wire_null_head)
next
  assume "m = majorSimple \<and> v = 22"
  then show "null_first (enc_head m v @ s)"
    by (simp add: null_first_def wire_null_head [symmetric] wire_null_def)
qed

lemma null_first_wires [simp]:
  "\<not> null_first (enc_head majorUint v)" "\<not> null_first (wire_int k)" "\<not> null_first (wire_bytes bs)"
  "\<not> null_first (wire_text bs)" "\<not> null_first (wire_bool b)" "null_first wire_null"
  "\<not> null_first (enc_head majorArray v @ s)" "\<not> null_first (enc_head majorMap v @ s)"
  using null_first_head [of majorUint v "[]"] null_first_head [of majorUint k "[]"]
    null_first_head [of majorNint "-1 - k" "[]"] null_first_head [of majorSimple "if b then 21 else 20" "[]"]
  by (simp_all add: wire_int_def wire_bytes_def wire_text_def wire_bool_head null_first_head go_consts
      del: null_first_def) (simp_all add: null_first_def wire_null_def)

lemma raw_ok_reads: "raw_ok bs \<longleftrightarrow> reads (skipObject maxDepth) bs ()"
proof
  assume "raw_ok bs"
  then have a: "skipObject maxDepth (at_pos [] bs) = (Inr (), at_pos bs [])"
    by (simp add: raw_ok_def NewDecoder_at_pos)
  obtain w s' where "bs = w @ s'" "at_pos bs [] = at_pos ([] @ w) s'" "reads (skipObject maxDepth) w ()"
    by (rule local_opE [OF local_skipObject a])
  then show "reads (skipObject maxDepth) bs ()" by (simp add: at_pos_eq)
next
  assume "reads (skipObject maxDepth) bs ()"
  from readsD [OF this, of "[]" "[]"] show "raw_ok bs" by (simp add: raw_ok_def NewDecoder_at_pos)
qed

lemma skip_null: "reads (skipObject maxDepth) wire_null ()"
  unfolding reads_def wire_null_head
  by (intro allI, subst skipObject.simps) (simp add: go_consts)

lemma reads_prefix:
  assumes "reads f w x" and "reads f (w @ v) y"
  shows "v = []"
  using readsD [OF assms(1), of "[]" v] readsD [OF assms(2), of "[]" "[]"] by (auto simp: at_pos_eq)

lemma raw_null: "raw_ok bs \<Longrightarrow> null_first bs \<longleftrightarrow> bs = wire_null"
proof
  assume r: "raw_ok bs" and "null_first bs"
  then obtain t where t: "bs = wire_null @ t"
    by (cases bs) (auto simp: null_first_def wire_null_def)
  from r have "reads (skipObject maxDepth) (wire_null @ t) ()" by (simp add: raw_ok_reads t)
  from reads_prefix [OF skip_null this] show "bs = wire_null" by (simp add: t)
qed simp


section \<open>Every supported value is carried\<close>

definition hooks_ok :: "'c hooks \<Rightarrow> (string \<Rightarrow> 'c \<Rightarrow> bool) \<Rightarrow> (string \<Rightarrow> 'c \<Rightarrow> bytes) \<Rightarrow> bool" where
  "hooks_ok hk cok cw \<longleftrightarrow>
     (\<forall>nm. wire_codec (\<lambda>c. marshalCBOR hk nm (Some c)) (unmarshalCBOR hk nm) (cok nm) (cw nm)) \<and>
     (\<forall>nm c. cok nm c \<longrightarrow> \<not> null_first (cw nm c))"

definition carries :: "'c hooks \<Rightarrow> gtype \<Rightarrow> 'c gval \<Rightarrow> bool \<Rightarrow> bytes \<Rightarrow> bool" where
  "carries hk ty v opt w \<longleftrightarrow>
     emits (encodeValue hk ty v True opt) w \<and> reads (decodeValue hk ty (zero_val hk ty) opt) w v \<and>
     w \<noteq> [] \<and> (null_first w \<longleftrightarrow> null_val ty v)"

lemma wire_nonempty [simp]:
  "wire_int k \<noteq> []" "wire_bytes bs \<noteq> []" "wire_text bs \<noteq> []" "wire_bool b \<noteq> []" "wire_null \<noteq> []"
  by (simp_all add: wire_int_def wire_bytes_def wire_text_def wire_bool_head wire_null_head)

lemma decodeValue_kind:
  "\<forall>nm. ty \<noteq> TCustom nm \<Longrightarrow> \<forall>t. ty \<noteq> TPtr t \<Longrightarrow>
   decodeValue hk ty old opt = decodeKind hk ty old opt"
  by (rule ext) (cases ty; simp add: decodeValue.simps)

lemma EncodeInt_wire: "EncodeInt k = append_buf (wire_int k)"
  by (rule ext) (simp add: EncodeInt_def wire_int_def encodeLength_enc_head)

lemma EncodeUint_wire: "EncodeUint v = append_buf (enc_head majorUint v)"
  by (rule ext) (simp add: EncodeUint_def encodeLength_enc_head)

lemma EncodeBytes_wire: "EncodeBytes bs = append_buf (wire_bytes bs)"
  by (rule ext) (simp add: EncodeBytes_def wire_bytes_def encodeLength_enc_head)

lemma EncodeBool_wire: "EncodeBool b = append_buf (wire_bool b)"
  by (rule ext) (simp add: EncodeBool_def wire_bool_def)

lemma EncodeNull_wire: "EncodeNull = append_buf wire_null"
  by (rule ext) (simp add: EncodeNull_def wire_null_def)

lemma EncodeArrayHeader_wire: "EncodeArrayHeader n = append_buf (enc_head majorArray (of_int n))"
  by (rule ext) (simp add: EncodeArrayHeader_def encodeLength_enc_head)

lemma EncodeMapHeader_wire: "EncodeMapHeader n = append_buf (enc_head majorMap (of_int n))"
  by (rule ext) (simp add: EncodeMapHeader_def encodeLength_enc_head)

lemmas wires = EncodeInt_wire EncodeUint_wire EncodeBytes_wire EncodeBool_wire EncodeNull_wire
  EncodeArrayHeader_wire EncodeMapHeader_wire

lemma PeekNull_wire:
  "PeekNull (at_pos pre (wire_null @ s))" "\<not> PeekNull (at_pos pre (wire_bytes bs @ s))"
  by (simp_all add: PeekNull_null_first)

lemma carries_scalar:
  "carries hk TBool (VBool b) opt (wire_bool b)"
  "take_bit k n = n \<Longrightarrow> carries hk (TUint k) (VUint n) opt (enc_head majorUint n)"
  "signed_take_bit (k - 1) i = i \<Longrightarrow> carries hk (TInt k) (VInt i) opt (wire_int i)"
  "go_slice s \<Longrightarrow> utf8_valid s \<Longrightarrow> carries hk TString (VString s) opt (wire_text s)"
  "go_slice bs \<Longrightarrow> carries hk TBytes (VBytes (Some bs)) opt (wire_bytes bs)"
  "carries hk TBytes (VBytes None) True wire_null"
  "go_slice bs \<Longrightarrow> carries hk (TByteArray (length bs)) (VArray bs) opt (wire_bytes bs)"
  "carries hk TUnit VEmpty opt (enc_head majorArray 0)"
  "carries hk TNull VEmpty opt wire_null"
  using null_first_wires(7) [of 0 "[]"]
  by (simp_all add: carries_def emits_def reads_def encodeValue.simps decodeValue_kind decodeKind.simps wires
      set_uint_def set_int_def PeekNull_wire null_val.simps EncodeText_def wire_text_def [symmetric]
      encodeLength_enc_head bool_codec.dec_wire uint_codec.dec_wire int_codec.dec_wire text_codec.dec_wire
      bytes_codec.dec_wire null_codec.dec_wire [where x = "()"] fixed_codec.dec_wire array_header_codec.dec_wire)

lemma carries_raw:
  assumes "raw_ok bs"
  shows "carries hk TRaw (VBytes (Some bs)) opt bs"
proof -
  from assms have r: "skipObject maxDepth (at_pos pre (bs @ s)) = (Inr (), at_pos (pre @ bs) s)" for pre s
    by (simp add: raw_ok_reads reads_def)
  have "bs \<noteq> []" using assms skipObject_nonempty [of maxDepth] by (auto simp: raw_ok_reads)
  then show ?thesis
    by (simp add: carries_def emits_def reads_def encodeValue.simps decodeValue_kind decodeKind.simps
        null_val.simps raw_null [OF assms] r)
qed

lemma carries_custom:
  assumes "hooks_ok hk cok cw" and "cok nm c"
  shows "carries hk (TCustom nm) (VCustom c) opt (cw nm c)"
    and "carries hk (TPtr (TCustom nm)) (VPtr (Some (VCustom c))) opt (cw nm c)"
proof -
  have c: "wire_codec (\<lambda>c. marshalCBOR hk nm (Some c)) (unmarshalCBOR hk nm) (cok nm) (cw nm)"
    using assms(1) by (simp add: hooks_ok_def)
  have enc: "marshalCBOR hk nm (Some c) e = (Inr (), append_buf (cw nm c) e)" for e
    using wire_codec.enc_wire [OF c assms(2)] .
  have dec: "unmarshalCBOR hk nm (at_pos pre (cw nm c @ s)) = (Inr c, at_pos (pre @ cw nm c) s)" for pre s
    using wire_codec.dec_wire [OF c assms(2)] .
  have "cw nm c \<noteq> []" "\<not> null_first (cw nm c)"
    using wire_codec.wire_nonempty [OF c assms(2)] assms by (simp_all add: hooks_ok_def)
  then show "carries hk (TCustom nm) (VCustom c) opt (cw nm c)"
    "carries hk (TPtr (TCustom nm)) (VPtr (Some (VCustom c))) opt (cw nm c)"
    by (simp_all add: carries_def emits_def reads_def encodeValue.simps decodeValue.simps null_val.simps enc dec)
qed


lemma encode_ptr_nil:
  "\<forall>nm. t \<noteq> TCustom nm \<Longrightarrow> encodeValue hk (TPtr t) (VPtr None) addr opt =
    (if \<not> opt then fail ErrUnexpectedNil else emit EncodeNull)"
  by (rule ext) (cases t; simp add: encodeValue.simps)

lemma encode_ptr:
  "\<forall>nm. t \<noteq> TCustom nm \<Longrightarrow> encodeValue hk (TPtr t) (VPtr (Some x)) addr opt = encodeValue hk t x True False"
  by (rule ext) (subst encodeValue.simps, cases t, simp_all)

lemma decode_ptr:
  assumes "\<forall>nm. t \<noteq> TCustom nm" and "\<forall>u. t \<noteq> TPtr u"
  shows "decodeValue hk (TPtr t) old opt dec =
    (if \<not> isOptionType t \<and> PeekNull dec then
       (if \<not> opt then fail ErrUnexpectedNull else andThen DecodeNull (\<lambda>_. ret (VPtr None))) dec
     else andThen (decodeValue hk t (case old of VPtr (Some x) \<Rightarrow> x | _ \<Rightarrow> zero_val hk t) False)
       (\<lambda>x. ret (VPtr (Some x))) dec)"
  using assms unfolding decodeValue_kind [OF assms] by (subst decodeValue.simps) (cases t; hypsubst; simp)

lemma reads_DecodeNull: "reads DecodeNull wire_null ()"
  by (simp add: reads_def null_codec.dec_wire [where x = "()"])

lemma carries_ptr_nil:
  assumes "\<forall>nm. t \<noteq> TCustom nm" and "\<not> isOptionType t"
  shows "carries hk (TPtr t) (VPtr None) True wire_null"
proof -
  have "decodeValue hk (TPtr t) old True (at_pos pre (wire_null @ s)) = (Inr (VPtr None), at_pos (pre @ wire_null) s)" for old pre s
    using assms
    by (subst decodeValue.simps) (cases t; simp add: PeekNull_wire reads_DecodeNull [THEN readsD])
  then show ?thesis
    using assms(1) by (simp add: carries_def emits_def reads_def encode_ptr_nil wires null_val.simps)
qed

lemma carries_ptr:
  assumes "\<forall>nm. t \<noteq> TCustom nm" and "\<forall>u. t \<noteq> TPtr u" and c: "carries hk t x False w"
    and n: "isOptionType t \<or> \<not> null_val t x"
  shows "carries hk (TPtr t) (VPtr (Some x)) opt w"
proof -
  from c have r: "decodeValue hk t (zero_val hk t) False (at_pos pre (w @ s)) = (Inr x, at_pos (pre @ w) s)" for pre s
    by (simp add: carries_def reads_def)
  have "PeekNull (at_pos pre (w @ s)) \<longleftrightarrow> null_val t x" for pre s
    using c by (simp add: carries_def PeekNull_null_first)
  then have "reads (decodeValue hk (TPtr t) (zero_val hk (TPtr t)) opt) w (VPtr (Some x))"
    using assms(1,2) n by (auto simp: reads_def decode_ptr r)
  then show ?thesis
    using c assms(1) by (simp add: carries_def encode_ptr null_val.simps)
qed

lemma isOptionType_struct:
  "isOptionType ty \<longleftrightarrow> (\<exists>nm f0 f1. ty = TStruct nm [f0, f1] \<and> f_name f0 = ''Value'' \<and> f_name f1 = ''Some'' \<and> f_type f1 = TBool)"
  by (auto simp: isOptionType_def split: gtype.splits list.splits)

lemma carries_option_none:
  assumes "isOptionType (TStruct nm fs)"
  shows "carries hk (TStruct nm fs) (VStruct [zero_val hk (f_type (fs ! 0)), VBool False]) opt wire_null"
  using assms
  by (simp add: carries_def emits_def reads_def encodeValue.simps decodeValue_kind decodeKind.simps wires
      PeekNull_wire null_val.simps reads_DecodeNull [THEN readsD])

lemma carries_option_some:
  assumes o: "isOptionType (TStruct nm fs)" and c: "carries hk (f_type (fs ! 0)) x False w"
    and n: "\<not> null_val (f_type (fs ! 0)) x"
  shows "carries hk (TStruct nm fs) (VStruct [x, VBool True]) opt w"
proof -
  have z: "old_fields (zero_val hk (TStruct nm fs)) ! 0 = zero_val hk (f_type (fs ! 0))"
    using o by (auto simp: isOptionType_struct old_fields_def)
  from c have r: "decodeValue hk (f_type (fs ! 0)) (zero_val hk (f_type (fs ! 0))) False (at_pos pre (w @ s))
      = (Inr x, at_pos (pre @ w) s)" for pre s
    by (simp add: carries_def reads_def)
  have p: "\<not> PeekNull (at_pos pre (w @ s))" for pre s
    using c n by (simp add: carries_def PeekNull_null_first)
  have "reads (decodeValue hk (TStruct nm fs) (zero_val hk (TStruct nm fs)) opt) w (VStruct [x, VBool True])"
    using o unfolding decodeValue_kind [of "TStruct nm fs", simplified]
    by (simp add: reads_def decodeKind.simps p z r del: zero_val.simps)
  then show ?thesis
    using c o n by (simp add: carries_def emits_def encodeValue.simps [of _ "TStruct nm fs"] null_val.simps [of "TStruct nm fs"]
        del: zero_val.simps)
qed


lemma sint_of_nat_go: "n \<le> max_int \<Longrightarrow> sint (of_nat n :: u64) = int n"
  by (simp add: sint_eq_nat unat_of_nat max_int_def)

lemma unat_of_nat_go: "n \<le> max_int \<Longrightarrow> unat (of_nat n :: u64) = n"
  by (simp add: unat_of_nat max_int_def)

lemma reads_array_header: "reads DecodeArrayHeader (enc_head majorArray l) l"
  by (simp add: reads_def array_header_codec.dec_wire)

lemma reads_map_header: "reads DecodeMapHeader (enc_head majorMap l) l"
  by (simp add: reads_def map_header_codec.dec_wire)

lemma zero_struct: "old_fields (zero_val hk (TStruct nm fs)) = map (\<lambda>f. zero_val hk (f_type f)) fs"
  by (simp add: old_fields_def)

lemma carries_array_struct:
  assumes a: "wantArray fs" "\<not> isOptionType (TStruct nm fs)" "go_slice fs" "length vs = length fs"
    and c: "\<And>f. f \<in> set (arrayFields fs) \<Longrightarrow>
      carries hk (f_type (fs ! afi_field f)) (vs ! afi_field f) (afi_optional f) (w f)"
    and z: "\<And>i. i < length fs \<Longrightarrow> i \<in> afi_field ` set (arrayFields fs) \<or> vs ! i = zero_val hk (f_type (fs ! i))"
  shows "carries hk (TStruct nm fs) (VStruct vs) opt
    (enc_head majorArray (of_nat (length (arrayFields fs))) @ concat (map w (arrayFields fs)))"
proof -
  let ?n = "length (arrayFields fs)" and ?ty = "TStruct nm fs"
  let ?ws = "concat (map w (arrayFields fs))"
  let ?zs = "map (\<lambda>f. zero_val hk (f_type f)) fs"
  have n: "?n \<le> max_int" using a(3) length_arrayFields [of fs] by (simp add: go_slice_def)
  have "emits (seq_ops (map (\<lambda>f. encodeValue hk (f_type (fs ! afi_field f)) (vs ! afi_field f) True (afi_optional f))
      (arrayFields fs))) ?ws"
    using c by (intro emits_seq_ops) (simp add: carries_def)
  then have enc: "emits (encodeValue hk ?ty (VStruct vs) True opt) (enc_head majorArray (of_nat ?n) @ ?ws)"
    using a by (simp add: emits_def encodeValue.simps [of hk ?ty] wires)
  have "reads (fold_ops (\<lambda>vs f. andThen (decodeValue hk (f_type (fs ! afi_field f)) (vs ! afi_field f) (afi_optional f))
      (\<lambda>x. ret (vs[afi_field f := x]))) ?zs (arrayFields fs)) ?ws (set_fields afi_field vs (arrayFields fs) ?zs)"
    using c arrayFields_distinct
    by (intro reads_array_fields) (auto simp: carries_def arrayFields_index)
  moreover have "set_fields afi_field vs (arrayFields fs) ?zs = vs"
    using a(4) z by (intro set_fields_id) auto
  ultimately have f: "reads (andThen (fold_ops (\<lambda>vs f. andThen (decodeValue hk (f_type (fs ! afi_field f)) (vs ! afi_field f) (afi_optional f))
      (\<lambda>x. ret (vs[afi_field f := x]))) ?zs (arrayFields fs)) (\<lambda>vs. ret (VStruct vs))) ?ws (VStruct vs)"
    by (simp add: reads_def)
  have dec: "reads (decodeValue hk ?ty (zero_val hk ?ty) opt) (enc_head majorArray (of_nat ?n) @ ?ws) (VStruct vs)"
    unfolding reads_def
  proof (intro allI)
    fix pre s
    show "decodeValue hk ?ty (zero_val hk ?ty) opt (at_pos pre ((enc_head majorArray (of_nat ?n) @ ?ws) @ s)) =
      (Inr (VStruct vs), at_pos (pre @ enc_head majorArray (of_nat ?n) @ ?ws) s)"
      using a n f [THEN readsD, of "pre @ enc_head majorArray (of_nat ?n)" s]
        reads_array_header [THEN readsD, of pre "of_nat ?n" "?ws @ s"]
      by (simp add: decodeValue_kind decodeKind.simps [of hk ?ty] zero_struct sint_of_nat_go del: zero_val.simps)
  qed
  have "\<not> null_val ?ty (VStruct vs)" using a by (simp add: null_val.simps [of ?ty])
  with enc dec show ?thesis by (simp add: carries_def)
qed

lemma carries_map_struct:
  assumes a: "\<not> wantArray fs" "\<not> isOptionType (TStruct nm fs)" "go_slice fs" "length vs = length fs"
    and m: "mapFields fs = Inr mf" "\<not> (mf = [] \<and> structFields fs \<noteq> [])" "distinct (map fi_key mf)"
    and c: "\<And>f. f \<in> set mf \<Longrightarrow>
      carries hk (f_type (fs ! fi_field f)) (vs ! fi_field f) (fi_optional f) (w f)"
    and z: "\<And>i. i < length fs \<Longrightarrow> i \<in> fi_field ` set mf \<or> vs ! i = zero_val hk (f_type (fs ! i))"
  shows "carries hk (TStruct nm fs) (VStruct vs) opt
    (enc_head majorMap (of_nat (length mf)) @ concat (map (\<lambda>f. wire_int (fi_key f) @ w f) (sort_fields mf)))"
proof -
  let ?n = "length mf" and ?ty = "TStruct nm fs"
  let ?ws = "concat (map (\<lambda>f. wire_int (fi_key f) @ w f) (sort_fields mf))"
  let ?zs = "map (\<lambda>f. zero_val hk (f_type f)) fs"
  let ?dec = "\<lambda>fi old. decodeValue hk (f_type (fs ! fi_field fi)) old (fi_optional fi)"
  have n: "?n \<le> max_int" using a(3) length_mapFields [OF m(1)] by (simp add: go_slice_def)
  have "emits (seq_ops (map (\<lambda>f. andThen (emit (EncodeInt (fi_key f)))
      (\<lambda>_. encodeValue hk (f_type (fs ! fi_field f)) (vs ! fi_field f) True (fi_optional f))) (sort_fields mf))) ?ws"
    using c by (intro emits_seq_ops) (simp add: carries_def emits_def wires)
  then have enc: "emits (encodeValue hk ?ty (VStruct vs) True opt) (enc_head majorMap (of_nat ?n) @ ?ws)"
    using a m(1,2) by (simp add: emits_def encodeValue.simps [of hk ?ty] wires)
  have "\<exists>k. reads (fold_ops (map_step ?dec mf) (?zs, None) [0..<?n]) ?ws
      (set_fields fi_field vs (sort_fields mf) ?zs, k)"
    using c m(3) mapFields_distinct [OF m(1)] strictly_sorted_fields [OF m(3)]
    by (intro reads_map_fields)
      (auto simp: carries_def after_key_def keyToField_distinct distinct_sort_fields mapFields_index [OF m(1)])
  moreover have "set_fields fi_field vs (sort_fields mf) ?zs = vs"
    using a(4) z by (intro set_fields_id) auto
  ultimately obtain k where
    "reads (fold_ops (map_step ?dec mf) (?zs, None) [0..<?n]) ?ws (vs, k)" by auto
  then have f: "reads (andThen (fold_ops (map_step ?dec mf) (?zs, None) [0..<?n])
      (\<lambda>(vs, _). ret (VStruct vs))) ?ws (VStruct vs)"
    by (simp add: reads_def)
  have dec: "reads (decodeValue hk ?ty (zero_val hk ?ty) opt) (enc_head majorMap (of_nat ?n) @ ?ws) (VStruct vs)"
    unfolding reads_def
  proof (intro allI)
    fix pre s
    show "decodeValue hk ?ty (zero_val hk ?ty) opt (at_pos pre ((enc_head majorMap (of_nat ?n) @ ?ws) @ s)) =
      (Inr (VStruct vs), at_pos (pre @ enc_head majorMap (of_nat ?n) @ ?ws) s)"
      using a m n f [THEN readsD, of "pre @ enc_head majorMap (of_nat ?n)" s]
        reads_map_header [THEN readsD, of pre "of_nat ?n" "?ws @ s"]
      by (simp add: decodeValue_kind decodeKind.simps [of hk ?ty] zero_struct sint_of_nat_go unat_of_nat_go
          map_step_def del: zero_val.simps)
  qed
  have "\<not> null_val ?ty (VStruct vs)" using a by (simp add: null_val.simps [of ?ty])
  with enc dec show ?thesis by (simp add: carries_def)
qed


lemma val_ok_leaf:
  "val_ok hk cok (TCustom nm) (VCustom c) opt \<longleftrightarrow> cok nm c"
  "val_ok hk cok (TInt b) (VInt i) opt \<longleftrightarrow> signed_take_bit (b - 1) i = i"
  "val_ok hk cok TBytes (VBytes None) opt \<longleftrightarrow> opt"
  by (subst val_ok.simps, simp)+

lemma val_ok_ptr:
  "val_ok hk cok (TPtr t) v opt \<longleftrightarrow>
     (v = VPtr None \<and> opt \<and> \<not> isOptionType t \<and> (\<forall>nm. t \<noteq> TCustom nm)) \<or>
     (\<exists>x. v = VPtr (Some x) \<and> (\<forall>u. t \<noteq> TPtr u) \<and> val_ok hk cok t x False \<and> (isOptionType t \<or> \<not> null_val t x))"
  by (subst val_ok.simps) (cases v; auto simp: is_custom_iff is_ptr_iff split: option.splits)

lemma val_ok_option:
  assumes "isOptionType (TStruct nm fs)"
  shows "val_ok hk cok (TStruct nm fs) v opt \<longleftrightarrow> go_slice fs \<and>
    ((\<exists>x. v = VStruct [x, VBool True] \<and> val_ok hk cok (f_type (fs ! 0)) x False \<and> \<not> null_val (f_type (fs ! 0)) x) \<or>
     v = VStruct [zero_val hk (f_type (fs ! 0)), VBool False])"
proof -
  have "length vs = length fs \<longleftrightarrow> (\<exists>x y. vs = [x, y])" for vs :: "'a gval list"
    using assms by (auto simp: isOptionType_struct length_Suc_conv)
  then show ?thesis
    using assms by (subst val_ok.simps) (cases v; auto simp: numeral_2_eq_2)
qed

lemma val_ok_struct:
  assumes "\<not> isOptionType (TStruct nm fs)"
  shows "val_ok hk cok (TStruct nm fs) v opt \<longleftrightarrow>
    (\<exists>vs ios. v = VStruct vs \<and> go_slice fs \<and> length vs = length fs \<and> distinct_keys fs \<and> fields_of fs = Inr ios \<and>
      (\<forall>i < length fs. i \<in> fst ` set ios \<or> vs ! i = zero_val hk (f_type (fs ! i))) \<and>
      (\<forall>p \<in> set ios. val_ok hk cok (f_type (fs ! fst p)) (vs ! fst p) (snd p)))"
  using assms by (subst val_ok.simps) (cases v; auto simp: encoded_def split: sum.splits)

text \<open>
  The library's own options: which can be marshalled, and that \<^verbatim>\<open>None\<close> inside an option collapses.
\<close>

lemma is_option_Option: "isOptionType (Option_type t)"
  by (simp add: Option_type_def isOptionType_def)

lemma val_ok_Make:
  "val_ok hk cok (Option_type t) (MakeSome v) opt \<longleftrightarrow> val_ok hk cok t v False \<and> \<not> null_val t v"
  "val_ok hk cok (Option_type t) (MakeNone hk t) opt"
  unfolding Option_type_def MakeSome_def MakeNone_def
  by (subst val_ok_option [OF is_option_Option [unfolded Option_type_def]]; simp add: go_slice_def max_int_def)+

lemma Make_encodes:
  "encodeValue hk (Option_type t) (MakeSome v) addr opt = encodeValue hk t v addr False"
  "encodeValue hk (Option_type t) (MakeNone hk t) addr opt = emit EncodeNull"
  using is_option_Option [of t]
  by (subst encodeValue.simps; simp add: Option_type_def MakeSome_def MakeNone_def)+

lemma nested_options_collapse:
  "Marshal hk (Option_type (Option_type t)) (MakeSome (MakeNone hk t)) = Marshal hk (Option_type t) (MakeNone hk t)"
  by (simp add: Marshal_def Make_encodes)

lemma fields_of_array: "wantArray fs \<Longrightarrow> fields_of fs = Inr (map (\<lambda>f. (afi_field f, afi_optional f)) (arrayFields fs))"
  by (simp add: fields_of_def)

lemma fields_of_map:
  assumes "\<not> wantArray fs"
  shows "fields_of fs = Inr ios \<longleftrightarrow> (\<exists>mf. mapFields fs = Inr mf \<and> \<not> (mf = [] \<and> structFields fs \<noteq> []) \<and>
    ios = map (\<lambda>f. (fi_field f, fi_optional f)) mf)"
  using assms by (auto simp: fields_of_def split: sum.splits)

text \<open>The struct case, given that the fields are carried.\<close>

lemma carried_struct:
  assumes o: "\<not> isOptionType (TStruct nm fs)" and v: "val_ok hk cok (TStruct nm fs) v opt"
    and IH: "\<And>f x op. f \<in> set fs \<Longrightarrow> val_ok hk cok (f_type f) x op \<Longrightarrow> \<exists>w. carries hk (f_type f) x op w"
  shows "\<exists>w. carries hk (TStruct nm fs) v opt w"
proof -
  from v [unfolded val_ok_struct [OF o]] obtain vs ios where vs: "v = VStruct vs"
    and a: "go_slice fs" "length vs = length fs" and d: "distinct_keys fs" and ios: "fields_of fs = Inr ios"
    and z: "\<And>i. i < length fs \<Longrightarrow> i \<in> fst ` set ios \<or> vs ! i = zero_val hk (f_type (fs ! i))"
    and ok: "\<And>p. p \<in> set ios \<Longrightarrow> val_ok hk cok (f_type (fs ! fst p)) (vs ! fst p) (snd p)"
    by blast
  have "\<exists>w. carries hk (f_type (fs ! fst p)) (vs ! fst p) (snd p) w" if "p \<in> set ios" for p
    using IH [OF _ ok [OF that]] fields_of_index [OF ios that] by simp
  then obtain W where W: "\<And>p. p \<in> set ios \<Longrightarrow> carries hk (f_type (fs ! fst p)) (vs ! fst p) (snd p) (W p)"
    by metis
  show ?thesis
  proof (cases "wantArray fs")
    case True
    have i: "ios = map (\<lambda>f. (afi_field f, afi_optional f)) (arrayFields fs)"
      using ios True by (simp add: fields_of_array)
    have "carries hk (TStruct nm fs) (VStruct vs) opt (enc_head majorArray (of_nat (length (arrayFields fs))) @
        concat (map (\<lambda>f. W (afi_field f, afi_optional f)) (arrayFields fs)))"
    proof (rule carries_array_struct [OF True o a])
      show "carries hk (f_type (fs ! afi_field f)) (vs ! afi_field f) (afi_optional f) (W (afi_field f, afi_optional f))"
        if "f \<in> set (arrayFields fs)" for f using W [of "(afi_field f, afi_optional f)"] that by (auto simp: i)
      show "i \<in> afi_field ` set (arrayFields fs) \<or> vs ! i = zero_val hk (f_type (fs ! i))" if "i < length fs" for i
        using z [OF that] by (auto simp: i)
    qed
    then show ?thesis unfolding vs by blast
  next
    case False
    with ios obtain mf where m: "mapFields fs = Inr mf" "\<not> (mf = [] \<and> structFields fs \<noteq> [])"
      and i: "ios = map (\<lambda>f. (fi_field f, fi_optional f)) mf" by (auto simp: fields_of_map)
    have dk: "distinct (map fi_key mf)" using d False m by (simp add: distinct_keys_def)
    have "carries hk (TStruct nm fs) (VStruct vs) opt (enc_head majorMap (of_nat (length mf)) @
        concat (map (\<lambda>f. wire_int (fi_key f) @ W (fi_field f, fi_optional f)) (sort_fields mf)))"
    proof (rule carries_map_struct [OF False o a m dk])
      show "carries hk (f_type (fs ! fi_field f)) (vs ! fi_field f) (fi_optional f) (W (fi_field f, fi_optional f))"
        if "f \<in> set mf" for f using W [of "(fi_field f, fi_optional f)"] that by (auto simp: i)
      show "i \<in> fi_field ` set mf \<or> vs ! i = zero_val hk (f_type (fs ! i))" if "i < length fs" for i
        using z [OF that] by (auto simp: i)
    qed
    then show ?thesis unfolding vs by blast
  qed
qed

lemma carried_leaf:
  "\<exists>w. carries hk TBool (VBool b) opt w"
  "take_bit k n = n \<Longrightarrow> \<exists>w. carries hk (TUint k) (VUint n) opt w"
  "signed_take_bit (k - 1) i = i \<Longrightarrow> \<exists>w. carries hk (TInt k) (VInt i) opt w"
  "go_slice s \<Longrightarrow> utf8_valid s \<Longrightarrow> \<exists>w. carries hk TString (VString s) opt w"
  "raw_ok bs \<Longrightarrow> \<exists>w. carries hk TRaw (VBytes (Some bs)) opt w"
  "go_slice bs \<Longrightarrow> \<exists>w. carries hk TBytes (VBytes (Some bs)) opt w"
  "\<exists>w. carries hk TBytes (VBytes None) True w"
  "go_slice bs \<Longrightarrow> \<exists>w. carries hk (TByteArray (length bs)) (VArray bs) opt w"
  "\<exists>w. carries hk TUnit VEmpty opt w"
  "\<exists>w. carries hk TNull VEmpty opt w"
  by (rule exI, rule carries_scalar carries_raw, assumption?, assumption?)+

lemma val_ok_carried:
  assumes hk: "hooks_ok hk cok cw"
  shows "val_ok hk cok ty v opt \<Longrightarrow> \<exists>w. carries hk ty v opt w"
proof (induction ty arbitrary: v opt rule: measure_induct_rule [where f = size])
  case (less ty)
  note v = less.prems
  show ?case
  proof (cases ty)
    case (TCustom nm)
    with v obtain c where "v = VCustom c" "cok nm c" by (subst (asm) val_ok.simps) (auto split: gval.splits)
    then show ?thesis using carries_custom(1) [OF hk] TCustom by blast
  next
    case (TStruct nm fs)
    have sz: "size (f_type f) < size ty" if "f \<in> set fs" for f using that by (simp add: TStruct)
    show ?thesis
    proof (cases "isOptionType ty")
      case True
      with TStruct have "fs ! 0 \<in> set fs" by (auto simp: isOptionType_struct)
      note IH = less.IH [OF sz [OF this]]
      from v True consider "v = VStruct [zero_val hk (f_type (fs ! 0)), VBool False]"
        | x where "v = VStruct [x, VBool True]" "val_ok hk cok (f_type (fs ! 0)) x False" "\<not> null_val (f_type (fs ! 0)) x"
        unfolding TStruct by (auto simp: val_ok_option)
      then show ?thesis
      proof cases
        case 1
        then show ?thesis using carries_option_none True TStruct by blast
      next
        case 2
        from IH [OF 2(2)] obtain w where "carries hk (f_type (fs ! 0)) x False w" ..
        with 2 True show ?thesis unfolding TStruct using carries_option_some by blast
      qed
    next
      case False
      then show ?thesis using v less.IH [OF sz] unfolding TStruct by (intro carried_struct) auto
    qed
  next
    case (TPtr t)
    from v consider "v = VPtr None" "opt" "\<not> isOptionType t" "\<forall>nm. t \<noteq> TCustom nm"
      | x where "v = VPtr (Some x)" "\<forall>u. t \<noteq> TPtr u" "val_ok hk cok t x False" "isOptionType t \<or> \<not> null_val t x"
      unfolding TPtr val_ok_ptr by blast
    then show ?thesis
    proof cases
      case 1
      then show ?thesis using carries_ptr_nil [of t hk] TPtr by auto
    next
      case 2
      then obtain w where w: "carries hk t x False w" using less.IH [of t x False] TPtr by auto
      show ?thesis
      proof (cases "\<exists>nm. t = TCustom nm")
        case True
        then obtain nm where "t = TCustom nm" ..
        with 2(3) obtain c where "x = VCustom c" "cok nm c"
          by (subst (asm) val_ok.simps) (auto split: gval.splits)
        then show ?thesis using carries_custom(2) [OF hk] 2 TPtr \<open>t = TCustom nm\<close> by blast
      next
        case False
        then show ?thesis using carries_ptr [of t hk x w opt] w 2 TPtr by blast
      qed
    qed
  qed (insert v; subst (asm) val_ok.simps; auto split: gval.splits option.splits intro: carried_leaf)+
qed


section \<open>Whatever is decoded is carried\<close>

text \<open>\<open>consumes d pre s w\<close>: the cursor has moved over \<open>w\<close>.\<close>

definition consumed :: "decoder \<Rightarrow> bytes \<Rightarrow> bytes \<Rightarrow> bytes \<Rightarrow> bool" where
  "consumed d pre s w \<longleftrightarrow> (\<exists>s'. s = w @ s' \<and> d = at_pos (pre @ w) s')"

lemma consumed_trans:
  assumes "consumed d1 pre s w" and "\<And>pre s. d1 = at_pos pre s \<Longrightarrow> consumed d2 pre s v"
  shows "consumed d2 pre s (w @ v)"
  using assms by (fastforce simp: consumed_def)

lemma consumedE:
  assumes "consumed d pre s w"
  obtains s' where "s = w @ s'" and "d = at_pos (pre @ w) s'"
  using assms by (auto simp: consumed_def)

text \<open>\<open>sound f R\<close>: whatever \<open>f\<close> returns it has read from bytes that stand in \<open>R\<close> to the result.\<close>

definition sound :: "(decoder, cbor_error, 'a) op \<Rightarrow> ('a \<Rightarrow> bytes \<Rightarrow> bool) \<Rightarrow> bool" where
  "sound f R \<longleftrightarrow> (\<forall>pre s x d. f (at_pos pre s) = (Inr x, d) \<longrightarrow> (\<exists>w. consumed d pre s w \<and> R x w))"

lemma soundD: "sound f R \<Longrightarrow> f (at_pos pre s) = (Inr x, d) \<Longrightarrow> \<exists>w. consumed d pre s w \<and> R x w"
  by (simp add: sound_def)

lemma soundI: "(\<And>pre s x d. f (at_pos pre s) = (Inr x, d) \<Longrightarrow> \<exists>w. consumed d pre s w \<and> R x w) \<Longrightarrow> sound f R"
  by (simp add: sound_def)

lemma sound_andThen:
  assumes "sound m P" and "\<And>x w. P x w \<Longrightarrow> sound (f x) (\<lambda>y v. R y (w @ v))"
  shows "sound (andThen m f) R"
proof (rule soundI)
  fix pre s y d
  assume "andThen m f (at_pos pre s) = (Inr y, d)"
  then obtain x d1 where m: "m (at_pos pre s) = (Inr x, d1)" and f: "f x d1 = (Inr y, d)"
    by (rule andThen_InrE)
  from soundD [OF assms(1) m] obtain w s1 where P: "P x w" and s1: "s = w @ s1" and d1: "d1 = at_pos (pre @ w) s1"
    by (auto simp: consumed_def)
  from soundD [OF assms(2) [OF P] f [unfolded d1]] obtain v where "consumed d (pre @ w) s1 v" "R y (w @ v)" by blast
  then show "\<exists>w. consumed d pre s w \<and> R y w"
    using s1 by (intro exI [of _ "w @ v"]) (auto simp: consumed_def)
qed

lemma consumed_Nil: "consumed (at_pos pre s) pre s []"
  by (auto simp: consumed_def)

lemma sound_ret: "R x [] \<Longrightarrow> sound (ret x) R"
  by (rule soundI) (auto intro: consumed_Nil)

lemma sound_fail: "sound (fail e) R"
  by (rule soundI) simp

lemma sound_mono: "sound f P \<Longrightarrow> (\<And>x w. P x w \<Longrightarrow> Q x w) \<Longrightarrow> sound f Q"
  by (fastforce simp: sound_def)

lemma sound_if: "(b \<Longrightarrow> sound f R) \<Longrightarrow> (\<not> b \<Longrightarrow> sound g R) \<Longrightarrow> sound (if b then f else g) R"
  by simp

lemma sound_array_fields:
  assumes "distinct (map idx ps)" and "\<And>p. p \<in> set ps \<Longrightarrow> idx p < length vs"
    and "\<And>p. p \<in> set ps \<Longrightarrow> sound (dec p (vs ! idx p)) (R p)"
  shows "sound (fold_ops (\<lambda>vs p. andThen (dec p (vs ! idx p)) (\<lambda>x. ret (vs[idx p := x]))) vs ps)
    (\<lambda>vs' w. length vs' = length vs \<and> (\<forall>i < length vs. i \<notin> idx ` set ps \<longrightarrow> vs' ! i = vs ! i) \<and>
      (\<exists>W. w = concat (map W ps) \<and> (\<forall>p \<in> set ps. R p (vs' ! idx p) (W p))))"
  using assms
proof (induction ps arbitrary: vs)
  case Nil
  then show ?case unfolding fold_ops.simps by (intro sound_ret) simp
next
  case (Cons p ps)
  have step: "sound (andThen (dec p (vs ! idx p)) (\<lambda>x. ret (vs[idx p := x]))) (\<lambda>vs' w. \<exists>x. vs' = vs[idx p := x] \<and> R p x w)"
    using Cons.prems(3) [of p] by (intro sound_andThen [where P = "R p"] sound_ret) auto
  show ?case
    unfolding fold_ops.simps
  proof (rule sound_andThen [OF step])
    fix vs1 w assume "\<exists>x. vs1 = vs[idx p := x] \<and> R p x w"
    then obtain x where vs1: "vs1 = vs[idx p := x]" and x: "R p x w" by blast
    have idx: "idx q \<noteq> idx p" if "q \<in> set ps" for q
      using Cons.prems(1) that by (metis distinct.simps(2) image_eqI list.map(2) set_map)
    have "sound (fold_ops (\<lambda>vs p. andThen (dec p (vs ! idx p)) (\<lambda>x. ret (vs[idx p := x]))) vs1 ps)
      (\<lambda>vs' w. length vs' = length vs1 \<and> (\<forall>i < length vs1. i \<notin> idx ` set ps \<longrightarrow> vs' ! i = vs1 ! i) \<and>
        (\<exists>W. w = concat (map W ps) \<and> (\<forall>p \<in> set ps. R p (vs' ! idx p) (W p))))"
      using Cons.prems by (intro Cons.IH) (auto simp: vs1 idx [THEN not_sym])
    then show "sound (fold_ops (\<lambda>vs p. andThen (dec p (vs ! idx p)) (\<lambda>x. ret (vs[idx p := x]))) vs1 ps)
      (\<lambda>vs' v. length vs' = length vs \<and> (\<forall>i < length vs. i \<notin> idx ` set (p # ps) \<longrightarrow> vs' ! i = vs ! i) \<and>
        (\<exists>W. w @ v = concat (map W (p # ps)) \<and> (\<forall>p \<in> set (p # ps). R p (vs' ! idx p) (W p))))"
    proof (rule sound_mono)
      fix vs' v
      assume "length vs' = length vs1 \<and> (\<forall>i < length vs1. i \<notin> idx ` set ps \<longrightarrow> vs' ! i = vs1 ! i) \<and>
        (\<exists>W. v = concat (map W ps) \<and> (\<forall>p \<in> set ps. R p (vs' ! idx p) (W p)))"
      then obtain W where l: "length vs' = length vs" and same: "\<And>i. i < length vs \<Longrightarrow> i \<notin> idx ` set ps \<Longrightarrow> vs' ! i = vs1 ! i"
        and v: "v = concat (map W ps)" and W: "\<forall>p \<in> set ps. R p (vs' ! idx p) (W p)"
        by (auto simp: vs1)
      have p: "p \<notin> set ps" "idx p \<notin> idx ` set ps" using Cons.prems(1) by auto
      have "vs' ! idx p = x" using same [of "idx p"] p Cons.prems(2) by (simp add: vs1)
      then show "length vs' = length vs \<and> (\<forall>i < length vs. i \<notin> idx ` set (p # ps) \<longrightarrow> vs' ! i = vs ! i) \<and>
          (\<exists>W. w @ v = concat (map W (p # ps)) \<and> (\<forall>p \<in> set (p # ps). R p (vs' ! idx p) (W p)))"
        using l same v W x p map_fun_upd [OF p(1), of W w]
        by (intro conjI exI [of _ "W(p := w)"]) (auto simp: vs1)
    qed
  qed
qed


lemma sound_DecodeInt: "sound DecodeInt (\<lambda>k w. w = wire_int k)"
  by (rule soundI) (auto simp: int_codec.dec_iff consumed_def)

lemma after_key_trans: "after_key prev k \<Longrightarrow> mapKeyCmp k l < 0 \<Longrightarrow> after_key prev l"
  by (auto simp: after_key_def mapKeyCmp_less split: option.splits)

lemma not_after_key:
  "\<not> after_key prev k \<longleftrightarrow> (\<exists>p. prev = Some p \<and> (mapKeyCmp p k = 0 \<or> mapKeyCmp p k > 0))"
  by (auto simp: after_key_def split: option.splits simp del: mapKeyCmp_zero)

lemma sound_map_step:
  assumes "\<And>p. p \<in> set mf \<Longrightarrow> after_key prev (fi_key p) \<Longrightarrow> sound (dec p (vs ! fi_field p)) (R p)"
  shows "sound (map_step dec mf (vs, prev) n) (\<lambda>st w. case st of (vs', prev') \<Rightarrow> \<exists>p x v. p \<in> set mf \<and> after_key prev (fi_key p) \<and>
    vs' = vs[fi_field p := x] \<and> prev' = Some (fi_key p) \<and> w = wire_int (fi_key p) @ v \<and> R p x v)"
    (is "sound _ ?Q")
  unfolding map_step_def prod.case
proof (rule sound_andThen [OF sound_DecodeInt])
  fix key w assume w: "w = wire_int key"
  show "sound
      (if case prev of None \<Rightarrow> False | Some p \<Rightarrow> mapKeyCmp p key = 0 then fail ErrDuplicateMapKey
       else if case prev of None \<Rightarrow> False | Some p \<Rightarrow> 0 < mapKeyCmp p key then fail ErrInvalidMapKeyOrder
       else case keyToField mf key of
         None \<Rightarrow> fail ErrUnsupportedType
       | Some fi \<Rightarrow> andThen (dec fi (vs ! fi_field fi)) (\<lambda>x. ret (vs[fi_field fi := x], Some key)))
      (\<lambda>y v. ?Q y (w @ v))"
  proof (cases "after_key prev key")
    case False
    then show ?thesis by (auto simp: not_after_key intro: sound_fail simp del: mapKeyCmp_zero)
  next
    case True
    then have c: "\<not> (case prev of None \<Rightarrow> False | Some p \<Rightarrow> mapKeyCmp p key = 0)"
      "\<not> (case prev of None \<Rightarrow> False | Some p \<Rightarrow> 0 < mapKeyCmp p key)"
      by (auto simp: after_key_def split: option.splits simp del: mapKeyCmp_zero)
    show ?thesis
    proof (cases "keyToField mf key")
      case None
      then show ?thesis using c by (simp add: sound_fail del: fail_app)
    next
      case (Some p)
      then have p: "p \<in> set mf" "fi_key p = key" by (simp_all add: keyToField_mem)
      have "sound (andThen (dec p (vs ! fi_field p)) (\<lambda>x. ret (vs[fi_field p := x], Some key))) (\<lambda>y v. ?Q y (w @ v))"
      proof (rule sound_andThen)
        show "sound (dec p (vs ! fi_field p)) (R p)" using assms p True by simp
        show "sound (ret (vs[fi_field p := x], Some key)) (\<lambda>y v. ?Q y (w @ u @ v))" if "R p x u" for x u
          using p True w that by (intro sound_ret) auto
      qed
      then show ?thesis using c Some by (simp del: ret_app)
    qed
  qed
qed

text \<open>What the map loop has established after the fields \<open>ps\<close>.\<close>

definition map_done where
  "map_done mf R vs prev n vs' w \<longleftrightarrow> length vs' = length vs \<and>
     (\<exists>ps W. length ps = n \<and> set ps \<subseteq> set mf \<and>
      sorted_wrt (\<lambda>p q. mapKeyCmp (fi_key p) (fi_key q) < 0) ps \<and> (\<forall>p \<in> set ps. after_key prev (fi_key p)) \<and>
      w = concat (map (\<lambda>p. wire_int (fi_key p) @ W p) ps) \<and> (\<forall>p \<in> set ps. R p (vs' ! fi_field p) (W p)) \<and>
      (\<forall>i < length vs. i \<notin> fi_field ` set ps \<longrightarrow> vs' ! i = vs ! i))"

lemma map_done_Cons:
  assumes d: "map_done mf R (vs[fi_field p := x]) (Some (fi_key p)) n vs' w"
    and p: "p \<in> set mf" "after_key prev (fi_key p)" "R p x v" "fi_field p < length vs"
    and fields: "\<And>q. q \<in> set mf \<Longrightarrow> fi_field q = fi_field p \<longleftrightarrow> q = p"
  shows "map_done mf R vs prev (Suc n) vs' ((wire_int (fi_key p) @ v) @ w)"
proof -
  let ?vs = "vs[fi_field p := x]"
  from d obtain ps W where l: "length vs' = length vs" "length ps = n" and ps: "set ps \<subseteq> set mf"
    and sorted: "sorted_wrt (\<lambda>p q. mapKeyCmp (fi_key p) (fi_key q) < 0) ps"
    and after: "\<And>q. q \<in> set ps \<Longrightarrow> mapKeyCmp (fi_key p) (fi_key q) < 0"
    and w: "w = concat (map (\<lambda>p. wire_int (fi_key p) @ W p) ps)"
    and W: "\<And>q. q \<in> set ps \<Longrightarrow> R q (vs' ! fi_field q) (W q)"
    and same: "\<And>i. i < length vs \<Longrightarrow> i \<notin> fi_field ` set ps \<Longrightarrow> vs' ! i = ?vs ! i"
    unfolding map_done_def by (auto simp: after_key_def)
  have pn: "p \<notin> set ps" using after [of p] by auto
  then have "fi_field p \<notin> fi_field ` set ps" using fields ps by force
  with same p(4) have x: "vs' ! fi_field p = x" by simp
  let ?W = "W(p := v)"
  have "map (\<lambda>q. wire_int (fi_key q) @ ?W q) ps = map (\<lambda>q. wire_int (fi_key q) @ W q) ps"
    using pn by (intro map_cong) auto
  then have "(wire_int (fi_key p) @ v) @ w = concat (map (\<lambda>p. wire_int (fi_key p) @ ?W p) (p # ps))"
    by (simp only: w list.map concat.simps fun_upd_same append.assoc)
  moreover have "\<forall>q \<in> set (p # ps). R q (vs' ! fi_field q) (?W q)" using W p(3) x pn by auto
  moreover have "\<forall>q \<in> set (p # ps). after_key prev (fi_key q)"
    using p(2) after after_key_trans by auto
  moreover have "\<forall>i < length vs. i \<notin> fi_field ` set (p # ps) \<longrightarrow> vs' ! i = vs ! i"
    using same by auto
  moreover have "sorted_wrt (\<lambda>p q. mapKeyCmp (fi_key p) (fi_key q) < 0) (p # ps)" using sorted after by simp
  moreover have "length (p # ps) = Suc n" "set (p # ps) \<subseteq> set mf" using l ps p(1) by auto
  ultimately show ?thesis unfolding map_done_def using l(1) by blast
qed

lemma sound_map_fields:
  assumes df: "distinct (map fi_field mf)"
    and "\<And>p. p \<in> set mf \<Longrightarrow> fi_field p < length vs"
    and "\<And>p. p \<in> set mf \<Longrightarrow> after_key prev (fi_key p) \<Longrightarrow> sound (dec p (vs ! fi_field p)) (R p)"
  shows "sound (fold_ops (map_step dec mf) (vs, prev) ns) (\<lambda>st w. map_done mf R vs prev (length ns) (fst st) w)"
  using assms(2-3)
proof (induction ns arbitrary: vs prev)
  case Nil
  show ?case unfolding fold_ops.simps by (intro sound_ret) (simp add: map_done_def)
next
  case (Cons n ns)
  have fields: "fi_field q = fi_field p \<longleftrightarrow> q = p" if "q \<in> set mf" "p \<in> set mf" for p q
    using that df by (auto simp: distinct_map inj_on_def)
  show ?case
    unfolding fold_ops.simps
  proof (rule sound_andThen, rule sound_map_step, rule Cons.prems(2), assumption, assumption)
    fix st w
    assume "case st of (vs', prev') \<Rightarrow> \<exists>p x v. p \<in> set mf \<and> after_key prev (fi_key p) \<and>
      vs' = vs[fi_field p := x] \<and> prev' = Some (fi_key p) \<and> w = wire_int (fi_key p) @ v \<and> R p x v"
    then obtain p x v where p: "p \<in> set mf" "after_key prev (fi_key p)" "R p x v"
      and st: "st = (vs[fi_field p := x], Some (fi_key p))" and w: "w = wire_int (fi_key p) @ v" by auto
    have "sound (fold_ops (map_step dec mf) st ns)
        (\<lambda>st w. map_done mf R (vs[fi_field p := x]) (Some (fi_key p)) (length ns) (fst st) w)"
      unfolding st
    proof (rule Cons.IH)
      fix q assume q: "q \<in> set mf" "after_key (Some (fi_key p)) (fi_key q)"
      then have "fi_field q \<noteq> fi_field p" using fields [OF q(1) p(1)] by (auto simp: after_key_def)
      moreover have "mapKeyCmp (fi_key p) (fi_key q) < 0" using q(2) by (simp add: after_key_def)
      then have "after_key prev (fi_key q)" by (rule after_key_trans [OF p(2)])
      ultimately show "sound (dec q (vs[fi_field p := x] ! fi_field q)) (R q)" using Cons.prems(2) [OF q(1)] by simp
    qed (use Cons.prems in simp)
    then show "sound (fold_ops (map_step dec mf) st ns)
        (\<lambda>st' v. map_done mf R vs prev (length (n # ns)) (fst st') (w @ v))"
      unfolding w length_Cons
      by (rule sound_mono)
        (erule map_done_Cons [where R = R, OF _ p Cons.prems(1) [OF p(1)] fields [OF _ p(1)]])
  qed
qed


fun type_exact :: "gtype \<Rightarrow> bool" where
  "type_exact (TUint b) \<longleftrightarrow> b = 64"
| "type_exact (TInt b) \<longleftrightarrow> b = 64"
| "type_exact (TStruct nm fs) \<longleftrightarrow>
     go_slice fs \<and> (isOptionType (TStruct nm fs) \<or> distinct_keys fs) \<and> (\<forall>f \<in> set fs. type_exact (f_type f))"
| "type_exact (TPtr t) \<longleftrightarrow> type_exact t"
| "type_exact _ \<longleftrightarrow> True"

lemma sound_codec:
  assumes "wire_codec enc dec ok wire"
  shows "sound dec (\<lambda>x w. ok x \<and> w = wire x)"
  by (rule soundI) (auto simp: wire_codec.dec_iff [OF assms] consumed_def)

lemmas sound_scalars =
  sound_codec [OF uint_codec.wire_codec_axioms] sound_codec [OF int_codec.wire_codec_axioms]
  sound_codec [OF text_codec.wire_codec_axioms] sound_codec [OF bytes_codec.wire_codec_axioms]
  sound_codec [OF fixed_codec.wire_codec_axioms] sound_codec [OF bool_codec.wire_codec_axioms]
  sound_codec [OF null_codec.wire_codec_axioms] sound_codec [OF array_header_codec.wire_codec_axioms]
  sound_codec [OF map_header_codec.wire_codec_axioms]

lemma sound_peek:
  assumes "sound A R" and "sound B S" and "\<And>x w. S x w \<Longrightarrow> w \<noteq> []"
    and "\<And>x w. S x w \<Longrightarrow> \<not> null_first w \<Longrightarrow> R x w"
  shows "sound (\<lambda>dec. if PeekNull dec then A dec else B dec) R"
proof (rule soundI)
  fix pre s x d
  assume a: "(if PeekNull (at_pos pre s) then A (at_pos pre s) else B (at_pos pre s)) = (Inr x, d)"
  show "\<exists>w. consumed d pre s w \<and> R x w"
  proof (cases "PeekNull (at_pos pre s)")
    case True
    then show ?thesis using a soundD [OF assms(1)] by simp
  next
    case False
    with a obtain w where w: "consumed d pre s w" "S x w" using soundD [OF assms(2)] by (metis (full_types))
    then have "\<not> null_first w"
      using False PeekNull_null_first [OF assms(3) [OF w(2)]] by (auto simp: consumed_def)
    with w assms(4) show ?thesis by blast
  qed
qed

lemma sound_bind_ret:
  assumes "sound m P" and "\<And>x w. P x w \<Longrightarrow> R (f x) w"
  shows "sound (andThen m (\<lambda>x. ret (f x))) R"
  using assms by (intro sound_andThen [OF assms(1)] sound_ret) simp

lemma carriesD: "carries hk ty v opt w \<Longrightarrow> w \<noteq> [] \<and> (null_first w \<longleftrightarrow> null_val ty v)"
  by (simp add: carries_def)

lemma decodeKind_leaf:
  "decodeKind hk TBool old opt = andThen DecodeBool (\<lambda>b. ret (VBool b))"
  "decodeKind hk (TUint k) old opt = andThen DecodeUint (\<lambda>n. ret (set_uint k n))"
  "decodeKind hk (TInt k) old opt = andThen DecodeInt (\<lambda>n. ret (set_int k n))"
  "decodeKind hk TString old opt = andThen DecodeText (\<lambda>s. ret (VString s))"
  "decodeKind hk TBytes old opt = (\<lambda>dec. if PeekNull dec then
      (if \<not> opt then fail ErrUnexpectedNull else andThen DecodeNull (\<lambda>_. ret (VBytes None))) dec
      else andThen DecodeBytes (\<lambda>bs. ret (VBytes (Some bs))) dec)"
  "decodeKind hk (TByteArray n) old opt = andThen (DecodeBytesFixed (int n)) (\<lambda>bs. ret (VArray bs))"
  "decodeKind hk TUnit old opt =
     andThen DecodeArrayHeader (\<lambda>len. if len \<noteq> 0 then fail ErrUnexpectedItemCount else ret VEmpty)"
  "decodeKind hk TNull old opt = andThen DecodeNull (\<lambda>_. ret VEmpty)"
  "decodeKind hk (TSlice t) old opt = fail ErrUnsupportedType"
  "decodeKind hk (TArray n t) old opt = fail ErrUnsupportedType"
  "decodeKind hk (TOther nm) old opt = fail ErrUnsupportedType"
  by (rule ext, simp add: decodeKind.simps)+

lemma signed64: "signed_take_bit 63 (i :: i64) = i"
proof (rule bit_word_eqI)
  fix n assume "n < LENGTH(64)"
  then have "63 \<le> n \<longrightarrow> n = 63" by auto
  then show "bit (signed_take_bit 63 i) n \<longleftrightarrow> bit i n" by (auto simp: bit_simps min_def)
qed

lemma decodeKind_sound:
  assumes "\<forall>nm. ty \<noteq> TCustom nm" and "\<forall>t. ty \<noteq> TPtr t" and "\<forall>nm fs. ty \<noteq> TStruct nm fs" and "type_exact ty"
  shows "sound (decodeKind hk ty old opt) (\<lambda>v w. carries hk ty v opt w)"
proof (cases ty)
  case TRaw
  show "sound (decodeKind hk ty old opt) (\<lambda>v w. carries hk ty v opt w)"
  proof (rule soundI)
    fix pre s x d
    assume "decodeKind hk ty old opt (at_pos pre s) = (Inr x, d)"
    then have a: "skipObject maxDepth (at_pos pre s) = (Inr (), d)"
      and x: "x = VBytes (Some (take (pos d - length pre) s))"
      by (auto simp: TRaw decodeKind.simps andThen_eq_Inr)
    obtain w s' where "s = w @ s'" "d = at_pos (pre @ w) s'" "reads (skipObject maxDepth) w ()"
      by (rule local_opE [OF local_skipObject a])
    then show "\<exists>w. consumed d pre s w \<and> carries hk ty x opt w"
      unfolding TRaw x by (intro exI [of _ w]) (auto simp: consumed_def raw_ok_reads intro: carries_raw)
  qed
next
  case TBytes
  have "sound (\<lambda>dec. if PeekNull dec then
      (if \<not> opt then fail ErrUnexpectedNull else andThen DecodeNull (\<lambda>_. ret (VBytes None))) dec
      else andThen DecodeBytes (\<lambda>bs. ret (VBytes (Some bs))) dec) (\<lambda>v w. carries hk TBytes v opt w)"
  proof (rule sound_peek)
    show "sound (if \<not> opt then fail ErrUnexpectedNull else andThen DecodeNull (\<lambda>_. ret (VBytes None)))
        (\<lambda>v w. carries hk TBytes v opt w)"
      by (intro sound_if sound_fail sound_bind_ret [OF sound_scalars(7)]) (use carries_scalar(6) in auto)
    show "sound (andThen DecodeBytes (\<lambda>bs. ret (VBytes (Some bs)))) (\<lambda>v w. carries hk TBytes v opt w)"
      by (rule sound_bind_ret [OF sound_scalars(4)]) (use carries_scalar(5) in auto)
  qed (auto dest: carriesD)
  then show ?thesis by (simp only: TBytes decodeKind_leaf)
next
  case TUnit
  show ?thesis unfolding TUnit decodeKind_leaf
    by (rule sound_andThen [OF sound_scalars(8)])
      (use carries_scalar(8) in \<open>auto intro!: sound_if sound_fail sound_ret simp del: fail_app ret_app\<close>)
next
  case (TUint k)
  show ?thesis unfolding TUint decodeKind_leaf
    by (rule sound_bind_ret [OF sound_scalars(1)])
      (use assms(4) carries_scalar(2) [of 64] in \<open>simp add: TUint set_uint_def take_bit_word_eq_self\<close>)
next
  case (TInt k)
  show ?thesis unfolding TInt decodeKind_leaf
    by (rule sound_bind_ret [OF sound_scalars(2)])
      (use assms(4) carries_scalar(3) [of 64] signed64 in \<open>simp add: TInt set_int_def\<close>)
next
  case TBool
  show ?thesis unfolding TBool decodeKind_leaf
    by (rule sound_bind_ret [OF sound_scalars(6)]) (use carries_scalar(1) in auto)
next
  case TString
  show ?thesis unfolding TString decodeKind_leaf
    by (rule sound_bind_ret [OF sound_scalars(3)]) (use carries_scalar(4) in auto)
next
  case (TByteArray n)
  show ?thesis unfolding TByteArray decodeKind_leaf
    by (rule sound_bind_ret [OF sound_scalars(5)]) (use carries_scalar(7) in auto)
next
  case TNull
  show ?thesis unfolding TNull decodeKind_leaf
    by (rule sound_bind_ret [OF sound_scalars(7)]) (use carries_scalar(9) in auto)
qed (use assms in \<open>simp_all add: decodeKind_leaf sound_fail\<close>)


lemma decode_leaf:
  assumes "\<forall>nm. ty \<noteq> TCustom nm" and "\<forall>t. ty \<noteq> TPtr t" and "\<forall>nm fs. ty \<noteq> TStruct nm fs" and "type_exact ty"
  shows "sound (decodeValue hk ty old opt) (\<lambda>v w. carries hk ty v opt w)"
  unfolding decodeValue_kind [OF assms(1,2)] using assms by (rule decodeKind_sound)

lemma zero_val_nth: "i < length fs \<Longrightarrow> old_fields (zero_val hk (TStruct nm fs)) ! i = zero_val hk (f_type (fs ! i))"
  by (simp add: old_fields_def)

lemma decode_option_sound:
  assumes o: "isOptionType (TStruct nm fs)"
    and IH: "sound (decodeValue hk (f_type (fs ! 0)) (zero_val hk (f_type (fs ! 0))) False)
      (\<lambda>v w. carries hk (f_type (fs ! 0)) v False w)"
  shows "sound (decodeKind hk (TStruct nm fs) (zero_val hk (TStruct nm fs)) opt) (\<lambda>v w. carries hk (TStruct nm fs) v opt w)"
proof -
  have z: "old_fields (zero_val hk (TStruct nm fs)) ! 0 = zero_val hk (f_type (fs ! 0))"
    using o by (intro zero_val_nth isOptionType_length)
  let ?none = "VStruct [zero_val hk (f_type (fs ! 0)), VBool False]"
  have "sound (\<lambda>dec. if PeekNull dec then andThen DecodeNull (\<lambda>_. ret ?none) dec
      else andThen (decodeValue hk (f_type (fs ! 0)) (zero_val hk (f_type (fs ! 0))) False) (\<lambda>x. ret (VStruct [x, VBool True])) dec)
      (\<lambda>v w. carries hk (TStruct nm fs) v opt w)"
  proof (rule sound_peek)
    show "sound (andThen DecodeNull (\<lambda>_. ret ?none)) (\<lambda>v w. carries hk (TStruct nm fs) v opt w)"
      by (rule sound_bind_ret [OF sound_scalars(7)]) (use carries_option_none [OF o] in auto)
    show "sound (andThen (decodeValue hk (f_type (fs ! 0)) (zero_val hk (f_type (fs ! 0))) False) (\<lambda>x. ret (VStruct [x, VBool True])))
        (\<lambda>v w. \<exists>x. v = VStruct [x, VBool True] \<and> carries hk (f_type (fs ! 0)) x False w)"
      by (rule sound_bind_ret [OF IH]) auto
    show "carries hk (TStruct nm fs) v opt w"
      if "\<exists>x. v = VStruct [x, VBool True] \<and> carries hk (f_type (fs ! 0)) x False w" and "\<not> null_first w" for v w
      using that carries_option_some [OF o] carriesD by blast
  qed (auto dest: carriesD)
  moreover have "decodeKind hk (TStruct nm fs) (zero_val hk (TStruct nm fs)) opt = (\<lambda>dec. if PeekNull dec then
        andThen DecodeNull (\<lambda>_. ret ?none) dec
      else andThen (decodeValue hk (f_type (fs ! 0)) (zero_val hk (f_type (fs ! 0))) False) (\<lambda>x. ret (VStruct [x, VBool True])) dec)"
    by (rule ext, subst decodeKind.simps) (simp add: o z del: zero_val.simps)
  ultimately show ?thesis by simp
qed

lemma of_nat_of_sint: "sint (l :: u64) = int n \<Longrightarrow> n \<le> max_int \<and> l = of_nat n"
  by (auto simp: sint_eq_nat)

lemma decode_array_sound:
  assumes a: "wantArray fs" "\<not> isOptionType (TStruct nm fs)" "go_slice fs"
    and IH: "\<And>f opt. f \<in> set fs \<Longrightarrow> sound (decodeValue hk (f_type f) (zero_val hk (f_type f)) opt)
      (\<lambda>v w. carries hk (f_type f) v opt w)"
  shows "sound (decodeKind hk (TStruct nm fs) (zero_val hk (TStruct nm fs)) opt) (\<lambda>v w. carries hk (TStruct nm fs) v opt w)"
proof -
  let ?zs = "old_fields (zero_val hk (TStruct nm fs))" and ?R = "\<lambda>v w. carries hk (TStruct nm fs) v opt w"
  let ?n = "length (arrayFields fs)"
  let ?loop = "fold_ops (\<lambda>vs f. andThen (decodeValue hk (f_type (fs ! afi_field f)) (vs ! afi_field f) (afi_optional f))
        (\<lambda>x. ret (vs[afi_field f := x]))) ?zs (arrayFields fs)"
  have lz: "length ?zs = length fs" by (simp add: old_fields_def)
  have loop: "sound ?loop (\<lambda>vs' w. length vs' = length ?zs \<and>
      (\<forall>i < length ?zs. i \<notin> afi_field ` set (arrayFields fs) \<longrightarrow> vs' ! i = ?zs ! i) \<and>
      (\<exists>W. w = concat (map W (arrayFields fs)) \<and> (\<forall>f \<in> set (arrayFields fs).
        carries hk (f_type (fs ! afi_field f)) (vs' ! afi_field f) (afi_optional f) (W f))))"
    using arrayFields_distinct [of fs] IH
    by (intro sound_array_fields) (simp_all add: lz arrayFields_index zero_val_nth del: zero_val.simps)
  have "sound (andThen DecodeArrayHeader (\<lambda>len. if sint len \<noteq> int ?n then fail ErrUnexpectedItemCount
      else andThen ?loop (\<lambda>vs. ret (VStruct vs)))) ?R"
  proof (rule sound_andThen [OF sound_scalars(8)], intro sound_if sound_fail)
    fix l w assume w: "True \<and> w = enc_head majorArray l" and "\<not> sint l \<noteq> int ?n"
    then have l: "l = of_nat ?n" using of_nat_of_sint by simp
    show "sound (andThen ?loop (\<lambda>vs. ret (VStruct vs))) (\<lambda>y v. ?R y (w @ v))"
    proof (rule sound_bind_ret [OF loop], elim conjE exE)
      fix vs v W
      assume "length vs = length ?zs"
        and z: "\<forall>i < length ?zs. i \<notin> afi_field ` set (arrayFields fs) \<longrightarrow> vs ! i = ?zs ! i"
        and v: "v = concat (map W (arrayFields fs))"
        and W: "\<forall>f \<in> set (arrayFields fs). carries hk (f_type (fs ! afi_field f)) (vs ! afi_field f) (afi_optional f) (W f)"
      then have len: "length vs = length fs" by (simp add: lz del: zero_val.simps)
      have "i \<in> afi_field ` set (arrayFields fs) \<or> vs ! i = zero_val hk (f_type (fs ! i))" if "i < length fs" for i
        using z that by (auto simp: lz zero_val_nth simp del: zero_val.simps)
      from carries_array_struct [OF a len _ this, of W] W
      show "?R (VStruct vs) (w @ v)" using w l v by simp
    qed
  qed
  moreover have "decodeKind hk (TStruct nm fs) (zero_val hk (TStruct nm fs)) opt =
      andThen DecodeArrayHeader (\<lambda>len. if sint len \<noteq> int ?n then fail ErrUnexpectedItemCount
        else andThen ?loop (\<lambda>vs. ret (VStruct vs)))"
    using a(1,2) by (intro ext, subst decodeKind.simps) (simp del: zero_val.simps)
  ultimately show ?thesis by (simp only:)
qed


lemma sorted_fields_unique:
  assumes "sorted_wrt (\<lambda>p q. mapKeyCmp (fi_key p) (fi_key q) < 0) ps" and "set ps \<subseteq> set mf"
    and "length ps = length mf" and "distinct (map fi_key mf)"
  shows "ps = sort_fields mf"
proof -
  let ?r = "\<lambda>p :: fieldInfo. key_rank (fi_key p)"
  have strict: "sorted_wrt (<) (map ?r ps)" "sorted_wrt (<) (map ?r (sort_fields mf))"
    using assms(1) strictly_sorted_fields [OF assms(4)] by (simp_all add: sorted_wrt_map mapKeyCmp_less)
  then have "distinct (map ?r ps)" using strict_sorted_iff by blast
  then have "card (set ps) = length mf" using assms(3) by (simp add: distinct_map distinct_card)
  moreover have "card (set mf) = length mf" using assms(4) by (simp add: distinct_map distinct_card)
  ultimately have eq: "set ps = set mf" using assms(2) by (intro card_subset_eq) auto
  have "map ?r ps = map ?r (sort_fields mf)"
    using strict by (intro strict_sorted_equal) (simp_all add: eq)
  moreover have "inj_on ?r (set ps \<union> set (sort_fields mf))"
    using assms(4) by (auto simp: eq inj_on_def distinct_map key_rank_inject)
  ultimately show ?thesis using inj_on_map_eq_map by blast
qed

lemma decode_map_sound:
  assumes a: "\<not> wantArray fs" "\<not> isOptionType (TStruct nm fs)" "go_slice fs"
    and m: "mapFields fs = Inr mf" "distinct (map fi_key mf)"
    and IH: "\<And>f opt. f \<in> set fs \<Longrightarrow> sound (decodeValue hk (f_type f) (zero_val hk (f_type f)) opt)
      (\<lambda>v w. carries hk (f_type f) v opt w)"
  shows "sound (decodeKind hk (TStruct nm fs) (zero_val hk (TStruct nm fs)) opt) (\<lambda>v w. carries hk (TStruct nm fs) v opt w)"
proof (cases "mf = [] \<and> structFields fs \<noteq> []")
  case True
  then have "decodeKind hk (TStruct nm fs) old opt = fail ErrUnsupportedType" for old
    using a(1,2) m(1) by (intro ext, subst decodeKind.simps) (simp del: zero_val.simps)
  then show ?thesis by (simp only: sound_fail)
next
  case False
  let ?zs = "old_fields (zero_val hk (TStruct nm fs))" and ?R = "\<lambda>v w. carries hk (TStruct nm fs) v opt w"
  let ?n = "length mf"
  let ?dec = "\<lambda>fi old. decodeValue hk (f_type (fs ! fi_field fi)) old (fi_optional fi)"
  let ?Rf = "\<lambda>fi v w. carries hk (f_type (fs ! fi_field fi)) v (fi_optional fi) w"
  let ?loop = "\<lambda>len. fold_ops (map_step ?dec mf) (?zs, None) [0..<unat (len :: u64)]"
  have lz: "length ?zs = length fs" by (simp add: old_fields_def)
  have loop: "sound (?loop len) (\<lambda>st w. map_done mf ?Rf ?zs None (length [0..<unat len]) (fst st) w)" for len
    using mapFields_distinct [OF m(1)] IH
    by (intro sound_map_fields) (simp_all add: lz mapFields_index [OF m(1)] zero_val_nth del: zero_val.simps)
  have "sound (andThen DecodeMapHeader (\<lambda>len. if sint len \<noteq> int ?n then fail ErrUnexpectedItemCount
      else andThen (?loop len) (\<lambda>(vs, _). ret (VStruct vs)))) ?R"
  proof (rule sound_andThen [OF sound_scalars(9)], intro sound_if sound_fail)
    fix l w assume w: "True \<and> w = enc_head majorMap l" and "\<not> sint l \<noteq> int ?n"
    then have l: "l = of_nat ?n" "unat l = ?n" using of_nat_of_sint [of l ?n] sint_eq_nat [of l ?n] by auto
    show "sound (andThen (?loop l) (\<lambda>(vs, _). ret (VStruct vs))) (\<lambda>y v. ?R y (w @ v))"
    proof (rule sound_andThen [OF loop])
      fix st v
      assume "map_done mf ?Rf ?zs None (length [0..<unat l]) (fst st) v"
      then obtain ps W where len: "length (fst st) = length fs" and lp: "length ps = ?n" and ps: "set ps \<subseteq> set mf"
        and sorted: "sorted_wrt (\<lambda>p q. mapKeyCmp (fi_key p) (fi_key q) < 0) ps"
        and v: "v = concat (map (\<lambda>p. wire_int (fi_key p) @ W p) ps)"
        and W: "\<And>p. p \<in> set ps \<Longrightarrow> ?Rf p (fst st ! fi_field p) (W p)"
        and z: "\<And>i. i < length fs \<Longrightarrow> i \<notin> fi_field ` set ps \<Longrightarrow> fst st ! i = ?zs ! i"
        by (auto simp: map_done_def l(2) lz simp del: zero_val.simps)
      have p: "ps = sort_fields mf" by (rule sorted_fields_unique [OF sorted ps lp m(2)])
      have "i \<in> fi_field ` set mf \<or> fst st ! i = zero_val hk (f_type (fs ! i))" if "i < length fs" for i
        using z [OF that] that by (auto simp: p zero_val_nth simp del: zero_val.simps)
      from carries_map_struct [OF a len m(1) False m(2) _ this, of W] W
      have "?R (VStruct (fst st)) (w @ v)" using w l v by (simp add: p)
      then show "sound (case st of (vs, _) \<Rightarrow> ret (VStruct vs)) (\<lambda>y v'. ?R y (w @ v @ v'))"
        by (cases st) (auto intro!: sound_ret simp del: ret_app)
    qed
  qed
  moreover have "decodeKind hk (TStruct nm fs) (zero_val hk (TStruct nm fs)) opt =
      andThen DecodeMapHeader (\<lambda>len. if sint len \<noteq> int ?n then fail ErrUnexpectedItemCount
        else andThen (?loop len) (\<lambda>(vs, _). ret (VStruct vs)))"
    by (intro ext, subst decodeKind.simps) (simp only: gtype.case a(1,2) m(1) False if_False sum.case)
  ultimately show ?thesis by (simp only:)
qed

lemma decodeKind_map_error:
  assumes "\<not> wantArray fs" "\<not> isOptionType (TStruct nm fs)" "mapFields fs = Inl e"
  shows "decodeKind hk (TStruct nm fs) old opt = fail e"
  using assms by (intro ext, subst decodeKind.simps) simp

lemma decode_ptr_sound:
  assumes t: "\<forall>nm. t \<noteq> TCustom nm"
    and IH: "sound (decodeValue hk t (zero_val hk t) False) (\<lambda>v w. carries hk t v False w)"
  shows "sound (decodeValue hk (TPtr t) (zero_val hk (TPtr t)) opt) (\<lambda>v w. carries hk (TPtr t) v opt w)"
proof -
  let ?A = "if \<not> opt then fail ErrUnexpectedNull else andThen DecodeNull (\<lambda>_. ret (VPtr None))"
  let ?B = "andThen (decodeKind hk t (zero_val hk t) False) (\<lambda>x. ret (VPtr (Some x)))"
  let ?R = "\<lambda>v w. carries hk (TPtr t) v opt w"
  let ?S = "\<lambda>v w. (\<forall>u. t \<noteq> TPtr u) \<and> (\<exists>x. v = VPtr (Some x) \<and> carries hk t x False w)"
  have d: "decodeValue hk (TPtr t) (zero_val hk (TPtr t)) opt =
      (\<lambda>dec. if \<not> isOptionType t \<and> PeekNull dec then ?A dec else ?B dec)"
    using t by (intro ext, subst decodeValue.simps) (cases t; hypsubst; simp)
  have B: "sound ?B ?S"
  proof (cases "\<exists>u. t = TPtr u")
    case True
    then have "decodeKind hk t (zero_val hk t) False = fail ErrUnsupportedType"
      by (intro ext, subst decodeKind.simps) auto
    then show ?thesis by (simp only:) (rule sound_andThen [OF sound_fail [where R = "\<lambda>_ _. False"]], simp)
  next
    case False
    then have "decodeKind hk t (zero_val hk t) False = decodeValue hk t (zero_val hk t) False"
      using decodeValue_kind [OF t, symmetric] by simp
    with False IH show ?thesis by (simp only:) (rule sound_bind_ret, assumption, auto)
  qed
  show ?thesis
  proof (cases "isOptionType t")
    case True
    then have "decodeValue hk (TPtr t) (zero_val hk (TPtr t)) opt = ?B" unfolding d by (intro ext) simp
    then show ?thesis
      by (simp only:) (rule sound_mono [OF B], use carries_ptr [OF t] True in auto)
  next
    case False
    have "sound (\<lambda>dec. if PeekNull dec then ?A dec else ?B dec) ?R"
    proof (rule sound_peek [OF _ B])
      show "sound ?A ?R"
        by (intro sound_if sound_fail sound_bind_ret [OF sound_scalars(7)]) (use carries_ptr_nil [OF t False] in auto)
      show "?R v w" if "?S v w" "\<not> null_first w" for v w
        using that carries_ptr [OF t] carriesD by blast
    qed (auto dest: carriesD)
    then show ?thesis unfolding d using False by (simp only: simp_thms)
  qed
qed

lemma decoded_carried:
  assumes hk: "hooks_ok hk cok cw"
  shows "type_exact ty \<Longrightarrow> sound (decodeValue hk ty (zero_val hk ty) opt) (\<lambda>v w. carries hk ty v opt w)"
proof (induction ty arbitrary: opt rule: measure_induct_rule [where f = size])
  case (less ty)
  have custom: "sound (unmarshalCBOR hk nm) (\<lambda>c w. cok nm c \<and> w = cw nm c)" for nm
    using hk by (intro sound_codec [where enc = "\<lambda>c. marshalCBOR hk nm (Some c)"]) (simp add: hooks_ok_def)
  show ?case
  proof (cases ty)
    case (TCustom nm)
    have "decodeValue hk (TCustom nm) old opt = andThen (unmarshalCBOR hk nm) (\<lambda>c. ret (VCustom c))" for old
      by (rule ext) (simp add: decodeValue.simps)
    then show ?thesis unfolding TCustom
      by (simp only:) (rule sound_bind_ret [OF custom], use carries_custom(1) [OF hk] in auto)
  next
    case (TPtr t)
    show ?thesis
    proof (cases "\<exists>nm. t = TCustom nm")
      case True
      then obtain nm where t: "t = TCustom nm" ..
      have "decodeValue hk (TPtr (TCustom nm)) old opt = andThen (unmarshalCBOR hk nm) (\<lambda>c. ret (VPtr (Some (VCustom c))))" for old
        by (rule ext) (simp add: decodeValue.simps)
      then show ?thesis unfolding TPtr t
        by (simp only:) (rule sound_bind_ret [OF custom], use carries_custom(2) [OF hk] in auto)
    next
      case False
      then have t: "\<forall>nm. t \<noteq> TCustom nm" by simp
      have "sound (decodeValue hk t (zero_val hk t) False) (\<lambda>v w. carries hk t v False w)"
        using less.IH [of t False] less.prems by (simp add: TPtr)
      then show ?thesis unfolding TPtr by (rule decode_ptr_sound [OF t])
    qed
  next
    case (TStruct nm fs)
    have k: "decodeValue hk ty old opt = decodeKind hk ty old opt" for old
      by (rule decodeValue_kind) (simp_all add: TStruct)
    have IH: "sound (decodeValue hk (f_type f) (zero_val hk (f_type f)) opt) (\<lambda>v w. carries hk (f_type f) v opt w)"
      if "f \<in> set fs" for f opt
      using less.IH [of "f_type f"] less.prems that by (simp add: TStruct)
    show ?thesis
    proof (cases "isOptionType ty")
      case True
      then have "fs ! 0 \<in> set fs" unfolding TStruct by (auto simp: isOptionType_struct)
      from decode_option_sound [OF True [unfolded TStruct] IH [OF this]] show ?thesis unfolding k unfolding TStruct .
    next
      case False
      with less.prems have d: "go_slice fs" "distinct_keys fs" by (simp_all add: TStruct)
      show ?thesis
      proof (cases "wantArray fs")
        case True
        from decode_array_sound [OF True False [unfolded TStruct] d(1) IH] show ?thesis unfolding k unfolding TStruct .
      next
        case nA: False
        with d(2) obtain mf where "mapFields fs = Inr mf" "distinct (map fi_key mf)"
          by (auto simp: distinct_keys_def split: sum.splits)
        from decode_map_sound [OF nA False [unfolded TStruct] d(1) this IH] show ?thesis unfolding k unfolding TStruct .
      qed
    qed
  qed (rule decode_leaf; use less.prems in simp)+
qed

section \<open>Properties\<close>

lemma encode_ptr_addr: "encodeValue hk (TPtr t) v False opt = encodeValue hk (TPtr t) v True opt"
  by (intro ext, subst (1 2) encodeValue.simps) (cases t; cases v; simp)

lemma decode_ptr_zero:
  "decodeValue hk (TPtr t) (VPtr (Some (zero_val hk t))) opt = decodeValue hk (TPtr t) (zero_val hk (TPtr t)) opt"
  by (intro ext, subst (1 2) decodeValue.simps) (cases t; simp)

lemma decode_ptr_some:
  "decodeValue hk (TPtr t) old False dec = (Inr x, d) \<Longrightarrow> \<exists>y. x = VPtr (Some y)"
  by (subst (asm) decodeValue.simps) (cases t; auto simp: andThen_eq_Inr split: if_splits)

lemma Marshal_carried: "carries hk (TPtr ty) v False w \<Longrightarrow> Marshal hk (TPtr ty) v = Inr w"
  by (simp add: Marshal_def encode_ptr_addr carries_def emits_def)

lemma Unmarshal_eq:
  "Unmarshal hk bs ty (zero_val hk ty) =
     (case decodeValue hk (TPtr ty) (zero_val hk (TPtr ty)) False (at_pos [] bs) of
        (Inl e, _) \<Rightarrow> Inl e
      | (Inr v, dec) \<Rightarrow>
          (case Finish dec of Inl e \<Rightarrow> Inl e
           | Inr _ \<Rightarrow> (case v of VPtr (Some x) \<Rightarrow> Inr x | _ \<Rightarrow> Inr (zero_val hk ty))))"
  by (simp only: Unmarshal_def decode_ptr_zero NewDecoder_at_pos)

text \<open>A type that marshals itself as a byte string, for the witnesses.\<close>

definition byte_hooks :: "bytes hooks" where
  "byte_hooks = \<lparr>marshalCBOR = (\<lambda>nm c. emit (EncodeBytes (case c of None \<Rightarrow> [] | Some bs \<Rightarrow> bs))),
     unmarshalCBOR = (\<lambda>nm. DecodeBytes), zeroCustom = (\<lambda>nm. [])\<rparr>"

lemma byte_hooks_ok: "hooks_ok byte_hooks (\<lambda>nm. go_slice) (\<lambda>nm. wire_bytes)"
  using bytes_codec.wire_codec_axioms by (simp add: hooks_ok_def byte_hooks_def)

definition sample_fields :: "gfield list" where
  "sample_fields = [GField ''Kid'' True ''-4,key'' (TCustom ''id''), GField ''Alg'' True ''1,key'' (TInt 64),
      GField ''IV'' True ''5,key,optional'' TBytes, GField ''cache'' False [] (TUint 64)]"

definition sample_type :: gtype where
  "sample_type = TStruct ''header'' sample_fields"

definition sample_value :: "bytes gval" where
  "sample_value = VStruct [VCustom [7, 8], VInt (-3), VBytes None, VUint 0]"

lemma Unmarshal_run:
  assumes "hooks_ok hk cok cw" and "val_ok hk cok (TPtr ty) (VPtr (Some v)) False"
  shows "\<exists>bs. Marshal hk (TPtr ty) (VPtr (Some v)) = Inr bs \<and> Unmarshal hk bs ty (zero_val hk ty) = Inr v"
proof -
  from val_ok_carried [OF assms] obtain w where c: "carries hk (TPtr ty) (VPtr (Some v)) False w" ..
  then have "decodeValue hk (TPtr ty) (zero_val hk (TPtr ty)) False (at_pos [] (w @ [])) =
      (Inr (VPtr (Some v)), at_pos ([] @ w) [])"
    unfolding carries_def reads_def by blast
  then have "Unmarshal hk w ty (zero_val hk ty) = Inr v" by (simp add: Unmarshal_eq del: zero_val.simps)
  with Marshal_carried [OF c] show ?thesis by blast
qed

lemma Unmarshal_exact:
  assumes "hooks_ok hk cok cw" and "type_exact ty" and "Unmarshal hk bs ty (zero_val hk ty) = Inr v"
  shows "Marshal hk (TPtr ty) (VPtr (Some v)) = Inr bs"
proof -
  from assms(3) obtain x d where d: "decodeValue hk (TPtr ty) (zero_val hk (TPtr ty)) False (at_pos [] bs) = (Inr x, d)"
    and f: "Finish d = Inr ()" and x: "(case x of VPtr (Some y) \<Rightarrow> Inr y | _ \<Rightarrow> Inr (zero_val hk ty)) = (Inr v :: cbor_error + _)"
    by (auto simp: Unmarshal_eq split: prod.splits sum.splits simp del: zero_val.simps)
  have v: "x = VPtr (Some v)" using decode_ptr_some [OF d] x by auto
  have "sound (decodeValue hk (TPtr ty) (zero_val hk (TPtr ty)) False) (\<lambda>v w. carries hk (TPtr ty) v False w)"
    using decoded_carried [OF assms(1), of "TPtr ty"] assms(2) by simp
  from soundD [OF this d] obtain w where "consumed d [] bs w" and c: "carries hk (TPtr ty) x False w" by blast
  with f have w: "w = bs" by (auto simp: consumed_def split: if_splits)
  show ?thesis using Marshal_carried [OF c] by (simp add: w v)
qed

lemma sample_ok:
  "val_ok byte_hooks (\<lambda>nm. go_slice) sample_type sample_value False" "\<not> null_val sample_type sample_value"
  "distinct_keys sample_fields"
proof -
  let ?vs = "[VCustom [7, 8], VInt (-3), VBytes None, VUint 0] :: bytes gval list"
  let ?ios = "[(0, False), (1, False), (2, True)] :: (nat \<times> bool) list"
  have o: "\<not> isOptionType sample_type" and d: "distinct_keys sample_fields"
    and f: "fields_of sample_fields = Inr ?ios" by code_simp+
  have ty: "map f_type sample_fields = [TCustom ''id'', TInt 64, TBytes, TUint 64]"
    by (simp add: sample_fields_def)
  have len: "length sample_fields = 4" by (simp add: sample_fields_def)
  have nth: "f_type (sample_fields ! i) = [TCustom ''id'', TInt 64, TBytes, TUint 64] ! i" if "i < 4" for i
    using that by (simp flip: ty add: len)
  have "val_ok byte_hooks (\<lambda>nm. go_slice) (TStruct ''header'' sample_fields) (VStruct ?vs) False"
    unfolding val_ok_struct [OF o [unfolded sample_type_def]]
  proof (intro exI [of _ ?vs] exI [of _ ?ios] conjI)
    show "\<forall>i<length sample_fields. i \<in> fst ` set ?ios \<or> ?vs ! i = zero_val byte_hooks (f_type (sample_fields ! i))"
    proof (intro allI impI)
      fix i assume "i < length sample_fields"
      then have "i = 0 \<or> i = 1 \<or> i = 2 \<or> i = 3" by (simp add: len) linarith
      then show "i \<in> fst ` set ?ios \<or> ?vs ! i = zero_val byte_hooks (f_type (sample_fields ! i))"
        by (auto simp: nth)
    qed
    show "\<forall>p\<in>set ?ios. val_ok byte_hooks (\<lambda>nm. go_slice) (f_type (sample_fields ! fst p)) (?vs ! fst p) (snd p)"
      by (simp add: nth val_ok_leaf signed64) (simp add: go_slice_def max_int_def)
  qed (use d f in \<open>simp_all add: len go_slice_def max_int_def\<close>)
  then show "val_ok byte_hooks (\<lambda>nm. go_slice) sample_type sample_value False"
    by (simp add: sample_type_def sample_value_def)
  show "\<not> null_val sample_type sample_value" by code_simp
  show "distinct_keys sample_fields" by (rule d)
qed

text \<open>C5: \<^verbatim>\<open>Unmarshal\<close> inverts \<^verbatim>\<open>Marshal\<close>. A value of a supported type (its numbers fit their
  widths, its text is valid UTF-8, nil occurs only where a field is optional, its map keys
  differ, its unencoded fields are zero) is marshalled without an error, and unmarshalling the
  output into a fresh variable gives the value back. Types that marshal themselves are assumed
  to write something their own \<^verbatim>\<open>UnmarshalCBOR\<close> reads back, and not a null.\<close>

theorem Unmarshal_inverts_Marshal:
  assumes "hooks_ok hk cok cw" and "val_ok hk cok (TPtr ty) (VPtr (Some v)) False"
  shows "\<exists>bs. Marshal hk (TPtr ty) (VPtr (Some v)) = Inr bs \<and> Unmarshal hk bs ty (zero_val hk ty) = Inr v"
  using assms by (rule Unmarshal_run)

lemma Unmarshal_inverts_Marshal_witness:
  "\<exists>bs. Marshal byte_hooks (TPtr sample_type) (VPtr (Some sample_value)) = Inr bs \<and>
     Unmarshal byte_hooks bs sample_type (zero_val byte_hooks sample_type) = Inr sample_value"
proof (rule Unmarshal_inverts_Marshal [OF byte_hooks_ok])
  show "val_ok byte_hooks (\<lambda>nm. go_slice) (TPtr sample_type) (VPtr (Some sample_value)) False"
    by (simp add: val_ok_ptr is_ptr_iff sample_ok) (simp add: sample_type_def)
qed

text \<open>C6: what \<^verbatim>\<open>Unmarshal\<close> accepts is exactly what \<^verbatim>\<open>Marshal\<close> writes for the value it returns:
  decoding is canonical. For a type whose integers are 64 bits wide and whose map keys differ,
  a successful \<^verbatim>\<open>Unmarshal\<close> into a fresh variable returns a value that marshals to the very input,
  so no two inputs decode to the same value, whatever struct, option, pointer or \<^verbatim>\<open>Raw\<close> type is
  read. Types that marshal themselves are assumed to read exactly what they write.\<close>

theorem Unmarshal_canonical:
  assumes "hooks_ok hk cok cw" and "type_exact ty" and "Unmarshal hk bs ty (zero_val hk ty) = Inr v"
  shows "Marshal hk (TPtr ty) (VPtr (Some v)) = Inr bs"
  using assms by (rule Unmarshal_exact)

lemma Unmarshal_canonical_witness:
  "\<exists>bs. Unmarshal byte_hooks bs sample_type (zero_val byte_hooks sample_type) = Inr sample_value \<and>
     Marshal byte_hooks (TPtr sample_type) (VPtr (Some sample_value)) = Inr bs"
proof -
  have "val_ok byte_hooks (\<lambda>nm. go_slice) (TPtr sample_type) (VPtr (Some sample_value)) False"
    by (simp add: val_ok_ptr is_ptr_iff sample_ok) (simp add: sample_type_def)
  from Unmarshal_run [OF byte_hooks_ok this] obtain bs
    where u: "Unmarshal byte_hooks bs sample_type (zero_val byte_hooks sample_type) = Inr sample_value" by blast
  have "type_exact sample_type"
    using sample_ok(3) by (simp add: sample_type_def sample_fields_def go_slice_def max_int_def)
  from Unmarshal_canonical [OF byte_hooks_ok this u] u show ?thesis by blast
qed

text \<open>C7: a narrow unsigned field is not range checked: every integer that the decoder accepts is
  stored modulo \<open>2\<close> to the width of the field, so a \<^verbatim>\<open>uint8\<close> holding 300 is read as 44 and
  re-encodes differently.\<close>

theorem Unmarshal_truncates:
  "Unmarshal hk (buf (EncodeUint n NewEncoder)) (TUint b) old = Inr (VUint (take_bit b n)) \<and>
   (Marshal hk (TUint b) (VUint (take_bit b n)) = Inr (buf (EncodeUint n NewEncoder)) \<longleftrightarrow> take_bit b n = n)"
proof -
  have "DecodeUint (at_pos [] (enc_head majorUint n)) = (Inr n, at_pos (enc_head majorUint n) [])"
    using uint_codec.dec_wire [where x = n and pre = "[]" and s = "[]"] by simp
  moreover have "\<not> PeekNull (at_pos [] (enc_head majorUint n))"
    using PeekNull_null_first [of "enc_head majorUint n" "[]" "[]"] by simp
  ultimately have "Unmarshal hk (enc_head majorUint n) (TUint b) old = Inr (VUint (take_bit b n))"
    by (simp add: Unmarshal_def NewDecoder_at_pos decodeValue.simps decodeKind.simps set_uint_def
        isOptionType_def)
  moreover have "enc_head majorUint m = enc_head majorUint n \<longleftrightarrow> m = n" for m
    using enc_head_inject [of majorUint majorUint m "[]" n "[]"] by auto
  ultimately show ?thesis
    by (simp add: Marshal_def encodeValue.simps wires)
qed

end
