(* ===== verification/Cbor_Typed.thy ===== *)
theory Cbor_Typed
  imports Cbor_Marshal
begin

text \<open>
  \<open>Unmarshal\<close> is type safe: whatever the input, what it stores in a variable is a value of the
  variable's type, and what it holds of a type with methods of its own is what those methods return.
\<close>

section \<open>Values of a type\<close>

text \<open>
  The number of bytes in a slice or string is an \<^verbatim>\<open>int\<close>. Of the values of types with methods of
  their own, \<open>C\<close> says which are meant.
\<close>

function typed :: "(string \<Rightarrow> 'c \<Rightarrow> bool) \<Rightarrow> gtype \<Rightarrow> 'c gval \<Rightarrow> bool" where
  "typed C ty v =
     (case (ty, v) of
        (TBool, VBool b) \<Rightarrow> True
      | (TUint b, VUint n) \<Rightarrow> take_bit b n = n
      | (TInt b, VInt n) \<Rightarrow> signed_take_bit (b - 1) n = n
      | (TString, VString s) \<Rightarrow> go_slice s
      | (TRaw, VBytes bs) \<Rightarrow> True
      | (TBytes, VBytes bs) \<Rightarrow> pred_option go_slice bs
      | (TByteArray n, VArray bs) \<Rightarrow> length bs = n
      | (TUnit, VEmpty) \<Rightarrow> True
      | (TNull, VEmpty) \<Rightarrow> True
      | (TStruct nm fs, VStruct vs) \<Rightarrow>
          length vs = length fs \<and> (\<forall>i < length fs. typed C (f_type (fs ! i)) (vs ! i))
      | (TPtr t, VPtr None) \<Rightarrow> True
      | (TPtr t, VPtr (Some x)) \<Rightarrow> typed C t x
      | (TCustom nm, VCustom c) \<Rightarrow> C nm c
      | (TSlice t, VOther) \<Rightarrow> True
      | (TArray n t, VOther) \<Rightarrow> True
      | (TOther nm, VOther) \<Rightarrow> True
      | _ \<Rightarrow> False)"
  by pat_completeness auto
termination
  by (relation "measure (\<lambda>(C, ty, v). size ty)") auto

declare typed.simps [simp del]

abbreviation has_type :: "gtype \<Rightarrow> 'c gval \<Rightarrow> bool" where
  "has_type \<equiv> typed (\<lambda>_ _. True)"

lemma typed_simps [simp]:
  "typed C (TUint b) (VUint n) \<longleftrightarrow> take_bit b n = n"
  "typed C (TInt b) (VInt i) \<longleftrightarrow> signed_take_bit (b - 1) i = i"
  "typed C TBool (VBool x)" "typed C TString (VString s) \<longleftrightarrow> go_slice s" "typed C TRaw (VBytes y)"
  "typed C TBytes (VBytes y) \<longleftrightarrow> pred_option go_slice y"
  "typed C (TByteArray k) (VArray bs) \<longleftrightarrow> length bs = k" "typed C TUnit VEmpty" "typed C TNull VEmpty"
  "typed C (TPtr t) (VPtr None)" "typed C (TPtr t) (VPtr (Some v)) \<longleftrightarrow> typed C t v"
  "typed C (TCustom nm) (VCustom c) \<longleftrightarrow> C nm c"
  by (simp_all add: typed.simps)

lemma typed_struct:
  "typed C (TStruct nm fs) v \<longleftrightarrow>
     (\<exists>vs. v = VStruct vs \<and> length vs = length fs \<and> (\<forall>i < length fs. typed C (f_type (fs ! i)) (vs ! i)))"
  by (subst typed.simps) (cases v; simp)

lemma typed_zero:
  assumes "\<And>nm. C nm (zeroCustom hk nm)"
  shows "typed C ty (zero_val hk ty)"
proof (induction ty rule: measure_induct_rule [where f = size])
  case (less ty)
  show ?case
  proof (cases ty)
    case (TStruct nm fs)
    then show ?thesis using less.IH by (simp add: typed_struct)
  qed (simp_all add: typed.simps go_slice_def assms)
qed

lemma has_type_zero: "has_type ty (zero_val hk ty)"
  by (rule typed_zero) (rule TrueI)

lemma typed_weaken: "typed C ty v \<Longrightarrow> (\<And>nm c. C nm c \<Longrightarrow> D nm c) \<Longrightarrow> typed D ty v"
proof (induction ty arbitrary: v rule: measure_induct_rule [where f = size])
  case (less ty)
  show ?case
  proof (cases ty)
    case (TStruct nm fs)
    then show ?thesis using less by (fastforce simp: typed_struct)
  next
    case (TPtr t)
    then show ?thesis using less.prems less.IH [of t] by (cases v) (auto simp: typed.simps split: option.splits)
  qed (use less.prems in \<open>cases v; simp add: typed.simps\<close>)+
qed

text \<open>Inversions for the structs of the message formats.\<close>

lemma has_type_IntE: "has_type (TInt b) v \<Longrightarrow> \<exists>i. v = VInt i"
  and has_type_BytesE: "has_type TBytes v \<Longrightarrow> \<exists>bs. v = VBytes bs \<and> pred_option go_slice bs"
  and has_type_RawE: "has_type TRaw v \<Longrightarrow> \<exists>bs. v = VBytes bs"
  and has_type_ArrayE: "has_type (TByteArray n) v \<Longrightarrow> \<exists>bs. v = VArray bs \<and> length bs = n"
  by (cases v; simp add: typed.simps)+

section \<open>Decoding yields values of the type\<close>

definition yields :: "('s, 'e, 'a) op \<Rightarrow> ('a \<Rightarrow> bool) \<Rightarrow> bool" where
  "yields f Q \<longleftrightarrow> (\<forall>s x s'. f s = (Inr x, s') \<longrightarrow> Q x)"

lemma yieldsD: "yields f Q \<Longrightarrow> f s = (Inr x, s') \<Longrightarrow> Q x"
  by (auto simp: yields_def)

lemma yields_andThen: "yields f P \<Longrightarrow> (\<And>x. P x \<Longrightarrow> yields (g x) Q) \<Longrightarrow> yields (andThen f g) Q"
  unfolding yields_def by (metis andThen_InrE)

lemma yields_bind: "(\<And>x. yields (g x) Q) \<Longrightarrow> yields (andThen f g) Q"
  unfolding yields_def by (metis andThen_InrE)

lemma yields_ret: "Q x \<Longrightarrow> yields (ret x) Q"
  and yields_fail: "yields (fail e) Q"
  and yields_if: "(b \<Longrightarrow> yields f Q) \<Longrightarrow> (\<not> b \<Longrightarrow> yields g Q) \<Longrightarrow> yields (if b then f else g) Q"
  and yields_lam: "(\<And>t. yields (\<lambda>s. h t s) Q) \<Longrightarrow> yields (\<lambda>s. h s s) Q"
  by (auto simp: yields_def)

lemma yields_option: "(\<And>x. yields (g x) Q) \<Longrightarrow> yields f Q \<Longrightarrow> yields (case r of None \<Rightarrow> f | Some x \<Rightarrow> g x) Q"
  by (cases r) simp_all

lemma yields_fold:
  assumes "\<And>a x. x \<in> set xs \<Longrightarrow> I a \<Longrightarrow> yields (f a x) I"
  shows "I a \<Longrightarrow> yields (fold_ops f a xs) I"
  using assms
proof (induction xs arbitrary: a)
  case Nil
  then show ?case by (simp only: fold_ops.simps yields_ret)
next
  case (Cons x xs)
  have "yields (f a x) I" using Cons.prems by simp
  then show ?case by (simp add: yields_andThen Cons.IH Cons.prems(2))
qed

lemma yields_readBytes: "yields (readBytes n) go_slice"
  by (auto simp: yields_def readBytes_def go_slice_def max_int_def word_less_nat_alt split: if_splits)

lemma yields_bytes: "yields DecodeBytes go_slice" and yields_text: "yields DecodeText go_slice"
proof -
  show "yields DecodeBytes go_slice"
    unfolding DecodeBytes_def case_prod_beta by (intro yields_bind [where f = decodeHeader] yields_if yields_fail yields_readBytes)
  have "yields (andThen (readBytes len) (\<lambda>bs. if \<not> utf8_valid bs then fail ErrInvalidUTF8 else ret bs)) go_slice" for len
    by (rule yields_andThen [OF yields_readBytes]) (intro yields_if yields_fail yields_ret)
  then show "yields DecodeText go_slice"
    unfolding DecodeText_def case_prod_beta by (intro yields_bind [where f = decodeHeader] yields_if yields_fail)
qed

lemma yields_fixed: "yields (DecodeBytesFixed (int n)) (\<lambda>bs. length bs = n)"
  unfolding yields_def
proof (intro allI impI)
  fix s :: decoder and x s' assume "DecodeBytesFixed (int n) s = (Inr x, s')"
  then show "length x = n"
    by (auto simp: DecodeBytesFixed_def andThen_eq_Inr readBytes_def sint_eq_nat simp del: of_nat_unat split: if_splits)
qed

text \<open>Methods that decode nothing but values in \<open>C\<close>.\<close>

definition keeps :: "'c hooks \<Rightarrow> (string \<Rightarrow> 'c \<Rightarrow> bool) \<Rightarrow> bool" where
  "keeps hk C \<longleftrightarrow> (\<forall>nm. C nm (zeroCustom hk nm) \<and> yields (unmarshalCBOR hk nm) (C nm))"

lemma keeps_True: "keeps hk (\<lambda>_ _. True)"
  by (simp add: keeps_def yields_def)

lemma keeps_zero: "keeps hk C \<Longrightarrow> typed C ty (zero_val hk ty)"
  by (rule typed_zero) (simp add: keeps_def)

definition fields_typed :: "(string \<Rightarrow> 'c \<Rightarrow> bool) \<Rightarrow> gfield list \<Rightarrow> 'c gval list \<Rightarrow> bool" where
  "fields_typed C fs vs \<longleftrightarrow> length vs = length fs \<and> (\<forall>i < length fs. typed C (f_type (fs ! i)) (vs ! i))"

lemma fields_typed_update:
  "fields_typed C fs vs \<Longrightarrow> i < length fs \<Longrightarrow> typed C (f_type (fs ! i)) x \<Longrightarrow> fields_typed C fs (vs[i := x])"
  by (auto simp: fields_typed_def nth_list_update)

lemma struct_typed: "typed C (TStruct nm fs) (VStruct vs) \<longleftrightarrow> fields_typed C fs vs"
  by (simp add: typed_struct fields_typed_def)

lemma old_fields_typed: "typed C (TStruct nm fs) old \<Longrightarrow> fields_typed C fs (old_fields old)"
  by (auto simp: typed_struct fields_typed_def old_fields_def)

lemma option_typed:
  "isOptionType (TStruct nm [f0, f1]) \<Longrightarrow> typed C (TStruct nm [f0, f1]) (VStruct [x, VBool b]) \<longleftrightarrow> typed C (f_type f0) x"
  by (auto simp: struct_typed fields_typed_def isOptionType_struct less_Suc_eq)

lemma set_int_typed: "typed C (TInt b) (set_int b n)"
  by (simp add: set_int_def)

lemma set_uint_typed: "typed C (TUint b) (set_uint b n)"
  by (simp add: set_uint_def)

lemma map_step_typed:
  assumes dec: "\<And>vs fi. P vs \<Longrightarrow> fi \<in> set mf \<Longrightarrow>
      yields (andThen (dec fi (vs ! fi_field fi)) (\<lambda>x. ret (vs[fi_field fi := x]))) P"
    and vs: "P vs"
  shows "yields (map_step dec mf (vs, prev) n) (\<lambda>st. P (fst st))"
  unfolding map_step_def prod.case
proof (rule yields_bind, intro yields_if yields_fail)
  fix key :: i64
  show "yields (case keyToField mf key of None \<Rightarrow> fail ErrUnsupportedType
      | Some fi \<Rightarrow> andThen (dec fi (vs ! fi_field fi)) (\<lambda>x. ret (vs[fi_field fi := x], Some key))) (\<lambda>st. P (fst st))"
  proof (cases "keyToField mf key")
    case None
    then show ?thesis by (simp add: yields_fail)
  next
    case (Some fi)
    then have "fi \<in> set mf" using keyToField_mem by blast
    from dec [OF vs this] show ?thesis unfolding Some by (auto simp: yields_def andThen_eq_Inr)
  qed
qed

text \<open>The three kinds of structs, as \<open>decodeKind\<close> tells them apart.\<close>

lemma decodeKind_option:
  "isOptionType (TStruct nm [f0, f1]) \<Longrightarrow> decodeKind hk (TStruct nm [f0, f1]) old opt =
     (\<lambda>dec. if PeekNull dec then andThen DecodeNull (\<lambda>_. ret (VStruct [zero_val hk (f_type f0), VBool False])) dec
      else andThen (decodeValue hk (f_type f0) (old_fields old ! 0) False) (\<lambda>x. ret (VStruct [x, VBool True])) dec)"
  by (subst decodeKind.simps) (simp cong del: if_weak_cong)

lemma decodeKind_array:
  "\<not> isOptionType (TStruct nm fs) \<Longrightarrow> wantArray fs \<Longrightarrow> decodeKind hk (TStruct nm fs) old opt =
     andThen DecodeArrayHeader (\<lambda>len. if sint len \<noteq> int (length (arrayFields fs)) then fail ErrUnexpectedItemCount
       else andThen (fold_ops (\<lambda>vs f. andThen (decodeValue hk (f_type (fs ! afi_field f)) (vs ! afi_field f) (afi_optional f))
          (\<lambda>x. ret (vs[afi_field f := x]))) (old_fields old) (arrayFields fs)) (\<lambda>vs. ret (VStruct vs)))"
  by (subst decodeKind.simps) (simp only: gtype.case if_False if_True)

lemma decodeKind_map:
  "\<not> isOptionType (TStruct nm fs) \<Longrightarrow> \<not> wantArray fs \<Longrightarrow> mapFields fs = Inr mf \<Longrightarrow> decodeKind hk (TStruct nm fs) old opt =
     (if mf = [] \<and> structFields fs \<noteq> [] then fail ErrUnsupportedType
      else andThen DecodeMapHeader (\<lambda>len. if sint len \<noteq> int (length mf) then fail ErrUnexpectedItemCount
       else andThen (fold_ops (map_step (\<lambda>fi old. decodeValue hk (f_type (fs ! fi_field fi)) old (fi_optional fi)) mf)
          (old_fields old, None) [0..<unat len]) (\<lambda>(vs, _). ret (VStruct vs))))"
  by (subst decodeKind.simps) (simp only: gtype.case if_False sum.case)

lemma isOptionType_two: "isOptionType (TStruct nm fs) \<Longrightarrow> \<exists>f0 f1. fs = [f0, f1]"
  by (auto simp: isOptionType_struct)

lemma fields_typed_yields: "yields f (fields_typed C fs) \<Longrightarrow> yields (andThen f (\<lambda>vs. ret (VStruct vs))) (typed C (TStruct nm fs))"
  by (erule yields_andThen) (simp only: yields_ret struct_typed)

lemma decode_field_typed:
  assumes "\<And>f old opt. f \<in> set fs \<Longrightarrow> typed C (f_type f) old \<Longrightarrow> yields (decodeValue hk (f_type f) old opt) (typed C (f_type f))"
    and "fields_typed C fs vs" and "i < length fs"
  shows "yields (andThen (decodeValue hk (f_type (fs ! i)) (vs ! i) opt) (\<lambda>x. ret (vs[i := x]))) (fields_typed C fs)"
proof (rule yields_andThen)
  show "yields (decodeValue hk (f_type (fs ! i)) (vs ! i) opt) (typed C (f_type (fs ! i)))"
    using assms(2,3) by (intro assms(1)) (auto simp: fields_typed_def)
qed (intro yields_ret fields_typed_update assms(2,3))

lemma decode_struct_typed:
  assumes hk: "keeps hk C"
    and IH: "\<And>f old opt. f \<in> set fs \<Longrightarrow> typed C (f_type f) old \<Longrightarrow> yields (decodeValue hk (f_type f) old opt) (typed C (f_type f))"
    and old: "typed C (TStruct nm fs) old"
  shows "yields (decodeKind hk (TStruct nm fs) old opt) (typed C (TStruct nm fs))"
proof -
  let ?Q = "typed C (TStruct nm fs)"
  have vs: "fields_typed C fs (old_fields old)" using old by (rule old_fields_typed)
  note dec = decode_field_typed [OF IH]
  consider (opt) "isOptionType (TStruct nm fs)" | (arr) "\<not> isOptionType (TStruct nm fs)" "wantArray fs"
    | (err) e where "\<not> isOptionType (TStruct nm fs)" "\<not> wantArray fs" "mapFields fs = Inl e"
    | (map_struct) mf where "\<not> isOptionType (TStruct nm fs)" "\<not> wantArray fs" "mapFields fs = Inr mf"
    by (cases "mapFields fs") auto
  then show ?thesis
  proof cases
    case opt
    then obtain f0 f1 where fs: "fs = [f0, f1]" using isOptionType_two by blast
    have "yields (decodeValue hk (f_type f0) (old_fields old ! 0) False) (typed C (f_type f0))"
      using vs by (intro IH) (auto simp: fields_typed_def fs)
    then have some: "yields (andThen (decodeValue hk (f_type f0) (old_fields old ! 0) False) (\<lambda>x. ret (VStruct [x, VBool True]))) ?Q"
      unfolding fs by (rule yields_andThen) (simp add: yields_ret option_typed opt [unfolded fs] del: ret_app)
    have none: "yields (andThen DecodeNull (\<lambda>_. ret (VStruct [zero_val hk (f_type f0), VBool False]))) ?Q"
      unfolding fs by (intro yields_bind [where f = DecodeNull] yields_ret)
        (simp add: option_typed opt [unfolded fs] keeps_zero [OF hk])
    show ?thesis using some none unfolding yields_def by (simp add: fs decodeKind_option opt [unfolded fs])
  next
    case arr
    show ?thesis unfolding decodeKind_array [OF arr]
      by (intro yields_bind [where f = DecodeArrayHeader] yields_if yields_fail fields_typed_yields yields_fold dec vs)
         (auto dest: arrayFields_index)
  next
    case err
    then show ?thesis using decodeKind_map_error yields_fail by metis
  next
    case map_struct
    have "yields (map_step (\<lambda>fi old. decodeValue hk (f_type (fs ! fi_field fi)) old (fi_optional fi)) mf st n)
        (\<lambda>st. fields_typed C fs (fst st))" if "fields_typed C fs (fst st)" for st n
      using that by (cases st) (auto intro!: map_step_typed dec dest: mapFields_index [OF map_struct(3)])
    then have "yields (andThen (fold_ops (map_step (\<lambda>fi old. decodeValue hk (f_type (fs ! fi_field fi)) old (fi_optional fi)) mf)
        (old_fields old, None) [0..<unat (len :: u64)]) (\<lambda>(vs, _). ret (VStruct vs))) ?Q" for len
      by (intro yields_andThen [OF yields_fold [where I = "\<lambda>st. fields_typed C fs (fst st)"]])
         (auto simp: struct_typed vs intro!: yields_ret simp del: ret_app)
    then show ?thesis unfolding decodeKind_map [OF map_struct]
      by (intro yields_if yields_fail yields_bind [where f = DecodeMapHeader])
  qed
qed

lemma decodeKind_typed:
  assumes hk: "keeps hk C"
    and IH: "\<And>nm fs f old opt. ty = TStruct nm fs \<Longrightarrow> f \<in> set fs \<Longrightarrow> typed C (f_type f) old \<Longrightarrow>
      yields (decodeValue hk (f_type f) old opt) (typed C (f_type f))"
    and "typed C ty old" and "\<forall>nm. ty \<noteq> TCustom nm"
  shows "yields (decodeKind hk ty old opt) (typed C ty)"
proof (cases ty)
  case (TStruct nm fs)
  show ?thesis unfolding TStruct by (rule decode_struct_typed [OF hk]) (use IH assms(3) TStruct in auto)
next
  case (TByteArray n)
  have "yields (andThen (DecodeBytesFixed (int n)) (\<lambda>bs. ret (VArray bs))) (typed C (TByteArray n))"
    by (rule yields_andThen [OF yields_fixed], rule yields_ret) simp
  then show ?thesis unfolding TByteArray by (subst decodeKind.simps) (simp only: gtype.case)
next
  case TRaw
  then show ?thesis by (subst decodeKind.simps) (auto simp: yields_def andThen_eq_Inr)
next
  case TString
  have "yields (andThen DecodeText (\<lambda>s. ret (VString s))) (typed C TString)"
    by (rule yields_andThen [OF yields_text], rule yields_ret) simp
  then show ?thesis unfolding TString by (subst decodeKind.simps) (simp only: gtype.case)
next
  case TBytes
  show ?thesis unfolding TBytes
    by (subst decodeKind.simps) (auto simp: yields_def andThen_eq_Inr dest: yieldsD [OF yields_bytes] split: if_splits)
next
  case TUnit
  then show ?thesis by (subst decodeKind.simps) (auto simp: yields_def andThen_eq_Inr split: if_splits)
qed (use assms(4) in \<open>(subst decodeKind.simps; simp only: gtype.case;
    auto simp: yields_def andThen_eq_Inr set_int_typed set_uint_typed)+\<close>)

lemma decodeValue_typed:
  assumes hk: "keeps hk C"
  shows "typed C ty old \<Longrightarrow> yields (decodeValue hk ty old opt) (typed C ty)"
proof (induction ty arbitrary: old opt rule: measure_induct_rule [where f = size])
  case (less ty)
  have custom: "unmarshalCBOR hk nm s = (Inr c, s') \<Longrightarrow> C nm c" for nm s c s'
    using hk by (auto simp: keeps_def dest: yieldsD)
  show ?case
  proof (cases ty)
    case (TCustom nm)
    then show ?thesis by (subst decodeValue.simps) (auto simp: yields_def andThen_eq_Inr custom)
  next
    case (TPtr t)
    show ?thesis
    proof (cases "\<exists>nm. t = TCustom nm")
      case True
      then show ?thesis unfolding TPtr by (subst decodeValue.simps) (auto simp: yields_def andThen_eq_Inr custom)
    next
      case False
      let ?old = "case old of VPtr (Some x) \<Rightarrow> x | _ \<Rightarrow> zero_val hk t"
      have "typed C t ?old" using less.prems keeps_zero [OF hk, of t]
        by (auto simp: TPtr split: gval.splits option.splits)
      then have k: "yields (decodeKind hk t ?old False) (typed C t)"
        using False by (intro decodeKind_typed [OF hk]) (auto simp: TPtr intro!: less.IH less_SucI [OF size_field_mem])
      have d: "decodeValue hk (TPtr t) old opt = (\<lambda>dec.
          if \<not> isOptionType t \<and> PeekNull dec then (if \<not> opt then fail ErrUnexpectedNull else andThen DecodeNull (\<lambda>_. ret (VPtr None))) dec
          else andThen (decodeKind hk t ?old False) (\<lambda>x. ret (VPtr (Some x))) dec)"
        using False by (subst decodeValue.simps) (cases t; hypsubst; simp)
      have "yields (andThen (decodeKind hk t ?old False) (\<lambda>x. ret (VPtr (Some x)))) (typed C (TPtr t))"
        by (rule yields_andThen [OF k], rule yields_ret) simp
      moreover have "yields (if \<not> opt then fail ErrUnexpectedNull else andThen DecodeNull (\<lambda>_. ret (VPtr None))) (typed C (TPtr t))"
        by (intro yields_if yields_fail yields_bind [where f = DecodeNull] yields_ret) simp
      ultimately show ?thesis unfolding TPtr d yields_def by metis
    qed
  next
    case (TStruct nm fs)
    then have "decodeValue hk ty old opt = decodeKind hk ty old opt" by (intro decodeValue_kind) simp_all
    then show ?thesis using less.IH less.prems by (simp only:) (rule decodeKind_typed [OF hk], auto simp: TStruct)
  qed (subst decodeValue_kind; simp; rule decodeKind_typed [OF hk]; use less.prems in simp)+
qed

lemma Unmarshal_typed:
  assumes "keeps hk C" and "typed C ty old" and "Unmarshal hk bs ty old = Inr v"
  shows "typed C ty v"
proof -
  have "typed C (TPtr ty) (VPtr (Some old))" using assms(2) by simp
  from yieldsD [OF decodeValue_typed [OF assms(1) this]] assms show ?thesis
    by (fastforce simp: Unmarshal_def split: prod.splits sum.splits gval.splits option.splits)
qed

end
