(* ===== verification/Cose_Messages.thy ===== *)
theory Cose_Messages
  imports Cbor_Typed
begin

text \<open>
  The messages of \<^verbatim>\<open>src/cose/cose.go\<close>: its struct types as type descriptors of the CBOR
  marshaller, their values as records, and the bytes they have on the wire. The locale \<open>message\<close>
  turns the properties of the marshaller into a strict codec for each type that is parsed.
\<close>

section \<open>Struct types\<close>

definition critHeader :: gtype where
  "critHeader = TStruct ''critHeader''
     [GField ''_'' False ''_,array'' (TStruct '''' []), GField ''Timestamp'' True '''' (TInt 64)]"

definition sigProtectedHeader :: gtype where
  "sigProtectedHeader = TStruct ''sigProtectedHeader''
     [GField ''Algorithm'' True ''1,key'' (TInt 64), GField ''Crit'' True ''2,key'' critHeader,
      GField ''Kid'' True ''4,key'' (TByteArray 32), GField ''Timestamp'' True ''-70002,key'' (TInt 64)]"

definition encProtectedHeader :: gtype where
  "encProtectedHeader = TStruct ''encProtectedHeader''
     [GField ''Algorithm'' True ''1,key'' (TInt 64), GField ''Kid'' True ''4,key'' (TByteArray 32)]"

definition emptyHeader :: gtype where
  "emptyHeader = TStruct ''emptyHeader'' []"

definition encapKeyHeader :: gtype where
  "encapKeyHeader = TStruct ''encapKeyHeader'' [GField ''EncapKey'' True ''-4,key'' TBytes]"

definition coseSign1 :: gtype where
  "coseSign1 = TStruct ''coseSign1''
     [GField ''_'' False ''_,array'' (TStruct '''' []), GField ''Protected'' True '''' TBytes,
      GField ''Unprotected'' True '''' emptyHeader, GField ''Payload'' True ''_,optional'' TBytes,
      GField ''Signature'' True '''' (TByteArray 3373)]"

definition coseEncrypt0 :: gtype where
  "coseEncrypt0 = TStruct ''coseEncrypt0''
     [GField ''_'' False ''_,array'' (TStruct '''' []), GField ''Protected'' True '''' TBytes,
      GField ''Unprotected'' True '''' encapKeyHeader, GField ''Ciphertext'' True '''' TBytes]"

definition sigStructure :: gtype where
  "sigStructure = TStruct ''sigStructure''
     [GField ''_'' False ''_,array'' (TStruct '''' []), GField ''Context'' True '''' TString,
      GField ''Protected'' True '''' TBytes, GField ''ExternalAAD'' True '''' TBytes, GField ''Payload'' True '''' TBytes]"

definition encStructure :: gtype where
  "encStructure = TStruct ''encStructure''
     [GField ''_'' False ''_,array'' (TStruct '''' []), GField ''Context'' True '''' TString,
      GField ''Protected'' True '''' TBytes, GField ''ExternalAAD'' True '''' TBytes]"

definition sigAAD :: gtype where
  "sigAAD = TStruct ''sigAAD''
     [GField ''_'' False ''_,array'' (TStruct '''' []), GField ''Info'' True '''' TBytes, GField ''MsgToAuth'' True '''' TRaw]"

text \<open>None of these types has methods of its own.\<close>

definition no_hooks :: "unit hooks" where
  "no_hooks = \<lparr>marshalCBOR = (\<lambda>_ _. fail ErrUnsupportedType), unmarshalCBOR = (\<lambda>_. fail ErrUnsupportedType), zeroCustom = (\<lambda>_. ())\<rparr>"

section \<open>Values\<close>

record sig_header =
  sh_algorithm :: i64
  sh_crit :: i64
  sh_kid :: bytes
  sh_timestamp :: i64

record enc_header =
  eh_algorithm :: i64
  eh_kid :: bytes

record sign1 =
  s1_protected :: bytes
  s1_payload :: "bytes option"
  s1_signature :: bytes

record encrypt0 =
  e0_protected :: bytes
  e0_encapKey :: bytes
  e0_ciphertext :: bytes

definition sig_header_val :: "sig_header \<Rightarrow> unit gval" where
  "sig_header_val h = VStruct [VInt (sh_algorithm h), VStruct [VStruct [], VInt (sh_crit h)], VArray (sh_kid h), VInt (sh_timestamp h)]"

definition enc_header_val :: "enc_header \<Rightarrow> unit gval" where
  "enc_header_val h = VStruct [VInt (eh_algorithm h), VArray (eh_kid h)]"

definition sign1_val :: "sign1 \<Rightarrow> unit gval" where
  "sign1_val s = VStruct [VStruct [], VBytes (Some (s1_protected s)), VStruct [], VBytes (s1_payload s), VArray (s1_signature s)]"

definition encrypt0_val :: "encrypt0 \<Rightarrow> unit gval" where
  "encrypt0_val e = VStruct [VStruct [], VBytes (Some (e0_protected e)), VStruct [VBytes (Some (e0_encapKey e))],
     VBytes (Some (e0_ciphertext e))]"

definition sig_structure_val :: "bytes \<Rightarrow> bytes \<Rightarrow> bytes \<Rightarrow> bytes \<Rightarrow> unit gval" where
  "sig_structure_val ctxt protected aad payload =
     VStruct [VStruct [], VString ctxt, VBytes (Some protected), VBytes (Some aad), VBytes (Some payload)]"

definition enc_structure_val :: "bytes \<Rightarrow> bytes \<Rightarrow> bytes \<Rightarrow> unit gval" where
  "enc_structure_val ctxt protected aad = VStruct [VStruct [], VString ctxt, VBytes (Some protected), VBytes (Some aad)]"

definition sig_aad_val :: "bytes \<Rightarrow> bytes \<Rightarrow> unit gval" where
  "sig_aad_val info auth = VStruct [VStruct [], VBytes (Some info), VBytes (Some auth)]"

text \<open>Reading the fields of a Go variable.\<close>

definition field_val :: "nat \<Rightarrow> 'c gval \<Rightarrow> 'c gval" where
  "field_val i v = (case v of VStruct vs \<Rightarrow> if i < length vs then vs ! i else VEmpty | _ \<Rightarrow> VEmpty)"

definition int_val :: "'c gval \<Rightarrow> i64" where
  "int_val v = (case v of VInt n \<Rightarrow> n | _ \<Rightarrow> 0)"

definition slice_val :: "'c gval \<Rightarrow> bytes option" where
  "slice_val v = (case v of VBytes bs \<Rightarrow> bs | _ \<Rightarrow> None)"

definition bytes_val :: "'c gval \<Rightarrow> bytes" where \<comment> \<open>the contents; a nil slice is empty\<close>
  "bytes_val v = (case v of VBytes (Some bs) \<Rightarrow> bs | VArray bs \<Rightarrow> bs | _ \<Rightarrow> [])"

definition sig_header_of :: "unit gval \<Rightarrow> sig_header" where
  "sig_header_of v = \<lparr>sh_algorithm = int_val (field_val 0 v), sh_crit = int_val (field_val 1 (field_val 1 v)),
     sh_kid = bytes_val (field_val 2 v), sh_timestamp = int_val (field_val 3 v)\<rparr>"

definition enc_header_of :: "unit gval \<Rightarrow> enc_header" where
  "enc_header_of v = \<lparr>eh_algorithm = int_val (field_val 0 v), eh_kid = bytes_val (field_val 1 v)\<rparr>"

definition sign1_of :: "unit gval \<Rightarrow> sign1" where
  "sign1_of v = \<lparr>s1_protected = bytes_val (field_val 1 v), s1_payload = slice_val (field_val 3 v),
     s1_signature = bytes_val (field_val 4 v)\<rparr>"

definition encrypt0_of :: "unit gval \<Rightarrow> encrypt0" where
  "encrypt0_of v = \<lparr>e0_protected = bytes_val (field_val 1 v), e0_encapKey = bytes_val (field_val 0 (field_val 2 v)),
     e0_ciphertext = bytes_val (field_val 3 v)\<rparr>"

text \<open>\<^verbatim>\<open>var x T; cbor.Unmarshal(data, &x)\<close> and \<^verbatim>\<open>cbor.Marshal(&x)\<close>\<close>

definition unmarshal_as :: "gtype \<Rightarrow> (unit gval \<Rightarrow> 'm) \<Rightarrow> bytes \<Rightarrow> cbor_error + 'm" where
  "unmarshal_as ty of_val bs = (case Unmarshal no_hooks bs ty (zero_val no_hooks ty) of Inl e \<Rightarrow> Inl e | Inr v \<Rightarrow> Inr (of_val v))"

definition marshal_ref :: "gtype \<Rightarrow> unit gval \<Rightarrow> cbor_error + bytes" where
  "marshal_ref ty v = Marshal no_hooks (TPtr ty) (VPtr (Some v))"

section \<open>On the wire\<close>

definition wire_array :: "nat \<Rightarrow> bytes" where
  "wire_array n = enc_head majorArray (of_nat n)"

definition wire_map :: "nat \<Rightarrow> bytes" where
  "wire_map n = enc_head majorMap (of_nat n)"

definition sig_header_wire :: "sig_header \<Rightarrow> bytes" where
  "sig_header_wire h = wire_map 4 @ wire_int 1 @ wire_int (sh_algorithm h) @ wire_int 2 @ wire_array 1 @ wire_int (sh_crit h) @
     wire_int 4 @ wire_bytes (sh_kid h) @ wire_int (-70002) @ wire_int (sh_timestamp h)"

definition enc_header_wire :: "enc_header \<Rightarrow> bytes" where
  "enc_header_wire h = wire_map 2 @ wire_int 1 @ wire_int (eh_algorithm h) @ wire_int 4 @ wire_bytes (eh_kid h)"

definition sign1_wire :: "sign1 \<Rightarrow> bytes" where
  "sign1_wire s = wire_array 4 @ wire_bytes (s1_protected s) @ wire_map 0 @
     (case s1_payload s of None \<Rightarrow> wire_null | Some p \<Rightarrow> wire_bytes p) @ wire_bytes (s1_signature s)"

definition encrypt0_wire :: "encrypt0 \<Rightarrow> bytes" where
  "encrypt0_wire e = wire_array 3 @ wire_bytes (e0_protected e) @ wire_map 1 @ wire_int (-4) @ wire_bytes (e0_encapKey e) @
     wire_bytes (e0_ciphertext e)"

definition sig_structure_wire :: "bytes \<Rightarrow> bytes \<Rightarrow> bytes \<Rightarrow> bytes \<Rightarrow> bytes" where
  "sig_structure_wire ctxt protected aad payload =
     wire_array 4 @ wire_text ctxt @ wire_bytes protected @ wire_bytes aad @ wire_bytes payload"

definition enc_structure_wire :: "bytes \<Rightarrow> bytes \<Rightarrow> bytes \<Rightarrow> bytes" where
  "enc_structure_wire ctxt protected aad = wire_array 3 @ wire_text ctxt @ wire_bytes protected @ wire_bytes aad"

definition sig_aad_wire :: "bytes \<Rightarrow> bytes \<Rightarrow> bytes" where
  "sig_aad_wire info auth = wire_array 2 @ wire_bytes info @ auth"

lemmas message_types =
  critHeader_def sigProtectedHeader_def encProtectedHeader_def emptyHeader_def encapKeyHeader_def coseSign1_def
  coseEncrypt0_def sigStructure_def encStructure_def sigAAD_def

section \<open>Encoding\<close>

lemma no_hooks_ok: "hooks_ok no_hooks (\<lambda>_ _. False) (\<lambda>_ _. [])"
  by (simp add: hooks_ok_def no_hooks_def) (unfold_locales, simp_all)

lemma marshal_ref_encode:
  assumes "\<forall>nm. ty \<noteq> TCustom nm"
  shows "marshal_ref ty v = (case encodeValue no_hooks ty v True False NewEncoder of
    (Inl e, _) \<Rightarrow> Inl e | (Inr _, enc) \<Rightarrow> Inr (buf enc))"
  unfolding marshal_ref_def Marshal_def Encoder_Bytes_def by (simp add: encode_ptr [OF assms])

lemma emits_marshal: "\<forall>nm. ty \<noteq> TCustom nm \<Longrightarrow> emits (encodeValue no_hooks ty v True False) w \<Longrightarrow> marshal_ref ty v = Inr w"
  by (simp add: marshal_ref_encode emits_def)

lemma encode_leaf:
  "encodeValue hk (TInt b) (VInt n) addr opt = emit (append_buf (wire_int n))"
  "encodeValue hk (TByteArray k) (VArray bs) addr opt = emit (append_buf (wire_bytes bs))"
  "encodeValue hk TBytes (VBytes (Some bs)) addr opt = emit (append_buf (wire_bytes bs))"
  "encodeValue hk TBytes (VBytes None) addr True = emit (append_buf wire_null)"
  "encodeValue hk TBytes (VBytes None) addr False = fail ErrUnexpectedNil"
  "encodeValue hk TRaw (VBytes (Some bs)) addr opt = emit (append_buf bs)"
  "utf8_valid s \<Longrightarrow> encodeValue hk TString (VString s) addr opt = emit (append_buf (wire_text s))"
  by (intro ext; simp add: encodeValue.simps wires EncodeText_def wire_text_def encodeLength_enc_head)+

lemma encode_array_struct:
  assumes "wantArray fs" and "\<not> isOptionType (TStruct nm fs)" and "arrayFields fs = infos"
  shows "encodeValue hk (TStruct nm fs) (VStruct vs) addr opt =
    andThen (emit (append_buf (wire_array (length infos)))) (\<lambda>_.
      seq_ops (map (\<lambda>f. encodeValue hk (f_type (fs ! afi_field f)) (vs ! afi_field f) addr (afi_optional f)) infos))"
  using assms by (intro ext, subst encodeValue.simps) (simp add: wires wire_array_def)

lemma encode_map_struct:
  assumes "\<not> wantArray fs" and "\<not> isOptionType (TStruct nm fs)" and "mapFields fs = Inr mf" and "mf \<noteq> [] \<or> structFields fs = []"
  shows "encodeValue hk (TStruct nm fs) (VStruct vs) addr opt =
    andThen (emit (append_buf (wire_map (length mf)))) (\<lambda>_.
      seq_ops (map (\<lambda>f. andThen (emit (append_buf (wire_int (fi_key f)))) (\<lambda>_.
        encodeValue hk (f_type (fs ! fi_field f)) (vs ! fi_field f) addr (fi_optional f))) (sort_fields mf)))"
  using assms by (intro ext, subst encodeValue.simps) (auto simp: wires wire_map_def)

lemma header_ranks:
  "key_rank 1 = 1" "key_rank 2 = 2" "key_rank 4 = 4" "key_rank (-70002) = 2 ^ 63 + 70001"
  by (simp_all add: key_rank_def sle_zero_iff)

lemma few: "Suc (Suc 0) = 2" "Suc (Suc (Suc 0)) = 3" "Suc 2 = 3" "Suc 3 = 4"
  by simp_all

lemma emitsD: "emits f w \<Longrightarrow> f e = (Inr (), append_buf w e)"
  by (simp add: emits_def)

text \<open>What the marshaller finds in the tags of the structs.\<close>

lemmas tag_simps = wantArray_def tag_parts_def arrayFields_def mapFields_def isOptionType_def structFields_def
  ParseInt_def digit_val_def sort_fields_def mapKeyCmp_zero mapKeyCmp_le Let_def

lemma crit_infos:
  assumes "critHeader = TStruct nm fs"
  shows "wantArray fs" "\<not> isOptionType (TStruct nm fs)" "arrayFields fs = [\<lparr>afi_field = 1, afi_optional = False\<rparr>]"
  using assms by (auto simp: critHeader_def tag_simps)

lemma sig_header_infos:
  assumes "sigProtectedHeader = TStruct nm fs"
  shows "\<not> wantArray fs" "\<not> isOptionType (TStruct nm fs)"
    "mapFields fs = Inr [\<lparr>fi_field = 0, fi_key = 1, fi_optional = False\<rparr>, \<lparr>fi_field = 1, fi_key = 2, fi_optional = False\<rparr>,
      \<lparr>fi_field = 2, fi_key = 4, fi_optional = False\<rparr>, \<lparr>fi_field = 3, fi_key = -70002, fi_optional = False\<rparr>]"
  using assms by (auto simp: sigProtectedHeader_def tag_simps)

lemma enc_header_infos:
  assumes "encProtectedHeader = TStruct nm fs"
  shows "\<not> wantArray fs" "\<not> isOptionType (TStruct nm fs)"
    "mapFields fs = Inr [\<lparr>fi_field = 0, fi_key = 1, fi_optional = False\<rparr>, \<lparr>fi_field = 1, fi_key = 4, fi_optional = False\<rparr>]"
  using assms by (auto simp: encProtectedHeader_def tag_simps)

lemma empty_header_infos:
  assumes "emptyHeader = TStruct nm fs"
  shows "\<not> wantArray fs" "\<not> isOptionType (TStruct nm fs)" "mapFields fs = Inr []" "structFields fs = []"
  using assms by (auto simp: emptyHeader_def tag_simps)

lemma encap_header_infos:
  assumes "encapKeyHeader = TStruct nm fs"
  shows "\<not> wantArray fs" "\<not> isOptionType (TStruct nm fs)"
    "mapFields fs = Inr [\<lparr>fi_field = 0, fi_key = -4, fi_optional = False\<rparr>]"
  using assms by (auto simp: encapKeyHeader_def tag_simps)

lemma sign1_infos:
  assumes "coseSign1 = TStruct nm fs"
  shows "wantArray fs" "\<not> isOptionType (TStruct nm fs)"
    "arrayFields fs = [\<lparr>afi_field = 1, afi_optional = False\<rparr>, \<lparr>afi_field = 2, afi_optional = False\<rparr>,
      \<lparr>afi_field = 3, afi_optional = True\<rparr>, \<lparr>afi_field = 4, afi_optional = False\<rparr>]"
  using assms by (auto simp: coseSign1_def tag_simps)

lemma encrypt0_infos:
  assumes "coseEncrypt0 = TStruct nm fs"
  shows "wantArray fs" "\<not> isOptionType (TStruct nm fs)"
    "arrayFields fs = [\<lparr>afi_field = 1, afi_optional = False\<rparr>, \<lparr>afi_field = 2, afi_optional = False\<rparr>,
      \<lparr>afi_field = 3, afi_optional = False\<rparr>]"
  using assms by (auto simp: coseEncrypt0_def tag_simps)

lemma sig_structure_infos:
  assumes "sigStructure = TStruct nm fs"
  shows "wantArray fs" "\<not> isOptionType (TStruct nm fs)"
    "arrayFields fs = [\<lparr>afi_field = 1, afi_optional = False\<rparr>, \<lparr>afi_field = 2, afi_optional = False\<rparr>,
      \<lparr>afi_field = 3, afi_optional = False\<rparr>, \<lparr>afi_field = 4, afi_optional = False\<rparr>]"
  using assms by (auto simp: sigStructure_def tag_simps)

lemma enc_structure_infos:
  assumes "encStructure = TStruct nm fs"
  shows "wantArray fs" "\<not> isOptionType (TStruct nm fs)"
    "arrayFields fs = [\<lparr>afi_field = 1, afi_optional = False\<rparr>, \<lparr>afi_field = 2, afi_optional = False\<rparr>,
      \<lparr>afi_field = 3, afi_optional = False\<rparr>]"
  using assms by (auto simp: encStructure_def tag_simps)

lemma sig_aad_infos:
  assumes "sigAAD = TStruct nm fs"
  shows "wantArray fs" "\<not> isOptionType (TStruct nm fs)"
    "arrayFields fs = [\<lparr>afi_field = 1, afi_optional = False\<rparr>, \<lparr>afi_field = 2, afi_optional = False\<rparr>]"
  using assms by (auto simp: sigAAD_def tag_simps)

lemmas crit_encode = encode_array_struct [OF crit_infos, OF critHeader_def critHeader_def critHeader_def]

lemmas empty_encode = encode_map_struct [OF empty_header_infos(1-3), OF emptyHeader_def emptyHeader_def emptyHeader_def]

lemmas encap_encode = encode_map_struct [OF encap_header_infos, OF encapKeyHeader_def encapKeyHeader_def encapKeyHeader_def]

lemma crit_emits: "emits (encodeValue hk critHeader (VStruct [x, VInt n]) True opt) (wire_array 1 @ wire_int n)"
  unfolding critHeader_def by (simp add: emits_def encode_leaf crit_encode)

lemma empty_emits: "emits (encodeValue hk emptyHeader (VStruct []) True opt) (wire_map 0)"
  unfolding emptyHeader_def by (simp add: emits_def empty_encode sort_fields_def structFields_def)

lemma encap_emits: "emits (encodeValue hk encapKeyHeader (VStruct [VBytes (Some k)]) True opt) (wire_map 1 @ wire_int (-4) @ wire_bytes k)"
  unfolding encapKeyHeader_def by (simp add: emits_def encode_leaf encap_encode sort_fields_def)

lemma sig_header_emits: "emits (encodeValue no_hooks sigProtectedHeader (sig_header_val h) True opt) (sig_header_wire h)"
  unfolding sigProtectedHeader_def
  by (simp add: emits_def encode_leaf emitsD [OF crit_emits] sig_header_val_def sig_header_wire_def
      encode_map_struct [OF sig_header_infos, OF sigProtectedHeader_def sigProtectedHeader_def sigProtectedHeader_def]
      sort_fields_def mapKeyCmp_le header_ranks few)

lemma enc_header_emits: "emits (encodeValue no_hooks encProtectedHeader (enc_header_val h) True opt) (enc_header_wire h)"
  unfolding encProtectedHeader_def
  by (simp add: emits_def encode_leaf enc_header_val_def enc_header_wire_def
      encode_map_struct [OF enc_header_infos, OF encProtectedHeader_def encProtectedHeader_def encProtectedHeader_def]
      sort_fields_def mapKeyCmp_le header_ranks few)

lemma sign1_emits: "emits (encodeValue no_hooks coseSign1 (sign1_val s) True opt) (sign1_wire s)"
  unfolding coseSign1_def
  by (cases "s1_payload s")
    (simp_all add: emits_def encode_leaf sign1_val_def sign1_wire_def emitsD [OF empty_emits]
      encode_array_struct [OF sign1_infos, OF coseSign1_def coseSign1_def coseSign1_def] few)

lemma encrypt0_emits: "emits (encodeValue no_hooks coseEncrypt0 (encrypt0_val e) True opt) (encrypt0_wire e)"
  unfolding coseEncrypt0_def
  by (simp add: emits_def encode_leaf encrypt0_val_def encrypt0_wire_def emitsD [OF encap_emits]
      encode_array_struct [OF encrypt0_infos, OF coseEncrypt0_def coseEncrypt0_def coseEncrypt0_def] few)

lemma marshal_sig_structure:
  "utf8_valid c \<Longrightarrow> marshal_ref sigStructure (sig_structure_val c protected aad payload) = Inr (sig_structure_wire c protected aad payload)"
  by (rule emits_marshal, simp add: sigStructure_def, unfold sigStructure_def)
    (simp add: emits_def encode_leaf sig_structure_val_def sig_structure_wire_def
      encode_array_struct [OF sig_structure_infos, OF sigStructure_def sigStructure_def sigStructure_def] few)

lemma marshal_enc_structure:
  "utf8_valid c \<Longrightarrow> marshal_ref encStructure (enc_structure_val c protected aad) = Inr (enc_structure_wire c protected aad)"
  by (rule emits_marshal, simp add: encStructure_def, unfold encStructure_def)
    (simp add: emits_def encode_leaf enc_structure_val_def enc_structure_wire_def
      encode_array_struct [OF enc_structure_infos, OF encStructure_def encStructure_def encStructure_def] few)

lemma marshal_sig_aad: "marshal_ref sigAAD (sig_aad_val info auth) = Inr (sig_aad_wire info auth)"
  by (rule emits_marshal, simp add: sigAAD_def, unfold sigAAD_def)
    (simp add: emits_def encode_leaf sig_aad_val_def sig_aad_wire_def
      encode_array_struct [OF sig_aad_infos, OF sigAAD_def sigAAD_def sigAAD_def] few)

section \<open>Exact parsers\<close>

text \<open>
  What a parsed struct type needs: its values have the given bytes, they survive the wire, and
  every well-typed value that can be marshalled is one of them.
\<close>

locale message =
  fixes ty :: gtype
    and to_val :: "'m \<Rightarrow> unit gval"
    and of_val :: "unit gval \<Rightarrow> 'm"
    and ok :: "'m \<Rightarrow> bool"
    and wire :: "'m \<Rightarrow> bytes"
  assumes plain: "\<forall>nm. ty \<noteq> TCustom nm" "\<forall>t. ty \<noteq> TPtr t"
    and exact: "type_exact ty"
    and emits: "emits (encodeValue no_hooks ty (to_val x) True False) (wire x)"
    and survives: "ok x \<Longrightarrow> val_ok no_hooks (\<lambda>_ _. False) ty (to_val x) False \<and> \<not> null_val ty (to_val x)"
    and shape: "has_type ty v \<Longrightarrow> marshal_ref ty v = Inr bs \<Longrightarrow> ok (of_val v) \<and> to_val (of_val v) = v"
    and of_to: "of_val (to_val x) = x"
begin

lemma marshal: "marshal_ref ty (to_val x) = Inr (wire x)"
  by (rule emits_marshal [OF plain(1) emits])

lemma parse_wire:
  assumes "ok x"
  shows "unmarshal_as ty of_val (wire x) = Inr x"
proof -
  have "val_ok no_hooks (\<lambda>_ _. False) (TPtr ty) (VPtr (Some (to_val x))) False"
    using survives [OF assms] plain by (simp add: val_ok_ptr)
  from Unmarshal_run [OF no_hooks_ok this] show ?thesis
    using marshal [of x] by (auto simp: marshal_ref_def unmarshal_as_def of_to)
qed

lemma parse_only:
  assumes "unmarshal_as ty of_val bs = Inr x"
  shows "ok x \<and> bs = wire x"
proof -
  from assms obtain v where u: "Unmarshal no_hooks bs ty (zero_val no_hooks ty) = Inr v" and x: "x = of_val v"
    by (auto simp: unmarshal_as_def split: sum.splits)
  have "marshal_ref ty v = Inr bs" unfolding marshal_ref_def by (rule Unmarshal_exact [OF no_hooks_ok exact u])
  moreover have "has_type ty v" by (rule Unmarshal_typed [OF keeps_True has_type_zero u])
  ultimately show ?thesis using shape marshal [of x] by (auto simp: x)
qed

end

sublocale message \<subseteq> strict_codec wire "unmarshal_as ty of_val" ok
  by unfold_locales (blast intro: parse_wire dest: parse_only)+

lemma has_type_fields:
  "has_type (TStruct nm fs) v \<longleftrightarrow> (\<exists>vs. v = VStruct vs \<and> list_all2 (\<lambda>f. has_type (f_type f)) fs vs)"
  unfolding typed_struct by (auto simp: list_all2_conv_all_nth)

lemma has_type_leaf:
  "has_type (TInt b) v \<longleftrightarrow> (\<exists>i. v = VInt i \<and> signed_take_bit (b - 1) i = i)"
  "has_type TBytes v \<longleftrightarrow> (\<exists>bs. v = VBytes bs \<and> pred_option go_slice bs)"
  "has_type (TByteArray n) v \<longleftrightarrow> (\<exists>bs. v = VArray bs \<and> length bs = n)"
  by (cases v; simp add: typed.simps)+

lemma val_ok_fields:
  "val_ok hk cok TBytes (VBytes (Some bs)) opt \<longleftrightarrow> go_slice bs"
  "val_ok hk cok TBytes (VBytes p) True \<longleftrightarrow> pred_option go_slice p"
  "val_ok hk cok (TByteArray n) (VArray bs) opt \<longleftrightarrow> length bs = n \<and> go_slice bs"
  "val_ok hk cok (TInt 64) (VInt i) opt"
  by (simp_all add: val_ok.simps signed64 split: option.splits)

lemma go_few: "go_slice []" "go_slice [a]" "go_slice [a, b]" "go_slice [a, b, c]" "go_slice [a, b, c, d]" "go_slice [a, b, c, d, e]"
  by (simp_all add: go_slice_def max_int_def)

lemma val_ok_array_struct:
  assumes "wantArray fs" and "\<not> isOptionType (TStruct nm fs)" and "arrayFields fs = infos" and "go_slice fs" and "length vs = length fs"
    and "\<forall>i < length fs. i \<in> afi_field ` set infos \<or> vs ! i = zero_val hk (f_type (fs ! i))"
    and "\<forall>f \<in> set infos. val_ok hk cok (f_type (fs ! afi_field f)) (vs ! afi_field f) (afi_optional f)"
  shows "val_ok hk cok (TStruct nm fs) (VStruct vs) opt"
  unfolding val_ok_struct [OF assms(2)]
  using assms by (intro exI [of _ vs] exI [of _ "map (\<lambda>f. (afi_field f, afi_optional f)) infos"])
    (simp add: fields_of_array distinct_keys_def image_image)

lemma val_ok_map_struct:
  assumes "\<not> wantArray fs" and "\<not> isOptionType (TStruct nm fs)" and "mapFields fs = Inr mf" and "mf \<noteq> [] \<or> structFields fs = []"
    and "distinct (map fi_key mf)" and "go_slice fs" and "length vs = length fs"
    and "\<forall>i < length fs. i \<in> fi_field ` set mf \<or> vs ! i = zero_val hk (f_type (fs ! i))"
    and "\<forall>f \<in> set mf. val_ok hk cok (f_type (fs ! fi_field f)) (vs ! fi_field f) (fi_optional f)"
  shows "val_ok hk cok (TStruct nm fs) (VStruct vs) opt"
  unfolding val_ok_struct [OF assms(2)] fields_of_map [OF assms(1)]
  using assms by (intro exI [of _ vs] exI [of _ "map (\<lambda>f. (fi_field f, fi_optional f)) mf"])
    (auto simp: distinct_keys_def image_image)

lemma val_ok_crit: "val_ok hk cok critHeader (VStruct [VStruct [], VInt n]) opt"
  unfolding critHeader_def
  by (rule val_ok_array_struct [OF crit_infos, OF critHeader_def critHeader_def critHeader_def])
    (simp_all add: go_slice_def max_int_def val_ok_fields less_Suc_eq)

lemma val_ok_empty: "val_ok hk cok emptyHeader (VStruct []) opt"
  unfolding emptyHeader_def
  by (rule val_ok_map_struct [OF empty_header_infos(1-3), OF emptyHeader_def emptyHeader_def emptyHeader_def])
    (simp_all add: go_slice_def max_int_def structFields_def)

lemma val_ok_encap: "go_slice k \<Longrightarrow> val_ok hk cok encapKeyHeader (VStruct [VBytes (Some k)]) opt"
  unfolding encapKeyHeader_def
  by (rule val_ok_map_struct [OF encap_header_infos, OF encapKeyHeader_def encapKeyHeader_def encapKeyHeader_def])
    (simp_all add: go_slice_def max_int_def val_ok_fields)

lemma struct_not_null: "\<not> isOptionType (TStruct nm fs) \<Longrightarrow> \<not> null_val (TStruct nm fs) (VStruct vs)"
  by (subst null_val.simps) simp

lemma messages_exact:
  "type_exact sigProtectedHeader" "type_exact encProtectedHeader" "type_exact coseSign1" "type_exact coseEncrypt0"
  by (simp_all add: message_types go_slice_def max_int_def distinct_keys_def tag_simps)

text \<open>Values of the four types that are parsed.\<close>

definition sig_header_ok :: "sig_header \<Rightarrow> bool" where
  "sig_header_ok h \<longleftrightarrow> length (sh_kid h) = 32"

definition enc_header_ok :: "enc_header \<Rightarrow> bool" where
  "enc_header_ok h \<longleftrightarrow> length (eh_kid h) = 32"

definition sign1_ok :: "sign1 \<Rightarrow> bool" where
  "sign1_ok s \<longleftrightarrow> go_slice (s1_protected s) \<and> pred_option go_slice (s1_payload s) \<and> length (s1_signature s) = 3373"

definition encrypt0_ok :: "encrypt0 \<Rightarrow> bool" where
  "encrypt0_ok e \<longleftrightarrow> go_slice (e0_protected e) \<and> go_slice (e0_encapKey e) \<and> go_slice (e0_ciphertext e)"

interpretation sig_header: message sigProtectedHeader sig_header_val sig_header_of sig_header_ok sig_header_wire
proof (unfold_locales, goal_cases)
  case 3
  show ?case by (rule messages_exact)
next
  case (4 x)
  show ?case by (rule sig_header_emits)
next
  case (5 x)
  have "val_ok no_hooks (\<lambda>_ _. False) sigProtectedHeader (sig_header_val x) False"
    unfolding sigProtectedHeader_def sig_header_val_def
    by (rule val_ok_map_struct [OF sig_header_infos, OF sigProtectedHeader_def sigProtectedHeader_def sigProtectedHeader_def])
      (use 5 in \<open>simp_all add: go_slice_def max_int_def val_ok_fields val_ok_crit sig_header_ok_def less_Suc_eq\<close>)
  then show ?case by (simp add: struct_not_null sig_header_val_def sigProtectedHeader_def isOptionType_def)
next
  case (6 v bs)
  then show ?case
    by (auto simp: sigProtectedHeader_def critHeader_def has_type_fields has_type_leaf list_all2_Cons1
        sig_header_of_def sig_header_val_def sig_header_ok_def field_val_def int_val_def bytes_val_def)
qed (simp_all add: sig_header_val_def sig_header_of_def field_val_def int_val_def bytes_val_def sigProtectedHeader_def)

interpretation enc_header: message encProtectedHeader enc_header_val enc_header_of enc_header_ok enc_header_wire
proof (unfold_locales, goal_cases)
  case 3
  show ?case by (rule messages_exact)
next
  case (4 x)
  show ?case by (rule enc_header_emits)
next
  case (5 x)
  have "val_ok no_hooks (\<lambda>_ _. False) encProtectedHeader (enc_header_val x) False"
    unfolding encProtectedHeader_def enc_header_val_def
    by (rule val_ok_map_struct [OF enc_header_infos, OF encProtectedHeader_def encProtectedHeader_def encProtectedHeader_def])
      (use 5 in \<open>simp_all add: go_slice_def max_int_def val_ok_fields enc_header_ok_def less_Suc_eq\<close>)
  then show ?case by (simp add: struct_not_null enc_header_val_def encProtectedHeader_def isOptionType_def)
next
  case (6 v bs)
  then show ?case
    by (auto simp: encProtectedHeader_def has_type_fields has_type_leaf list_all2_Cons1
        enc_header_of_def enc_header_val_def enc_header_ok_def field_val_def int_val_def bytes_val_def)
qed (simp_all add: enc_header_val_def enc_header_of_def field_val_def int_val_def bytes_val_def encProtectedHeader_def)

lemma marshal_sign1_nil: "marshal_ref coseSign1 (VStruct [VStruct [], VBytes None, x, y, z]) \<noteq> Inr bs"
proof -
  have "encodeValue no_hooks coseSign1 (VStruct [VStruct [], VBytes None, x, y, z]) True False e =
      (Inl ErrUnexpectedNil, append_buf (wire_array 4) e)" for e
    unfolding coseSign1_def
    by (simp add: encode_leaf encode_array_struct [OF sign1_infos, OF coseSign1_def coseSign1_def coseSign1_def] few)
  then show ?thesis using marshal_ref_encode [of coseSign1] by (simp add: coseSign1_def)
qed

lemma go_signature: "length bs = 3373 \<Longrightarrow> go_slice bs"
  by (simp add: go_slice_def max_int_def)

interpretation sign1: message coseSign1 sign1_val sign1_of sign1_ok sign1_wire
proof (unfold_locales, goal_cases)
  case 3
  show ?case by (rule messages_exact)
next
  case (4 x)
  show ?case by (rule sign1_emits)
next
  case (5 x)
  have "val_ok no_hooks (\<lambda>_ _. False) coseSign1 (sign1_val x) False"
    unfolding coseSign1_def sign1_val_def
    by (rule val_ok_array_struct [OF sign1_infos, OF coseSign1_def coseSign1_def coseSign1_def])
      (use 5 in \<open>simp_all add: go_few go_signature val_ok_fields val_ok_empty sign1_ok_def less_Suc_eq\<close>)
  then show ?case by (simp add: struct_not_null sign1_val_def coseSign1_def isOptionType_def)
next
  case (6 v bs)
  from 6(1) obtain p q g where v: "v = VStruct [VStruct [], VBytes p, VStruct [], VBytes q, VArray g]"
    and ok: "pred_option go_slice p" "pred_option go_slice q" "length g = 3373"
    by (auto simp: coseSign1_def emptyHeader_def has_type_fields has_type_leaf list_all2_Cons1)
  then obtain r where "p = Some r" using 6(2) marshal_sign1_nil by (cases p) auto
  with v ok show ?case
    by (auto simp: sign1_of_def sign1_val_def sign1_ok_def field_val_def bytes_val_def slice_val_def)
qed (simp_all add: sign1_val_def sign1_of_def field_val_def bytes_val_def slice_val_def coseSign1_def)

lemma encap_nil: "encodeValue no_hooks encapKeyHeader (VStruct [VBytes None]) True False e =
    (Inl ErrUnexpectedNil, append_buf (wire_map 1 @ wire_int (-4)) e)"
  unfolding encapKeyHeader_def by (simp add: encode_leaf encap_encode sort_fields_def)

lemma marshal_encrypt0_nil:
  "marshal_ref coseEncrypt0 (VStruct [x, VBytes p, VStruct [VBytes k], VBytes c]) = Inr bs \<Longrightarrow> p \<noteq> None \<and> k \<noteq> None \<and> c \<noteq> None"
proof -
  assume m: "marshal_ref coseEncrypt0 (VStruct [x, VBytes p, VStruct [VBytes k], VBytes c]) = Inr bs"
  then show ?thesis
    unfolding coseEncrypt0_def
    by (cases p; cases k; cases c)
      (simp_all add: emitsD [OF encap_emits] encap_nil marshal_ref_encode encode_leaf encode_array_struct [OF encrypt0_infos, OF coseEncrypt0_def coseEncrypt0_def coseEncrypt0_def])
qed

interpretation encrypt0: message coseEncrypt0 encrypt0_val encrypt0_of encrypt0_ok encrypt0_wire
proof (unfold_locales, goal_cases)
  case 3
  show ?case by (rule messages_exact)
next
  case (4 x)
  show ?case by (rule encrypt0_emits)
next
  case (5 x)
  have "val_ok no_hooks (\<lambda>_ _. False) coseEncrypt0 (encrypt0_val x) False"
    unfolding coseEncrypt0_def encrypt0_val_def
    by (rule val_ok_array_struct [OF encrypt0_infos, OF coseEncrypt0_def coseEncrypt0_def coseEncrypt0_def])
      (use 5 in \<open>simp_all add: go_slice_def max_int_def val_ok_fields val_ok_encap encrypt0_ok_def less_Suc_eq\<close>)
  then show ?case by (simp add: struct_not_null encrypt0_val_def coseEncrypt0_def isOptionType_def)
next
  case (6 v bs)
  from 6(1) obtain p k c where v: "v = VStruct [VStruct [], VBytes p, VStruct [VBytes k], VBytes c]"
    and ok: "pred_option go_slice p" "pred_option go_slice k" "pred_option go_slice c"
    by (auto simp: coseEncrypt0_def encapKeyHeader_def has_type_fields has_type_leaf list_all2_Cons1)
  then show ?case using marshal_encrypt0_nil [OF 6(2) [unfolded v]]
    by (auto simp: encrypt0_of_def encrypt0_val_def encrypt0_ok_def field_val_def bytes_val_def)
qed (simp_all add: encrypt0_val_def encrypt0_of_def field_val_def bytes_val_def coseEncrypt0_def)

end
