(* ===== verification/Asn1.thy ===== *)
theory Asn1
  imports Prelude
begin

text \<open>
  The key containers of \<^verbatim>\<open>src/internal/asn1ext/asn1ext.go\<close>. Writing uses the standard library
  \<^verbatim>\<open>encoding/asn1\<close>, whose DER is written out here; reading uses \<^verbatim>\<open>cryptobyte\<close>, which is not
  part of the repository: its two readers are the parameter \<open>cryptobyte\<close>, and what the code
  relies on is the hypothesis \<open>der_reader\<close>.
\<close>

section \<open>DER\<close>

type_synonym oid = "nat list"

fun be_min :: "nat \<Rightarrow> bytes" where \<comment> \<open>big endian without leading zeros\<close>
  "be_min n = (if n = 0 then [] else be_min (n div 256) @ [of_nat n])"

declare be_min.simps [simp del]

definition der_length :: "nat \<Rightarrow> bytes" where
  "der_length n = (if n < 128 then [of_nat n] else of_nat (128 + length (be_min n)) # be_min n)"

definition tlv :: "byte \<Rightarrow> bytes \<Rightarrow> bytes" where
  "tlv tag content = tag # der_length (length content) @ content"

fun base128_high :: "nat \<Rightarrow> bytes" where
  "base128_high n = (if n = 0 then [] else base128_high (n div 128) @ [of_nat (128 + n mod 128)])"

declare base128_high.simps [simp del]

definition base128 :: "nat \<Rightarrow> bytes" where
  "base128 n = base128_high (n div 128) @ [of_nat (n mod 128)]"

fun oid_content :: "oid \<Rightarrow> bytes" where
  "oid_content (a # b # arcs) = base128 (40 * a + b) @ concat (map base128 arcs)"
| "oid_content _ = []"

definition SEQUENCE :: byte where "SEQUENCE = 0x30"
definition INTEGER :: byte where "INTEGER = 2"
definition BIT_STRING :: byte where "BIT_STRING = 3"
definition OCTET_STRING :: byte where "OCTET_STRING = 4"
definition OBJECT_IDENTIFIER :: byte where "OBJECT_IDENTIFIER = 6"

definition oid_der :: "oid \<Rightarrow> bytes" where
  "oid_der oid = tlv OBJECT_IDENTIFIER (oid_content oid)"

section \<open>Reading\<close>

text \<open>
  \<^verbatim>\<open>s.ReadASN1(&out, tag)\<close> gives the content of the first element and the rest of \<open>s\<close>, or
  \<open>None\<close> for false; \<^verbatim>\<open>s.ReadASN1ObjectIdentifier(&oid)\<close> likewise.
\<close>

record cryptobyte =
  readASN1 :: "byte \<Rightarrow> bytes \<Rightarrow> (bytes \<times> bytes) option"
  readOID :: "bytes \<Rightarrow> (oid \<times> bytes) option"

text \<open>The object identifiers of the repository: Ed25519, ML-DSA-65, the composite, X-Wing, RSA.\<close>

definition known_oids :: "oid list" where
  "known_oids = [[1, 3, 101, 112], [2, 16, 840, 1, 101, 3, 4, 3, 18], [1, 3, 6, 1, 5, 5, 7, 6, 48],
     [1, 3, 6, 1, 4, 1, 62253, 25722], [1, 2, 840, 113549, 1, 1, 1]]"

definition der_reader :: "cryptobyte \<Rightarrow> bool" where
  "der_reader cb \<longleftrightarrow>
     (\<forall>t s c r. readASN1 cb t s = Some (c, r) \<longrightarrow> s = tlv t c @ r) \<and>
     (\<forall>t c r. length c < 2 ^ 31 \<longrightarrow> readASN1 cb t (tlv t c @ r) = Some (c, r)) \<and>
     (\<forall>s oid r. readOID cb s = Some (oid, r) \<longrightarrow> s = oid_der oid @ r) \<and>
     (\<forall>oid \<in> set known_oids. \<forall>r. readOID cb (oid_der oid @ r) = Some (oid, r))"

datatype asn1_error =
    InvalidStructure
  | InvalidVersion
  | UnsupportedPKCS8Version
  | InvalidAlgorithmIdentifier
  | InvalidAlgorithmOID
  | InvalidPrivateKeyEncoding
  | TrailingPrivateKeyData
  | InvalidPublicKeyEncoding
  | EmptyBitString

record pkcs8_private_key =
  p8_version :: nat
  p8_algorithm :: oid
  p8_key :: bytes

text \<open>
  The optional parameters behind the object identifier are read or skipped with all results
  ignored, and nothing looks at \<^verbatim>\<open>algSeq\<close> afterwards.
\<close>

definition ParsePKCS8PrivateKey :: "cryptobyte \<Rightarrow> bytes \<Rightarrow> asn1_error + pkcs8_private_key" where
  "ParsePKCS8PrivateKey cb der =
     (case readASN1 cb SEQUENCE der of
        None \<Rightarrow> Inl InvalidStructure
      | Some (inner, rest) \<Rightarrow>
          if rest \<noteq> [] then Inl InvalidStructure
          else case readASN1 cb INTEGER inner of
            None \<Rightarrow> Inl InvalidVersion
          | Some (versionBytes, inner) \<Rightarrow>
              if length versionBytes \<noteq> 1 then Inl InvalidVersion
              else if hd versionBytes \<noteq> 0 then Inl UnsupportedPKCS8Version
              else case readASN1 cb SEQUENCE inner of
                None \<Rightarrow> Inl InvalidAlgorithmIdentifier
              | Some (algSeq, inner) \<Rightarrow>
                  (case readOID cb algSeq of
                     None \<Rightarrow> Inl InvalidAlgorithmOID
                   | Some (oid, _) \<Rightarrow>
                       (case readASN1 cb OCTET_STRING inner of
                          None \<Rightarrow> Inl InvalidPrivateKeyEncoding
                        | Some (keyBytes, inner) \<Rightarrow>
                            if inner \<noteq> [] then Inl TrailingPrivateKeyData
                            else Inr \<lparr>p8_version = unat (hd versionBytes), p8_algorithm = oid, p8_key = keyBytes\<rparr>)))"

record subject_public_key_info =
  sp_algorithm :: oid
  sp_bytes :: bytes
  sp_bitlen :: int

definition ParseSubjectPublicKeyInfo :: "cryptobyte \<Rightarrow> bytes \<Rightarrow> asn1_error + subject_public_key_info" where
  "ParseSubjectPublicKeyInfo cb der =
     (case readASN1 cb SEQUENCE der of
        None \<Rightarrow> Inl InvalidStructure
      | Some (inner, rest) \<Rightarrow>
          if rest \<noteq> [] then Inl InvalidStructure
          else case readASN1 cb SEQUENCE inner of
            None \<Rightarrow> Inl InvalidAlgorithmIdentifier
          | Some (algSeq, inner) \<Rightarrow>
              (case readOID cb algSeq of
                 None \<Rightarrow> Inl InvalidAlgorithmOID
               | Some (oid, _) \<Rightarrow>
                   (case readASN1 cb BIT_STRING inner of
                      None \<Rightarrow> Inl InvalidPublicKeyEncoding
                    | Some (bitString, inner) \<Rightarrow>
                        if inner \<noteq> [] then Inl InvalidPublicKeyEncoding
                        else if bitString = [] then Inl EmptyBitString
                        else Inr \<lparr>sp_algorithm = oid, sp_bytes = tl bitString,
                               sp_bitlen = (int (length bitString) - 1) * 8 - int (unat (hd bitString))\<rparr>)))"

section \<open>Writing\<close>

text \<open>
  \<^verbatim>\<open>asn1.Marshal\<close> of a \<open>PKCS8PrivateKey\<close> of version 0 and of a byte-aligned
  \<open>SubjectPublicKeyInfo\<close>, both with an algorithm identifier without parameters. The argument
  \<open>params\<close> (empty in what the code writes) is what the parsers tolerate.
\<close>

definition pkcs8_with :: "bytes \<Rightarrow> oid \<Rightarrow> bytes \<Rightarrow> bytes" where
  "pkcs8_with params oid key =
     tlv SEQUENCE (tlv INTEGER [0] @ tlv SEQUENCE (oid_der oid @ params) @ tlv OCTET_STRING key)"

definition spki_with :: "bytes \<Rightarrow> oid \<Rightarrow> byte \<Rightarrow> bytes \<Rightarrow> bytes" where
  "spki_with params oid pad key =
     tlv SEQUENCE (tlv SEQUENCE (oid_der oid @ params) @ tlv BIT_STRING (pad # key))"

definition pkcs8_der :: "oid \<Rightarrow> bytes \<Rightarrow> bytes" where
  "pkcs8_der oid key = pkcs8_with [] oid key"

definition spki_der :: "oid \<Rightarrow> bytes \<Rightarrow> bytes" where
  "spki_der oid key = spki_with [] oid 0 key"

lemma length_tlv: "length (tlv t c) = 1 + length (der_length (length c)) + length c"
  by (simp add: tlv_def)

lemma readASN1_only: "der_reader cb \<Longrightarrow> readASN1 cb t s = Some (c, r) \<Longrightarrow> s = tlv t c @ r"
  unfolding der_reader_def by blast

lemma readASN1_tlv: "der_reader cb \<Longrightarrow> length c < 2 ^ 31 \<Longrightarrow> readASN1 cb t (tlv t c @ r) = Some (c, r)"
  unfolding der_reader_def by blast

lemma readASN1_tlv_end: "der_reader cb \<Longrightarrow> length c < 2 ^ 31 \<Longrightarrow> readASN1 cb t (tlv t c) = Some (c, [])"
  using readASN1_tlv [of cb c t "[]"] by simp

lemma readASN1_whole:
  "der_reader cb \<Longrightarrow> length c < 2 ^ 31 \<Longrightarrow> readASN1 cb t s = Some (c, []) \<longleftrightarrow> s = tlv t c"
  using readASN1_only [of cb t s c "[]"] readASN1_tlv_end [of cb c t] by auto

lemma readOID_only: "der_reader cb \<Longrightarrow> readOID cb s = Some (oid, r) \<Longrightarrow> s = oid_der oid @ r"
  unfolding der_reader_def by blast

lemma readOID_known: "der_reader cb \<Longrightarrow> oid \<in> set known_oids \<Longrightarrow> readOID cb (oid_der oid @ r) = Some (oid, r)"
  unfolding der_reader_def by blast

lemma length_content_less: "length c < length (tlv t c)"
  by (simp add: length_tlv)

lemma ParsePKCS8_only:
  assumes "der_reader cb" and "ParsePKCS8PrivateKey cb der = Inr info"
  shows "p8_version info = 0 \<and> (\<exists>params. der = pkcs8_with params (p8_algorithm info) (p8_key info))"
proof -
  from assms(2) obtain inner v i2 alg i3 oid rest key where
    r: "readASN1 cb SEQUENCE der = Some (inner, [])" "readASN1 cb INTEGER inner = Some (v, i2)" "length v = 1" "hd v = 0"
      "readASN1 cb SEQUENCE i2 = Some (alg, i3)" "readASN1 cb OCTET_STRING i3 = Some (key, [])"
    and o: "readOID cb alg = Some (oid, rest)"
    and i: "info = \<lparr>p8_version = 0, p8_algorithm = oid, p8_key = key\<rparr>"
    by (auto simp: ParsePKCS8PrivateKey_def split: option.splits prod.splits if_splits)
  have "v = [0]" using r(3,4) by (cases v) auto
  then show ?thesis using r(1,2,5,6) [THEN readASN1_only [OF assms(1)]] readOID_only [OF assms(1) o]
    by (auto simp: i pkcs8_with_def)
qed

lemma ParsePKCS8_parses:
  assumes "der_reader cb" and "oid \<in> set known_oids" and "length (pkcs8_with params oid key) < 2 ^ 31"
  shows "ParsePKCS8PrivateKey cb (pkcs8_with params oid key) = Inr \<lparr>p8_version = 0, p8_algorithm = oid, p8_key = key\<rparr>"
proof -
  let ?alg = "tlv SEQUENCE (oid_der oid @ params)" and ?k = "tlv OCTET_STRING key" and ?v = "tlv INTEGER [0]"
  have l: "length (?v @ ?alg @ ?k) < 2 ^ 31" "length (oid_der oid @ params) < 2 ^ 31" "length key < 2 ^ 31"
    using assms(3) by (simp_all add: pkcs8_with_def length_tlv)
  note rd = readASN1_tlv_end [OF assms(1) l(1), of SEQUENCE] readASN1_tlv [OF assms(1), of "[0]" INTEGER "?alg @ ?k"]
    readASN1_tlv [OF assms(1) l(2), of SEQUENCE ?k] readASN1_tlv_end [OF assms(1) l(3), of OCTET_STRING]
    readOID_known [OF assms(1,2), of params]
  show ?thesis using rd by (simp add: ParsePKCS8PrivateKey_def pkcs8_with_def)
qed

lemma ParseSPKI_only_any:
  assumes "der_reader cb" and "ParseSubjectPublicKeyInfo cb der = Inr info"
  shows "\<exists>params pad. der = spki_with params (sp_algorithm info) pad (sp_bytes info) \<and>
    readOID cb (oid_der (sp_algorithm info) @ params) = Some (sp_algorithm info, params) \<and>
    sp_bitlen info = 8 * int (length (sp_bytes info)) - int (unat pad)"
proof -
  from assms(2) obtain inner alg i2 oid rest bits where
    r: "readASN1 cb SEQUENCE der = Some (inner, [])" "readASN1 cb SEQUENCE inner = Some (alg, i2)"
      "readASN1 cb BIT_STRING i2 = Some (bits, [])" and b: "bits \<noteq> []" and o: "readOID cb alg = Some (oid, rest)"
    and i: "info = \<lparr>sp_algorithm = oid, sp_bytes = tl bits, sp_bitlen = (int (length bits) - 1) * 8 - int (unat (hd bits))\<rparr>"
    by (auto simp: ParseSubjectPublicKeyInfo_def split: option.splits prod.splits if_splits)
  from b obtain pad key where "bits = pad # key" by (cases bits) auto
  then show ?thesis using r [THEN readASN1_only [OF assms(1)]] readOID_only [OF assms(1) o] o
    by (intro exI [of _ rest] exI [of _ pad]) (auto simp: i spki_with_def)
qed

lemma ParseSPKI_only:
  assumes "der_reader cb" and "ParseSubjectPublicKeyInfo cb der = Inr info"
  shows "\<exists>params pad. der = spki_with params (sp_algorithm info) pad (sp_bytes info) \<and>
    sp_bitlen info = 8 * int (length (sp_bytes info)) - int (unat pad)"
  using ParseSPKI_only_any [OF assms] by blast

lemma ParseSPKI_parses_any:
  assumes "der_reader cb" and "readOID cb (oid_der oid @ params) = Some (oid, params)" and "length (spki_with params oid pad key) < 2 ^ 31"
  shows "ParseSubjectPublicKeyInfo cb (spki_with params oid pad key) =
    Inr \<lparr>sp_algorithm = oid, sp_bytes = key, sp_bitlen = 8 * int (length key) - int (unat pad)\<rparr>"
proof -
  let ?alg = "tlv SEQUENCE (oid_der oid @ params)" and ?k = "tlv BIT_STRING (pad # key)"
  have l: "length (?alg @ ?k) < 2 ^ 31" "length (oid_der oid @ params) < 2 ^ 31" "length (pad # key) < 2 ^ 31"
    using assms(3) by (simp_all add: spki_with_def length_tlv)
  note rd = readASN1_tlv_end [OF assms(1) l(1), of SEQUENCE]
    readASN1_tlv [OF assms(1) l(2), of SEQUENCE ?k] readASN1_tlv_end [OF assms(1) l(3), of BIT_STRING]
  show ?thesis using rd assms(2) by (simp add: ParseSubjectPublicKeyInfo_def spki_with_def mult.commute)
qed

lemma ParseSPKI_parses:
  assumes "der_reader cb" and "oid \<in> set known_oids" and "length (spki_with params oid pad key) < 2 ^ 31"
  shows "ParseSubjectPublicKeyInfo cb (spki_with params oid pad key) =
    Inr \<lparr>sp_algorithm = oid, sp_bytes = key, sp_bitlen = 8 * int (length key) - int (unat pad)\<rparr>"
  by (rule ParseSPKI_parses_any [OF assms(1) readOID_known [OF assms(1,2)] assms(3)])

section \<open>A reader that keeps the laws\<close>

definition read_tlv :: "byte \<Rightarrow> bytes \<Rightarrow> (bytes \<times> bytes) option" where
  "read_tlv t s =
     (case s of
        t' # l # r \<Rightarrow>
          let k = (if l < 128 then 0 else unat l - 128);
              n = (if l < 128 then unat l else be_val (take k r));
              c = take n (drop k r)
          in if t' = t \<and> length c = n \<and> der_length n = l # take k r then Some (c, drop n (drop k r)) else None
      | _ \<Rightarrow> None)"

definition sample_reader :: cryptobyte where
  "sample_reader = \<lparr>readASN1 = read_tlv,
     readOID = (\<lambda>s. case read_tlv OBJECT_IDENTIFIER s of
        None \<Rightarrow> None
      | Some (c, r) \<Rightarrow> (case find (\<lambda>oid. oid_content oid = c) known_oids of None \<Rightarrow> None | Some oid \<Rightarrow> Some (oid, r)))\<rparr>"

lemma be_val_be_min: "be_val (be_min n) = n"
  by (induction n rule: be_min.induct) (subst be_min.simps, simp add: unat_of_nat)

lemma be_min_be_val: "bs \<noteq> [] \<Longrightarrow> hd bs \<noteq> 0 \<Longrightarrow> be_min (be_val bs) = bs"
proof (induction bs rule: rev_induct)
  case (snoc x xs)
  show ?case
  proof (cases "xs = []")
    case True
    with snoc.prems have "unat x \<noteq> 0" by (simp add: unat_eq_zero)
    moreover have "be_val [x] = unat x" by (simp add: be_val_def)
    ultimately show ?thesis by (simp add: True be_min.simps [of "unat x"] be_min.simps [of 0])
  next
    case False
    then have "be_min (be_val xs) = xs" using snoc by simp
    moreover have "be_val xs \<noteq> 0" using False calculation by (metis be_min.simps)
    moreover have "of_nat (be_val xs * 256 + unat x) = x"
      by (rule word_unat_eq_iff [THEN iffD2]) (simp add: unat_of_nat del: of_nat_add of_nat_mult)
    ultimately show ?thesis by (subst be_min.simps) simp
  qed
qed simp

lemma length_be_min: "n < 256 ^ k \<Longrightarrow> length (be_min n) \<le> k"
proof (induction k arbitrary: n)
  case 0
  then show ?case by (simp add: be_min.simps)
next
  case (Suc k)
  then have "n div 256 < 256 ^ k" by (simp add: less_mult_imp_div_less mult.commute)
  with Suc.IH show ?case by (subst be_min.simps) simp
qed

lemma length_der_length_le: "l < 2 ^ 30 \<Longrightarrow> length (der_length l) \<le> 5"
  using length_be_min [of l 4] by (simp add: der_length_def)

lemma length_be_min_le: "length (be_min n) \<le> n"
proof (induction n rule: be_min.induct)
  case (1 n)
  then show ?case by (cases "n = 0") (simp_all add: be_min.simps [of n] be_min.simps [of 0])
qed

lemma tlv_le: "length (tlv t c) \<le> 2 * length c + 2"
  using length_be_min_le [of "length c"] by (simp add: length_tlv der_length_def)

lemma read_tlv_only: "read_tlv t s = Some (c, r) \<Longrightarrow> s = tlv t c @ r"
proof -
  assume a: "read_tlv t s = Some (c, r)"
  then obtain l r' where s: "s = t # l # r'" by (auto simp: read_tlv_def Let_def split: list.splits if_splits)
  define k where "k = (if l < 128 then 0 else unat l - 128)"
  define n where "n = (if l < 128 then unat l else be_val (take k r'))"
  from a have "c = take n (drop k r')" "length c = n" "der_length n = l # take k r'" "r = drop n (drop k r')"
    by (auto simp: s read_tlv_def Let_def k_def n_def split: if_splits)
  moreover have "r' = take k r' @ take n (drop k r') @ drop n (drop k r')" by (simp only: append_take_drop_id)
  ultimately show ?thesis by (simp only: s tlv_def append_Cons append.assoc)
qed

lemma read_tlv_tlv:
  assumes "length c < 2 ^ 31"
  shows "read_tlv t (tlv t c @ r) = Some (c, r)"
proof (cases "length c < 128")
  case True
  then have "unat (of_nat (length c) :: byte) = length c" by (simp add: unat_of_nat)
  moreover from this True have "(of_nat (length c) :: byte) < 128" by (simp add: word_less_nat_alt)
  ultimately show ?thesis using True by (simp add: read_tlv_def tlv_def der_length_def)
next
  case False
  let ?b = "be_min (length c)"
  have "length ?b \<le> 4" using assms by (intro length_be_min) simp
  then have u: "unat (of_nat (128 + length ?b) :: byte) = 128 + length ?b" by (simp add: unat_of_nat del: of_nat_add)
  then have l: "\<not> (of_nat (128 + length ?b) :: byte) < 128" by (simp add: word_less_nat_alt del: of_nat_add)
  show ?thesis using False u l
    by (simp add: read_tlv_def tlv_def der_length_def Let_def be_val_be_min del: of_nat_add)
qed

lemma tlv_inject:
  assumes "length c < 2 ^ 31" and "length c' < 2 ^ 31"
  shows "tlv t c @ r = tlv t' c' @ r' \<longleftrightarrow> t = t' \<and> c = c' \<and> r = r'"
proof
  assume e: "tlv t c @ r = tlv t' c' @ r'"
  then have t: "t = t'" by (simp add: tlv_def)
  from e have "read_tlv t (tlv t c @ r) = read_tlv t (tlv t' c' @ r')" by (rule arg_cong)
  then show "t = t' \<and> c = c' \<and> r = r'" using t by (simp only: read_tlv_tlv [OF assms(1)] read_tlv_tlv [OF assms(2)]) simp
qed auto

lemma tlv_inject_end:
  assumes "length c < 2 ^ 31" and "length c' < 2 ^ 31"
  shows "tlv t c = tlv t' c' \<longleftrightarrow> t = t' \<and> c = c'"
  using tlv_inject [OF assms, of t "[]" t' "[]"] by simp

text \<open>Reading two encodings side by side; the lengths are those of the whole.\<close>

lemma tlv_split:
  assumes "tlv t c @ r = tlv t' c' @ r'" and "length (tlv t c @ r) < 2 ^ 31"
  shows "t = t' \<and> c = c' \<and> r = r'"
proof -
  have "length (tlv t' c' @ r') < 2 ^ 31" using assms by simp
  then have "length c < 2 ^ 31" "length c' < 2 ^ 31" using assms(2) by (simp_all add: length_tlv)
  then show ?thesis using assms(1) by (simp only: tlv_inject)
qed

lemma tlv_split_end: "tlv t c = tlv t' c' \<Longrightarrow> length (tlv t c) < 2 ^ 31 \<Longrightarrow> t = t' \<and> c = c'"
  using tlv_split [of t c "[]" t' c' "[]"] by simp

text \<open>The arcs of an object identifier are a prefix code.\<close>

fun read_arc :: "nat \<Rightarrow> bytes \<Rightarrow> nat \<times> bytes" where
  "read_arc a [] = (a, [])"
| "read_arc a (b # bs) = (if b < 128 then (a * 128 + unat b, bs) else read_arc (a * 128 + (unat b - 128)) bs)"

lemma read_arc_high: "read_arc a (base128_high n @ s) = read_arc (a * 128 ^ length (base128_high n) + n) s"
proof (induction n arbitrary: s rule: base128_high.induct)
  case (1 n)
  show ?case
  proof (cases "n = 0")
    case False
    have u: "unat (of_nat (128 + n mod 128) :: byte) = 128 + n mod 128" by (simp add: unat_of_nat del: of_nat_add)
    then have g: "\<not> (of_nat (128 + n mod 128) :: byte) < 128" by (simp add: word_less_nat_alt del: of_nat_add)
    show ?thesis
      using False 1 [of "of_nat (128 + n mod 128) # s"] u g
      by (simp add: base128_high.simps [of n] algebra_simps del: of_nat_add)
  qed (simp add: base128_high.simps)
qed

lemma read_arc_base128: "read_arc 0 (base128 n @ s) = (n, s)"
proof -
  have u: "unat (of_nat (n mod 128) :: byte) = n mod 128" by (simp add: unat_of_nat)
  then have "(of_nat (n mod 128) :: byte) < 128" by (simp add: word_less_nat_alt)
  then show ?thesis using read_arc_high [of 0 "n div 128"] u by (simp add: base128_def)
qed

lemma base128_inject: "base128 m @ r = base128 n @ s \<longleftrightarrow> m = n \<and> r = s"
  by (metis read_arc_base128 prod.inject)

lemma base128_not_Nil [simp]: "base128 n \<noteq> []"
  by (simp add: base128_def)

lemma arcs_inject: "concat (map base128 as) = concat (map base128 bs) \<longleftrightarrow> as = bs"
proof (induction as arbitrary: bs)
  case Nil
  show ?case by (cases bs) simp_all
next
  case (Cons a as)
  then show ?case by (cases bs) (simp_all add: base128_inject)
qed

lemma sample_reader_ok: "der_reader sample_reader"
proof -
  have only: "readOID sample_reader s = Some (oid, r) \<Longrightarrow> s = oid_der oid @ r" for s oid r
    using read_tlv_only by (auto simp: sample_reader_def oid_der_def find_Some_iff split: option.splits)
  have all: "list_all (\<lambda>oid. length (oid_content oid) < 2 ^ 31 \<and>
      find (\<lambda>x. oid_content x = oid_content oid) known_oids = Some oid) known_oids"
    by (simp add: known_oids_def base128_def base128_high.simps)
  then have short: "length (oid_content oid) < 2 ^ 31" and fnd: "find (\<lambda>x. oid_content x = oid_content oid) known_oids = Some oid"
    if "oid \<in> set known_oids" for oid
    using that by (simp_all add: list_all_iff)
  have known: "readOID sample_reader (oid_der oid @ r) = Some (oid, r)" if "oid \<in> set known_oids" for oid r
    using read_tlv_tlv [OF short [OF that]] fnd [OF that] by (simp add: sample_reader_def oid_der_def)
  show ?thesis unfolding der_reader_def
    using read_tlv_only read_tlv_tlv only known by (auto simp: sample_reader_def)
qed

end
