(* ===== verification/Base64.thy ===== *)
theory Base64
  imports Prelude
begin

text \<open>
  Standard base64 with padding, as the sources use it: \<^verbatim>\<open>base64.StdEncoding\<close> and its
  \<^verbatim>\<open>Strict()\<close> variant of the Go standard library, and \<^verbatim>\<open>src/internal/base64ext\<close>. Text is a
  byte string. The library's decoder skips carriage returns and line feeds; \<open>b64_decode\<close>
  does so too, and \<open>DecodeString\<close> is the wrapper that rejects them. The wrapper keeps the
  contract \<open>strict_codec\<close>: it accepts the encoder's output and nothing else.
\<close>

section \<open>The alphabet\<close>

definition b64_char :: "nat \<Rightarrow> byte" where
  "b64_char n =
     (if n < 26 then byte_of (n + 65)
      else if n < 52 then byte_of (n + 71)
      else if n < 62 then byte_of (n - 4)
      else if n = 62 then 43 else 47)"

definition b64_val :: "byte \<Rightarrow> nat option" where
  "b64_val c =
     (let n = unat c in
      if 65 \<le> n \<and> n \<le> 90 then Some (n - 65)
      else if 97 \<le> n \<and> n \<le> 122 then Some (n - 71)
      else if 48 \<le> n \<and> n \<le> 57 then Some (n + 4)
      else if n = 43 then Some 62
      else if n = 47 then Some 63
      else None)"

definition b64_pad :: byte where
  "b64_pad = 61"

definition cr :: byte where "cr = 13"

definition lf :: byte where "lf = 10"

lemma unat_b64_char:
  "n < 64 \<Longrightarrow> unat (b64_char n) =
    (if n < 26 then n + 65 else if n < 52 then n + 71 else if n < 62 then n - 4 else if n = 62 then 43 else 47)"
  by (simp add: b64_char_def)

lemma b64_val_char [simp]: "n < 64 \<Longrightarrow> b64_val (b64_char n) = Some n"
  by (simp add: b64_val_def unat_b64_char Let_def) linarith

lemma b64_val_Some: "b64_val c = Some n \<longleftrightarrow> n < 64 \<and> c = b64_char n"
proof
  assume "b64_val c = Some n"
  then have "n < 64" "unat c = unat (b64_char n)"
    by (auto simp: unat_b64_char b64_val_def Let_def split: if_splits)
  then show "n < 64 \<and> c = b64_char n" by (simp add: word_unat_eq_iff)
qed simp

lemma b64_val_special [simp]: "b64_val b64_pad = None" "b64_val cr = None" "b64_val lf = None" "b64_val 45 = None"
  by (simp_all add: b64_val_def b64_pad_def cr_def lf_def)

lemma b64_char_not_special:
  assumes "n < 64"
  shows "b64_char n \<noteq> b64_pad" "b64_char n \<noteq> cr" "b64_char n \<noteq> lf" "b64_char n \<noteq> 45"
  using b64_val_char [OF assms] b64_val_special by (metis option.distinct(1))+

section \<open>Encoding and decoding\<close>

fun b64_encode :: "bytes \<Rightarrow> bytes" where
  "b64_encode [] = []"
| "b64_encode [a] = [b64_char (unat a div 4), b64_char (unat a mod 4 * 16), b64_pad, b64_pad]"
| "b64_encode [a, b] =
     [b64_char (unat a div 4), b64_char (unat a mod 4 * 16 + unat b div 16), b64_char (unat b mod 16 * 4), b64_pad]"
| "b64_encode (a # b # c # bs) =
     b64_char (unat a div 4) # b64_char (unat a mod 4 * 16 + unat b div 16)
     # b64_char (unat b mod 16 * 4 + unat c div 64) # b64_char (unat c mod 64) # b64_encode bs"

text \<open>
  One group of four characters at a time; padding only in the last group, and the bits the
  padding drops are zero (\<^verbatim>\<open>Strict()\<close>).
\<close>

fun b64_groups :: "bytes \<Rightarrow> bytes option" where
  "b64_groups [] = Some []"
| "b64_groups (c1 # c2 # c3 # c4 # cs) =
     (case (b64_val c1, b64_val c2) of
        (Some w, Some x) \<Rightarrow>
          if cs = [] \<and> c4 = b64_pad then
            (if c3 = b64_pad then
               (if x mod 16 = 0 then Some [byte_of (w * 4 + x div 16)] else None)
             else case b64_val c3 of
               None \<Rightarrow> None
             | Some y \<Rightarrow>
                 if y mod 4 = 0 then Some [byte_of (w * 4 + x div 16), byte_of (x mod 16 * 16 + y div 4)] else None)
          else
            (case (b64_val c3, b64_val c4, b64_groups cs) of
               (Some y, Some z, Some bs) \<Rightarrow>
                 Some (byte_of (w * 4 + x div 16) # byte_of (x mod 16 * 16 + y div 4) # byte_of (y mod 4 * 64 + z) # bs)
             | _ \<Rightarrow> None)
      | _ \<Rightarrow> None)"
| "b64_groups _ = None"

definition b64_decode :: "bytes \<Rightarrow> bytes option" where
  "b64_decode s = b64_groups (filter (\<lambda>c. c \<noteq> cr \<and> c \<noteq> lf) s)"

definition contains_newline :: "bytes \<Rightarrow> bool" where
  "contains_newline s \<longleftrightarrow> (\<exists>c \<in> set s. c = cr \<or> c = lf)"

datatype base64_error = ErrInvalidCharacter | ErrCorruptInput

definition DecodeString :: "bytes \<Rightarrow> base64_error + bytes" where
  "DecodeString s =
     (if contains_newline s then Inl ErrInvalidCharacter
      else case b64_decode s of None \<Rightarrow> Inl ErrCorruptInput | Some bs \<Rightarrow> Inr bs)"

section \<open>The decoder inverts the encoder, and accepts nothing else\<close>

lemma byte_of_sextets:
  "byte_of (unat (a :: byte) div 4 * 4 + (unat a mod 4 * 16 + r) div 16) = a" if "r < 16"
proof -
  have "(unat a mod 4 * 16 + r) div 16 = unat a mod 4" using that by simp
  then have "unat a div 4 * 4 + (unat a mod 4 * 16 + r) div 16 = unat a" by simp
  then show ?thesis by simp
qed

lemma byte_of_sextets2:
  "byte_of ((q * 16 + unat (b :: byte) div 16) mod 16 * 16 + (unat b mod 16 * 4 + r) div 4) = b" if "r < 4"
proof -
  have "unat b div 16 < 16" by (simp add: less_mult_imp_div_less)
  then have "(q * 16 + unat b div 16) mod 16 = unat b div 16" by simp
  moreover have "(unat b mod 16 * 4 + r) div 4 = unat b mod 16" using that by simp
  ultimately show ?thesis by simp
qed

lemma byte_of_sextets3: "byte_of ((q * 4 + unat (c :: byte) div 64) mod 4 * 64 + unat c mod 64) = c"
proof -
  have "unat c div 64 < 4" by (simp add: less_mult_imp_div_less)
  then have "(q * 4 + unat c div 64) mod 4 = unat c div 64" by simp
  then show ?thesis by simp
qed

lemma sextet_less:
  "unat (a :: byte) div 4 < 64" "unat (a :: byte) mod 4 * 16 + unat (b :: byte) div 16 < 64"
  "unat (b :: byte) mod 16 * 4 + unat (c :: byte) div 64 < 64" "unat (a :: byte) mod 4 * 16 < 64"
  "unat (b :: byte) mod 16 * 4 < 64"
proof -
  have "unat a < 256" "unat b < 256" "unat c < 256" by simp_all
  then have "unat b div 16 < 16" "unat c div 64 < 4" "unat a div 4 < 64" by (simp_all add: less_mult_imp_div_less)
  moreover have "unat a mod 4 < 4" "unat b mod 16 < 16" by simp_all
  ultimately show "unat a div 4 < 64" "unat a mod 4 * 16 + unat b div 16 < 64"
    "unat b mod 16 * 4 + unat c div 64 < 64" "unat a mod 4 * 16 < 64" "unat b mod 16 * 4 < 64"
    by linarith+
qed

lemma b64_groups_encode: "b64_groups (b64_encode bs) = Some bs"
proof (induction bs rule: b64_encode.induct)
  case (2 a)
  then show ?case using byte_of_sextets [of 0 a] by (simp add: sextet_less)
next
  case (3 a b)
  then show ?case using byte_of_sextets [of "unat b div 16" a] byte_of_sextets2 [of 0 "unat a mod 4" b]
    by (simp add: sextet_less b64_char_not_special less_mult_imp_div_less)
next
  case (4 a b c bs)
  have "unat b div 16 < 16" "unat c div 64 < 4" by (simp_all add: less_mult_imp_div_less)
  then show ?case using 4 byte_of_sextets [of "unat b div 16" a] byte_of_sextets2 [of "unat c div 64" "unat a mod 4" b]
      byte_of_sextets3 [of "unat b mod 16" c]
    by (simp add: sextet_less b64_char_not_special)
qed simp


lemma decode_bytes:
  assumes "w < 64" "x < 64" "y < 64" "z < (64 :: nat)"
  shows "unat (byte_of (w * 4 + x div 16)) = w * 4 + x div 16"
    and "unat (byte_of (x mod 16 * 16 + y div 4)) = x mod 16 * 16 + y div 4"
    and "unat (byte_of (y mod 4 * 64 + z)) = y mod 4 * 64 + z"
    and "(w * 4 + x div 16) div 4 = w" and "(w * 4 + x div 16) mod 4 = x div 16"
    and "(x mod 16 * 16 + y div 4) div 16 = x mod 16" and "(x mod 16 * 16 + y div 4) mod 16 = y div 4"
    and "(y mod 4 * 64 + z) div 64 = y mod 4" and "(y mod 4 * 64 + z) mod 64 = z"
proof -
  have a: "x div 16 < 4" "y div 4 < 16" using assms by (simp_all add: less_mult_imp_div_less)
  have b: "x mod 16 < 16" "y mod 4 < 4" by simp_all
  have "w * 4 + x div 16 < 256" "x mod 16 * 16 + y div 4 < 256" "y mod 4 * 64 + z < 256"
    using assms a b by linarith+
  then show "unat (byte_of (w * 4 + x div 16)) = w * 4 + x div 16"
    "unat (byte_of (x mod 16 * 16 + y div 4)) = x mod 16 * 16 + y div 4"
    "unat (byte_of (y mod 4 * 64 + z)) = y mod 4 * 64 + z" by simp_all
  show "(w * 4 + x div 16) div 4 = w" "(w * 4 + x div 16) mod 4 = x div 16"
    "(x mod 16 * 16 + y div 4) div 16 = x mod 16" "(x mod 16 * 16 + y div 4) mod 16 = y div 4"
    "(y mod 4 * 64 + z) div 64 = y mod 4" "(y mod 4 * 64 + z) mod 64 = z"
    using a assms by simp_all
qed

lemma b64_groups_only: "b64_groups s = Some bs \<Longrightarrow> s = b64_encode bs"
proof (induction s arbitrary: bs rule: b64_groups.induct)
  case (2 c1 c2 c3 c4 cs)
  from "2.prems" obtain w x where w: "w < 64" "c1 = b64_char w" and x: "x < 64" "c2 = b64_char x"
    by (auto simp: b64_val_Some split: option.splits)
  note wx = decode_bytes(1,4,5) [OF w(1) x(1), of 0 0, simplified]
  have xx: "x div 16 * 16 + x mod 16 = x" by simp
  show ?case
  proof (cases "cs = [] \<and> c4 = b64_pad")
    case True
    show ?thesis
    proof (cases "c3 = b64_pad")
      case pad: True
      from True pad "2.prems" w x have "x mod 16 = 0" "bs = [byte_of (w * 4 + x div 16)]"
        by (auto split: if_splits)
      then show ?thesis using True pad w x wx xx by simp
    next
      case pad: False
      from True pad "2.prems" w x obtain y where y: "y < 64" "c3 = b64_char y" "y mod 4 = 0"
        "bs = [byte_of (w * 4 + x div 16), byte_of (x mod 16 * 16 + y div 4)]"
        by (auto simp: b64_val_Some split: option.splits if_splits)
      moreover have "y div 4 * 4 = y" using y(3) by auto
      ultimately show ?thesis
        using True w x xx decode_bytes [OF w(1) x(1) y(1), of 0] by simp
    qed
  next
    case False
    from False "2.prems" w x obtain y z bs' where y: "y < 64" "c3 = b64_char y" and z: "z < 64" "c4 = b64_char z"
      and r: "b64_groups cs = Some bs'"
      and bs: "bs = byte_of (w * 4 + x div 16) # byte_of (x mod 16 * 16 + y div 4) # byte_of (y mod 4 * 64 + z) # bs'"
      by (auto simp: b64_val_Some split: option.splits)
    have "cs = b64_encode bs'" using "2.IH" [OF refl _ _ False r] w x by simp
    moreover have "y div 4 * 4 + y mod 4 = y" by simp
    ultimately show ?thesis
      using w x y z xx decode_bytes [OF w(1) x(1) y(1) z(1)] by (simp add: bs)
  qed
qed auto

lemma b64_groups_iff: "b64_groups s = Some bs \<longleftrightarrow> s = b64_encode bs"
  using b64_groups_only b64_groups_encode by blast

definition b64_alphabet :: "byte \<Rightarrow> bool" where
  "b64_alphabet c \<longleftrightarrow> (\<exists>n < 64. c = b64_char n) \<or> c = b64_pad"

lemma b64_alphabet_char: "n < 64 \<Longrightarrow> b64_alphabet (b64_char n)"
  and b64_alphabet_pad: "b64_alphabet b64_pad"
  by (auto simp: b64_alphabet_def)

lemma b64_encode_alphabet: "c \<in> set (b64_encode bs) \<Longrightarrow> b64_alphabet c"
  by (induction bs rule: b64_encode.induct) (auto simp: b64_alphabet_char b64_alphabet_pad sextet_less)

lemma b64_alphabet_newline: "b64_alphabet c \<Longrightarrow> c \<noteq> cr \<and> c \<noteq> lf \<and> c \<noteq> 45"
  using b64_char_not_special by (auto simp: b64_alphabet_def b64_pad_def cr_def lf_def)

lemma contains_newline_encode [simp]: "\<not> contains_newline (b64_encode bs)"
  using b64_encode_alphabet b64_alphabet_newline by (auto simp: contains_newline_def)

lemma b64_decode_clean: "\<not> contains_newline s \<Longrightarrow> b64_decode s = b64_groups s"
  by (simp add: b64_decode_def contains_newline_def filter_id_conv)

interpretation base64: strict_codec b64_encode DecodeString "\<lambda>_. True"
proof
  show "DecodeString (b64_encode bs) = Inr bs" for bs
    by (simp add: DecodeString_def b64_decode_clean b64_groups_encode)
  show "DecodeString s = Inr bs \<Longrightarrow> True \<and> s = b64_encode bs" for s bs
    by (auto simp: DecodeString_def b64_decode_clean b64_groups_iff split: if_splits option.splits)
qed

lemma length_b64_encode: "length (b64_encode bs) = (length bs + 2) div 3 * 4"
proof (induction bs rule: b64_encode.induct)
  case (4 a b c bs)
  have "(length (a # b # c # bs) + 2) div 3 = Suc ((length bs + 2) div 3)" by simp
  with 4 show ?case by simp
qed auto


section \<open>Properties\<close>

text \<open>Strict base64. \<^verbatim>\<open>base64ext.DecodeString\<close> returns \<open>bs\<close> exactly for the text that
  \<^verbatim>\<open>EncodeToString\<close> writes for \<open>bs\<close>: no line breaks, no other padding, no other unused bits.
  A text with a line break is rejected as such.\<close>

lemma DecodeString_exact:
  "(DecodeString s = Inr bs \<longleftrightarrow> s = b64_encode bs) \<and>
   (DecodeString s = Inl ErrInvalidCharacter \<longleftrightarrow> cr \<in> set s \<or> lf \<in> set s)"
  using base64.dec_iff by (auto simp: DecodeString_def contains_newline_def split: option.splits)

end
