(* ===== verification/Pem.thy ===== *)
theory Pem
  imports Base64
begin

text \<open>
  The PEM codec of \<^verbatim>\<open>src/pem/pem.go\<close>. \<open>Decode\<close> follows the source line by line, with one
  error value per message; the slice expression that could go out of range is a \<open>slice\<close>
  with the run-time panic as a value. The grammar of the accepted texts is \<open>pem_text\<close>.
\<close>

definition pemHeader :: bytes where \<comment> \<open>\<^verbatim>\<open>-----BEGIN \<close>\<close>
  "pemHeader = [45, 45, 45, 45, 45, 66, 69, 71, 73, 78, 32]"

definition pemFooter :: bytes where \<comment> \<open>\<^verbatim>\<open>-----END \<close>\<close>
  "pemFooter = [45, 45, 45, 45, 45, 69, 78, 68, 32]"

definition pemEnding :: bytes where \<comment> \<open>\<^verbatim>\<open>-----\<close>\<close>
  "pemEnding = [45, 45, 45, 45, 45]"

datatype pem_error =
    MissingHeader
  | IncompleteHeader
  | MalformedHeader
  | EmptyBlockType
  | MissingFooter
  | TrailingData
  | EmptyBody
  | NoNewlineBeforeFooter
  | InvalidCharacters
  | InvalidBase64
  | SlicePanic \<comment> \<open>a slice expression out of range\<close>

text \<open>\<^verbatim>\<open>s[lo:hi]\<close>\<close>

definition slice :: "'a list \<Rightarrow> nat \<Rightarrow> nat \<Rightarrow> 'a list option" where
  "slice s lo hi = (if lo \<le> hi \<and> hi \<le> length s then Some (take (hi - lo) (drop lo s)) else None)"

definition decode_body :: "bytes \<Rightarrow> bytes \<Rightarrow> pem_error + bytes" where
  "decode_body lineEnding body =
     (if body = [] then Inl EmptyBody
      else if \<not> has_suffix body lineEnding then Inl NoNewlineBeforeFooter
      else
        let b64 = remove_all (take (length body - length lineEnding) body) lineEnding
        in if contains_newline b64 then Inl InvalidCharacters
           else case b64_decode b64 of None \<Rightarrow> Inl InvalidBase64 | Some decoded \<Rightarrow> Inr decoded)"

definition decode_block :: "bytes \<Rightarrow> nat \<Rightarrow> bytes \<Rightarrow> bytes \<Rightarrow> pem_error + bytes \<times> bytes" where
  "decode_block data headerEnd lineEnding blockType =
     (let footer = pemFooter @ blockType @ pemEnding
      in case index_of (drop (headerEnd + 1) data) footer of
           None \<Rightarrow> Inl MissingFooter
         | Some footerIdx \<Rightarrow>
             let footerStart = headerEnd + 1 + footerIdx;
                 footerEnd = footerStart + length footer;
                 rest = drop footerEnd data
             in if rest \<noteq> [] \<and> rest \<noteq> lineEnding then Inl TrailingData
                else case decode_body lineEnding (take footerIdx (drop (headerEnd + 1) data)) of
                  Inl e \<Rightarrow> Inl e
                | Inr decoded \<Rightarrow> Inr (blockType, decoded))"

definition Decode :: "bytes \<Rightarrow> pem_error + bytes \<times> bytes" where
  "Decode data =
     (if \<not> has_prefix data pemHeader then Inl MissingHeader
      else case index_of data [lf] of
        None \<Rightarrow> Inl IncompleteHeader
      | Some headerEnd \<Rightarrow>
          let lineEnding = (if headerEnd > 0 \<and> data ! (headerEnd - 1) = cr then [cr, lf] else [lf]);
              line = take headerEnd data;
              header = (if length lineEnding = 2 then take (length line - 1) line else line)
          in if \<not> has_prefix header pemHeader \<or> \<not> has_suffix header pemEnding then Inl MalformedHeader
             else case slice header (length pemHeader) (length header - length pemEnding) of
               None \<Rightarrow> Inl SlicePanic
             | Some blockType \<Rightarrow>
                 if blockType = [] then Inl EmptyBlockType
                 else decode_block data headerEnd lineEnding blockType)"

text \<open>The loop of \<open>Encode\<close> that cuts the base64 text into lines.\<close>

function lines64 :: "bytes \<Rightarrow> bytes list" where
  "lines64 b64 = (if b64 = [] then [] else take 64 b64 # lines64 (drop 64 b64))"
  by pat_completeness auto
termination
  by (relation "measure length") auto

declare lines64.simps [simp del]

definition Encode :: "bytes \<Rightarrow> bytes \<Rightarrow> bytes" where
  "Encode kind blob =
     pemHeader @ kind @ pemEnding @ [lf] @
     concat (map (\<lambda>line. line @ [lf]) (lines64 (b64_encode blob))) @
     pemFooter @ kind @ pemEnding @ [lf]"

section \<open>Lines\<close>

definition eols :: "bytes set" where
  "eols = {[lf], [cr, lf]}"

definition join_lines :: "bytes \<Rightarrow> bytes list \<Rightarrow> bytes" where
  "join_lines eol ls = concat (map (\<lambda>l. l @ eol) ls)"

definition pem_text :: "bytes \<Rightarrow> bytes \<Rightarrow> bytes list \<Rightarrow> bytes \<Rightarrow> bytes" where
  "pem_text kind eol ls t =
     pemHeader @ kind @ pemEnding @ eol @ join_lines eol ls @ pemFooter @ kind @ pemEnding @ t"

lemma join_lines_simps [simp]:
  "join_lines eol [] = []"
  "join_lines eol (l # ls) = l @ eol @ join_lines eol ls"
  "join_lines eol (ls @ ls') = join_lines eol ls @ join_lines eol ls'"
  by (simp_all add: join_lines_def)

lemma eols_nonempty: "eol \<in> eols \<Longrightarrow> eol \<noteq> []"
  by (auto simp: eols_def)

lemma remove_all_line:
  assumes "eol \<in> eols" and "\<not> contains_newline l"
  shows "remove_all (l @ s) eol = l @ remove_all s eol"
  using assms(2)
proof (induction l)
  case (Cons c l)
  then have c: "c \<noteq> cr" "c \<noteq> lf" and l: "\<not> contains_newline l" by (auto simp: contains_newline_def)
  then have "\<not> has_prefix (c # l @ s) eol" using assms(1) by (auto simp: eols_def has_prefix_iff)
  then show ?case using Cons.IH [OF l] by (subst remove_all.simps) simp
qed simp

lemma remove_all_eol: "eol \<noteq> [] \<Longrightarrow> remove_all (eol @ s) eol = remove_all s eol"
proof -
  assume "eol \<noteq> []"
  then obtain c cs where e: "eol = c # cs" by (cases eol) auto
  have "has_prefix (c # cs @ s) (c # cs)" using has_prefix_append [of "c # cs" s] by simp
  then show ?thesis by (subst remove_all.simps) (simp add: e)
qed

lemma remove_all_join:
  assumes "eol \<in> eols" and "\<forall>l \<in> set (ls @ [l]). \<not> contains_newline l"
  shows "remove_all (join_lines eol ls @ l) eol = concat ls @ l"
  using assms(2)
proof (induction ls)
  case Nil
  have "remove_all [] eol = []" by (subst remove_all.simps) simp
  then show ?case using remove_all_line [OF assms(1), of l "[]"] Nil by simp
next
  case (Cons k ls)
  then show ?case
    by (simp add: remove_all_line [OF assms(1)] remove_all_eol [OF eols_nonempty [OF assms(1)]])
qed

lemma remove_all_split: "\<exists>ls l. s = join_lines p ls @ l \<and> remove_all s p = concat ls @ l"
proof (induction s p rule: remove_all.induct)
  case (1 s p)
  show ?case
  proof (cases s)
    case Nil
    then show ?thesis by (subst remove_all.simps) (auto intro: exI [of _ "[]"])
  next
    case (Cons c s')
    show ?thesis
    proof (cases "p \<noteq> [] \<and> has_prefix s p")
      case True
      then obtain t where t: "s = p @ t" by (auto simp: has_prefix_iff)
      from "1.IH"(1) [OF Cons] True Cons obtain ls l
        where "drop (length p) s = join_lines p ls @ l" "remove_all (drop (length p) s) p = concat ls @ l" by auto
      then have "s = join_lines p ([] # ls) @ l" "remove_all s p = concat ([] # ls) @ l"
        using True t remove_all_eol [of p t] by simp_all
      then show ?thesis by blast
    next
      case False
      from "1.IH"(2) [OF Cons] False Cons obtain ls l
        where ls: "s' = join_lines p ls @ l" "remove_all s' p = concat ls @ l" by auto
      have r: "remove_all s p = c # remove_all s' p" using False Cons by (subst remove_all.simps) auto
      show ?thesis
      proof (cases ls)
        case Nil
        then show ?thesis using ls r Cons by (intro exI [of _ "[]"] exI [of _ "c # l"]) simp
      next
        case (Cons k ks)
        then show ?thesis using ls r \<open>s = c # s'\<close> by (intro exI [of _ "(c # k) # ks"] exI [of _ l]) simp
      qed
    qed
  qed
qed


lemma line_clean: "concat ls = b64_encode blob \<Longrightarrow> l \<in> set ls \<Longrightarrow> \<not> contains_newline l"
proof -
  assume "concat ls = b64_encode blob" "l \<in> set ls"
  then have "set l \<subseteq> set (b64_encode blob)" by (metis UN_upper set_concat)
  then show ?thesis using contains_newline_encode [of blob] by (auto simp: contains_newline_def)
qed

lemma decode_body_iff:
  assumes e: "eol \<in> eols"
  shows "decode_body eol body = Inr blob \<longleftrightarrow>
    (\<exists>ls. ls \<noteq> [] \<and> body = join_lines eol ls \<and> concat ls = b64_encode blob)"
proof
  assume a: "decode_body eol body = Inr blob"
  then obtain t where t: "body = t @ eol" by (auto simp: decode_body_def has_suffix_iff split: if_splits)
  let ?r = "remove_all t eol"
  from a t have r: "?r = b64_encode blob"
    by (auto simp: decode_body_def Let_def b64_decode_clean b64_groups_iff split: if_splits option.splits)
  from remove_all_split [of t eol] obtain ls l where "t = join_lines eol ls @ l" "?r = concat ls @ l" by blast
  then have "body = join_lines eol (ls @ [l])" "concat (ls @ [l]) = b64_encode blob" using t r by simp_all
  then show "\<exists>ls. ls \<noteq> [] \<and> body = join_lines eol ls \<and> concat ls = b64_encode blob" by blast
next
  assume "\<exists>ls. ls \<noteq> [] \<and> body = join_lines eol ls \<and> concat ls = b64_encode blob"
  then obtain ls l where body: "body = join_lines eol (ls @ [l])" and c: "concat (ls @ [l]) = b64_encode blob"
    by (metis rev_exhaust)
  have "remove_all (join_lines eol ls @ l) eol = b64_encode blob"
    using remove_all_join [OF e, of ls l] line_clean [OF c] c by simp
  moreover have "body = (join_lines eol ls @ l) @ eol" by (simp add: body)
  ultimately show "decode_body eol body = Inr blob"
    using eols_nonempty [OF e]
    by (simp add: decode_body_def b64_decode_clean b64_groups_encode del: append_assoc)
qed

section \<open>The header line and the footer\<close>

lemma pem_marks:
  "lf \<notin> set pemHeader" "lf \<notin> set pemEnding" "cr \<notin> set pemEnding" "pemEnding = 45 # [45, 45, 45, 45]"
  "length pemHeader = 11" "length pemEnding = 5" "last pemEnding = 45"
  by (simp_all add: pemHeader_def pemEnding_def lf_def cr_def)

text \<open>Between the prefix and the suffix of a header line there is room for the block type.\<close>

lemma header_split:
  assumes "has_prefix h pemHeader" and "has_suffix h pemEnding"
  shows "\<exists>k. h = pemHeader @ k @ pemEnding"
proof -
  from assms(1) obtain t where t: "h = pemHeader @ t" by (auto simp: has_prefix_iff)
  from assms(2) obtain u where u: "h = u @ pemEnding" by (auto simp: has_suffix_iff)
  have "length pemHeader \<le> length u"
  proof (rule ccontr)
    assume "\<not> length pemHeader \<le> length u"
    then have n: "10 - length u < 5" "length u \<le> 10" using arg_cong [OF t, of length] arg_cong [OF u, of length]
      by (simp_all add: pem_marks) 
    have "h ! 10 = 32" by (simp add: t pemHeader_def nth_append)
    moreover have "h ! 10 = pemEnding ! (10 - length u)" using n by (simp add: u nth_append)
    moreover have "pemEnding ! i = 45" if "i < 5" for i
      using that by (auto simp: pemEnding_def nth_Cons less_Suc_eq numeral_eq_Suc split: nat.splits)
    ultimately show False using n by simp
  qed
  then obtain k where "u = pemHeader @ k" using t u by (metis append_eq_append_conv_if append_take_drop_id)
  then show ?thesis using u by auto
qed

lemma index_of_lf: "lf \<notin> set u \<Longrightarrow> index_of (u @ lf # s) [lf] = Some (length u)"
  using index_of_skip [of lf u "[]" s] by simp

lemma index_of_lf_Some:
  assumes "index_of data [lf] = Some i"
  shows "\<exists>u s. data = u @ lf # s \<and> length u = i \<and> lf \<notin> set u"
proof -
  from index_of_Some [OF assms] obtain t where t: "data = take i data @ [lf] @ t" and i: "i + 1 \<le> length data" by auto
  have "lf \<notin> set (take i data)"
  proof
    assume "lf \<in> set (take i data)"
    then obtain a b where ab: "take i data = a @ lf # b" "lf \<notin> set a" by (meson split_list_first)
    then have "data = a @ lf # (b @ lf # t)" using t by simp
    with index_of_lf [OF ab(2)] assms have "length a = i" by (metis option.inject)
    moreover have "length (take i data) = i" using i by simp
    ultimately show False using ab(1) by simp
  qed
  with t i show ?thesis by (intro exI [of _ "take i data"] exI [of _ t]) auto
qed

lemma join_no_dash:
  assumes "eol \<in> eols" and "concat ls = b64_encode blob"
  shows "45 \<notin> set (join_lines eol ls)"
proof -
  have "set (join_lines eol ls) \<subseteq> set (concat ls) \<union> set eol" by (auto simp: join_lines_def)
  moreover have "45 \<notin> set eol" using assms(1) by (auto simp: eols_def cr_def lf_def)
  moreover have "45 \<notin> set (concat ls)"
    unfolding assms(2) using b64_encode_alphabet [of 45 blob] b64_alphabet_newline [of 45] by blast
  ultimately show ?thesis by blast
qed

lemma footer_dash: "pemFooter @ k = 45 # (tl pemFooter @ k)"
  by (simp add: pemFooter_def)

lemma decode_block_iff:
  assumes e: "eol \<in> eols" and h: "length hdr = n + 1"
  shows "decode_block (hdr @ s) n eol k = Inr (kind, blob) \<longleftrightarrow>
    kind = k \<and> (\<exists>ls t. ls \<noteq> [] \<and> concat ls = b64_encode blob \<and> (t = [] \<or> t = eol) \<and>
      s = join_lines eol ls @ pemFooter @ k @ pemEnding @ t)"
proof
  let ?f = "pemFooter @ k @ pemEnding"
  assume a: "decode_block (hdr @ s) n eol k = Inr (kind, blob)"
  have d: "drop (n + 1) (hdr @ s) = s" using h by simp
  from a obtain i where i: "index_of s ?f = Some i" unfolding decode_block_def d Let_def by (auto split: option.splits)
  from index_of_Some [OF i] obtain t where t: "s = take i s @ ?f @ t" and il: "i + length ?f \<le> length s" by auto
  have dr: "drop (n + 1 + i + length ?f) (hdr @ s) = t"
  proof -
    have "drop (n + 1 + i + length ?f) (hdr @ s) = drop (i + length ?f) (take i s @ ?f @ t)"
      using h t by (simp del: append_assoc)
    also have "\<dots> = t" using il by simp
    finally show ?thesis .
  qed
  from a have "kind = k" "t = [] \<or> t = eol" "decode_body eol (take i s) = Inr blob"
    unfolding decode_block_def d Let_def i option.case dr by (auto split: if_splits sum.splits)
  then show "kind = k \<and> (\<exists>ls t. ls \<noteq> [] \<and> concat ls = b64_encode blob \<and> (t = [] \<or> t = eol) \<and>
      s = join_lines eol ls @ pemFooter @ k @ pemEnding @ t)"
    using t unfolding decode_body_iff [OF e] by (metis append_assoc)
next
  let ?f = "pemFooter @ k @ pemEnding"
  assume "kind = k \<and> (\<exists>ls t. ls \<noteq> [] \<and> concat ls = b64_encode blob \<and> (t = [] \<or> t = eol) \<and>
      s = join_lines eol ls @ pemFooter @ k @ pemEnding @ t)"
  then obtain ls t where k: "kind = k" and ls: "ls \<noteq> []" "concat ls = b64_encode blob" and t: "t = [] \<or> t = eol"
    and s: "s = join_lines eol ls @ ?f @ t" by auto
  let ?i = "length (join_lines eol ls)"
  have i: "index_of s ?f = Some ?i"
    using index_of_skip [OF join_no_dash [OF e ls(2)], of "tl pemFooter @ k @ pemEnding" t]
    by (simp add: s footer_dash)
  have b: "decode_body eol (join_lines eol ls) = Inr blob" using ls decode_body_iff [OF e] by blast
  show "decode_block (hdr @ s) n eol k = Inr (kind, blob)"
    using h i b t by (auto simp: decode_block_def Let_def k s)
qed


text \<open>What \<open>Decode\<close> does once the first line \<open>h\<close> and its ending are separated from the rest.\<close>

lemma Decode_line:
  assumes e: "eol \<in> eols" and h: "lf \<notin> set h" and l: "eol = [lf] \<and> h \<noteq> [] \<longrightarrow> last h \<noteq> cr"
    and p: "has_prefix (h @ eol @ s) pemHeader"
  shows "Decode (h @ eol @ s) =
    (if \<not> has_prefix h pemHeader \<or> \<not> has_suffix h pemEnding then Inl MalformedHeader
     else case slice h (length pemHeader) (length h - length pemEnding) of
       None \<Rightarrow> Inl SlicePanic
     | Some k \<Rightarrow> if k = [] then Inl EmptyBlockType
         else decode_block ((h @ eol) @ s) (length h + length eol - 1) eol k)"
proof (cases "eol = [lf]")
  case True
  have i: "index_of (h @ [lf] @ s) [lf] = Some (length h)" using index_of_lf [OF h] by simp
  have c: "\<not> (length h > 0 \<and> (h @ [lf] @ s) ! (length h - 1) = cr)"
    using l True by (auto simp: nth_append last_conv_nth)
  have r: "(h @ [lf]) @ s = h @ [lf] @ s" "length h + length [lf] - 1 = length h" by simp_all
  show ?thesis unfolding True r Decode_def i option.case Let_def if_not_P [OF c] using p
    by (simp add: True)
next
  case False
  then have eol: "eol = [cr, lf]" using e by (simp add: eols_def)
  have "lf \<notin> set (h @ [cr])" using h by (simp add: cr_def lf_def)
  from index_of_lf [OF this, of s] have i: "index_of (h @ eol @ s) [lf] = Some (length h + 1)" by (simp add: eol)
  have c: "length h + 1 > 0 \<and> (h @ [cr, lf] @ s) ! (length h + 1 - 1) = cr" by (simp add: nth_append)
  have i: "index_of (h @ [cr, lf] @ s) [lf] = Some (length h + 1)" using i by (simp add: eol)
  have r: "(h @ [cr, lf]) @ s = h @ [cr, lf] @ s" "length h + length [cr, lf] - 1 = length h + 1" by simp_all
  show ?thesis unfolding eol r Decode_def i option.case Let_def if_P [OF c] using p
    by (simp add: eol)
qed

lemma slice_header: "slice (pemHeader @ k @ pemEnding) (length pemHeader) (length (pemHeader @ k @ pemEnding) - length pemEnding) = Some k"
  by (simp add: slice_def)

lemma first_line:
  assumes "data = u @ lf # s" and "lf \<notin> set u"
  obtains h eol where "eol \<in> eols" and "data = h @ eol @ s" and "lf \<notin> set h"
    and "eol = [lf] \<and> h \<noteq> [] \<longrightarrow> last h \<noteq> cr"
proof (cases "u \<noteq> [] \<and> last u = cr")
  case True
  then have "u = butlast u @ [cr]" by (metis append_butlast_last_id)
  then show ?thesis using assms that [of "[cr, lf]" "butlast u"]
    by (metis (no_types, lifting) append.assoc append_Cons append_Nil eols_def insertCI in_set_butlastD list.inject not_Cons_self2)
next
  case False
  then show ?thesis using assms by (intro that [of "[lf]" u]) (auto simp: eols_def)
qed

lemma Decode_iff:
  "Decode data = Inr (kind, blob) \<longleftrightarrow> kind \<noteq> [] \<and> lf \<notin> set kind \<and>
    (\<exists>eol \<in> eols. \<exists>ls t. ls \<noteq> [] \<and> concat ls = b64_encode blob \<and> (t = [] \<or> t = eol) \<and>
      data = pem_text kind eol ls t)"
proof
  assume a: "Decode data = Inr (kind, blob)"
  then have p: "has_prefix data pemHeader" by (auto simp: Decode_def split: if_splits)
  from a obtain n where "index_of data [lf] = Some n" by (auto simp: Decode_def split: if_splits option.splits)
  from index_of_lf_Some [OF this] obtain u s where us: "data = u @ lf # s" "lf \<notin> set u" by blast
  then obtain h eol where e: "eol \<in> eols" and d: "data = h @ eol @ s" and h: "lf \<notin> set h"
    and l: "eol = [lf] \<and> h \<noteq> [] \<longrightarrow> last h \<noteq> cr"
    by (rule first_line)
  note D = Decode_line [OF e h l p [unfolded d]]
  from a D have "has_prefix h pemHeader" "has_suffix h pemEnding" by (auto simp: d split: if_splits)
  then obtain k where k: "h = pemHeader @ k @ pemEnding" using header_split by blast
  have hdr: "length (h @ eol) = (length h + length eol - 1) + 1" using eols_nonempty [OF e] by (cases eol) auto
  from a D have "k \<noteq> []" and b: "decode_block ((h @ eol) @ s) (length h + length eol - 1) eol k = Inr (kind, blob)"
    using slice_header [of k] \<open>has_prefix h pemHeader\<close> \<open>has_suffix h pemEnding\<close>
    by (auto simp: d k split: if_splits)
  from b [unfolded decode_block_iff [OF e hdr]] have "kind = k" by blast
  from b [unfolded decode_block_iff [OF e hdr]] obtain ls t where "ls \<noteq> []" "concat ls = b64_encode blob"
    "t = [] \<or> t = eol" "s = join_lines eol ls @ pemFooter @ k @ pemEnding @ t" by blast
  moreover have "lf \<notin> set kind" using h by (simp add: k \<open>kind = k\<close>)
  ultimately show "kind \<noteq> [] \<and> lf \<notin> set kind \<and>
    (\<exists>eol \<in> eols. \<exists>ls t. ls \<noteq> [] \<and> concat ls = b64_encode blob \<and> (t = [] \<or> t = eol) \<and>
      data = pem_text kind eol ls t)"
    using \<open>kind = k\<close> \<open>k \<noteq> []\<close> e by (auto simp: d k pem_text_def)
next
  assume "kind \<noteq> [] \<and> lf \<notin> set kind \<and>
    (\<exists>eol \<in> eols. \<exists>ls t. ls \<noteq> [] \<and> concat ls = b64_encode blob \<and> (t = [] \<or> t = eol) \<and>
      data = pem_text kind eol ls t)"
  then obtain eol ls t where k: "kind \<noteq> []" "lf \<notin> set kind" and e: "eol \<in> eols" and ls: "ls \<noteq> []"
    "concat ls = b64_encode blob" "t = [] \<or> t = eol" and d: "data = pem_text kind eol ls t" by blast
  let ?h = "pemHeader @ kind @ pemEnding"
  let ?s = "join_lines eol ls @ pemFooter @ kind @ pemEnding @ t"
  have h: "lf \<notin> set ?h" using k by (auto simp: pem_marks(1,2))
  have l: "eol = [lf] \<and> ?h \<noteq> [] \<longrightarrow> last ?h \<noteq> cr" by (simp add: pemEnding_def cr_def)
  have hdr: "length (?h @ eol) = (length ?h + length eol - 1) + 1" using eols_nonempty [OF e] by (cases eol) auto
  have p: "has_prefix (?h @ eol @ ?s) pemHeader" by (simp add: has_prefix_iff)
  have b: "decode_block ((?h @ eol) @ ?s) (length ?h + length eol - 1) eol kind = Inr (kind, blob)"
    unfolding decode_block_iff [OF e hdr] using ls by blast
  have q: "has_prefix ?h pemHeader" "has_suffix ?h pemEnding"
    by (simp add: has_prefix_iff, metis append.assoc has_suffix_append)
  show "Decode data = Inr (kind, blob)"
    using Decode_line [OF e h l p] b k slice_header [of kind] q by (simp add: d pem_text_def)
qed

lemma Decode_no_panic: "Decode data \<noteq> Inl SlicePanic"
proof
  assume a: "Decode data = Inl SlicePanic"
  then have p: "has_prefix data pemHeader" by (auto simp: Decode_def split: if_splits)
  from a obtain n where "index_of data [lf] = Some n" by (auto simp: Decode_def split: if_splits option.splits)
  from index_of_lf_Some [OF this] obtain u s where us: "data = u @ lf # s" "lf \<notin> set u" by blast
  then obtain h eol where e: "eol \<in> eols" and d: "data = h @ eol @ s" and h: "lf \<notin> set h"
    and l: "eol = [lf] \<and> h \<noteq> [] \<longrightarrow> last h \<noteq> cr"
    by (rule first_line)
  note D = Decode_line [OF e h l p [unfolded d]]
  have block: "decode_block x i eol k \<noteq> Inl SlicePanic" for x i k
    by (auto simp: decode_block_def decode_body_def Let_def split: option.splits sum.splits if_splits)
  from a D have "has_prefix h pemHeader" "has_suffix h pemEnding" by (auto simp: d split: if_splits)
  then obtain k where k: "h = pemHeader @ k @ pemEnding" using header_split by blast
  show False
    using a D block slice_header [of k] \<open>has_prefix h pemHeader\<close> \<open>has_suffix h pemEnding\<close>
    by (auto simp: d k split: if_splits)
qed

section \<open>Encoding\<close>

lemma concat_lines64: "concat (lines64 b) = b"
  by (induction b rule: lines64.induct) (subst lines64.simps, simp)

lemma lines64_nonempty: "lines64 b = [] \<longleftrightarrow> b = []"
  by (subst lines64.simps) simp

lemma lines64_width: "l \<in> set (lines64 b) \<Longrightarrow> 0 < length l \<and> length l \<le> 64"
  by (induction b rule: lines64.induct) (subst (asm) lines64.simps, auto split: if_splits)

lemma Encode_pem_text: "Encode kind blob = pem_text kind [lf] (lines64 (b64_encode blob)) [lf]"
  by (simp add: Encode_def pem_text_def join_lines_def)

lemma b64_encode_Nil: "b64_encode bs = [] \<longleftrightarrow> bs = []"
  by (cases bs rule: b64_encode.cases) auto

lemma Decode_Encode_block:
  assumes "kind \<noteq> []" and "lf \<notin> set kind" and "blob \<noteq> []"
  shows "Decode (Encode kind blob) = Inr (kind, blob)"
  unfolding Decode_iff Encode_pem_text
  using assms
  by (intro conjI bexI [of _ "[lf]"] exI [of _ "lines64 (b64_encode blob)"] exI [of _ "[lf]"])
    (simp_all add: eols_def lines64_nonempty b64_encode_Nil concat_lines64)

section \<open>Properties\<close>

text \<open>C8: \<open>Decode\<close> accepts exactly one grammar, and never slices out of range. It returns
  \<open>kind\<close> and \<open>blob\<close> if and only if the input is a header line for a non-empty \<open>kind\<close>, at
  least one body line, and the matching footer, all lines ended by the same \<^verbatim>\<open>\n\<close> or \<^verbatim>\<open>\r\n\<close>
  (optional after the footer), with nothing before or after, where the body lines concatenate
  to exactly the strict base64 of \<open>blob\<close>.\<close>

theorem Decode_grammar:
  "(Decode data = Inr (kind, blob) \<longleftrightarrow> kind \<noteq> [] \<and> lf \<notin> set kind \<and>
      (\<exists>eol \<in> eols. \<exists>ls t. ls \<noteq> [] \<and> concat ls = b64_encode blob \<and> (t = [] \<or> t = eol) \<and>
        data = pem_text kind eol ls t)) \<and>
   Decode data \<noteq> Inl SlicePanic"
  using Decode_iff Decode_no_panic by blast

text \<open>What \<open>Encode\<close> writes is read back, except for an empty blob. For a non-empty block type
  without a line feed, \<open>Decode\<close> of \<open>Encode kind blob\<close> gives \<open>kind\<close> and \<open>blob\<close>, unless the blob
  is empty: then the encoder writes no body line and the decoder rejects its output. No line is
  longer than 64 characters.\<close>

theorem Decode_Encode:
  assumes "kind \<noteq> []" and "lf \<notin> set kind"
  shows "Decode (Encode kind blob) = (if blob = [] then Inl EmptyBody else Inr (kind, blob)) \<and>
    (\<forall>l \<in> set (lines64 (b64_encode blob)). length l \<le> 64)"
proof (cases "blob = []")
  case False
  then show ?thesis using Decode_Encode_block [OF assms] lines64_width by auto
next
  case True
  let ?h = "pemHeader @ kind @ pemEnding" and ?f = "pemFooter @ kind @ pemEnding"
  have e: "[lf] \<in> eols" by (simp add: eols_def)
  have h: "lf \<notin> set ?h" using assms by (auto simp: pem_marks(1,2))
  have l: "[lf] = [lf] \<and> ?h \<noteq> [] \<longrightarrow> last ?h \<noteq> cr" by (simp add: pemEnding_def cr_def)
  have p: "has_prefix (?h @ [lf] @ ?f @ [lf]) pemHeader" by (simp add: has_prefix_iff)
  have q: "has_prefix ?h pemHeader" "has_suffix ?h pemEnding"
    by (simp add: has_prefix_iff, metis append.assoc has_suffix_append)
  have "index_of (?f @ [lf]) ?f = Some 0"
    using index_of_skip [of 45 "[]" "tl pemFooter @ kind @ pemEnding" "[lf]"] by (simp add: footer_dash)
  then have "decode_block ((?h @ [lf]) @ ?f @ [lf]) (length ?h + length [lf] - 1) [lf] kind = Inl EmptyBody"
    by (simp add: decode_block_def decode_body_def Let_def)
  then have "Decode (?h @ [lf] @ ?f @ [lf]) = Inl EmptyBody"
    using Decode_line [OF e h l p] q slice_header [of kind] assms by simp
  then show ?thesis using True by (simp add: Encode_def lines64.simps)
qed

lemma Decode_Encode_witness:
  "Decode (Encode [75, 69, 89] [1, 2, 3]) = Inr ([75, 69, 89], [1, 2, 3]) \<and>
    Decode (Encode [75, 69, 89] []) = Inl EmptyBody"
  using Decode_Encode [of "[75, 69, 89]" "[1, 2, 3]"] Decode_Encode [of "[75, 69, 89]" "[]"]
  by (simp add: lf_def)

end
