(* ===== verification/Keys.thy ===== *)
theory Keys
  imports Asn1 Pem Cbor_Codec
begin

text \<open>
  What the key packages \<^verbatim>\<open>src/eddsa\<close>, \<^verbatim>\<open>src/mldsa\<close>, \<^verbatim>\<open>src/xdsa\<close> and \<^verbatim>\<open>src/xhpke\<close> share: their
  primitives, which belong to the standard library or to third-party modules and are parameters
  here, the errors, and the text form. A Go array \<^verbatim>\<open>[n]byte\<close> is a list of length \<open>n\<close>; a function
  that returns no error but panics on one gives an \<open>option\<close>.
\<close>

section \<open>Primitives\<close>

text \<open>
  Private keys are determined by their seeds and public keys by their encodings. A sender of
  \<^verbatim>\<open>hpke.NewSender\<close> draws randomness \<open>'r\<close>, gives an encapsulated key and a sealing function of
  additional data and plaintext; the recipient an opening function.
\<close>

record 'r primitives =
  ed_public :: "bytes \<Rightarrow> bytes" \<comment> \<open>\<^verbatim>\<open>ed25519.NewKeyFromSeed(seed).Public()\<close>\<close>
  ed_sign :: "bytes \<Rightarrow> bytes \<Rightarrow> bytes" \<comment> \<open>seed, message\<close>
  ed_verify :: "bytes \<Rightarrow> bytes \<Rightarrow> bytes \<Rightarrow> bool" \<comment> \<open>key, message, signature\<close>
  ed_point :: "bytes \<Rightarrow> bool" \<comment> \<open>\<^verbatim>\<open>edwards25519.Point.SetBytes\<close> accepts\<close>
  ml_public :: "bytes \<Rightarrow> bytes"
  ml_expanded :: "bytes \<Rightarrow> bytes"
  ml_sign :: "bytes \<Rightarrow> bytes \<Rightarrow> bytes \<Rightarrow> bytes option" \<comment> \<open>seed, message, context; \<open>None\<close> is an error\<close>
  ml_verify :: "bytes \<Rightarrow> bytes \<Rightarrow> bytes \<Rightarrow> bytes \<Rightarrow> bool" \<comment> \<open>key, message, context, signature\<close>
  sha256 :: "bytes \<Rightarrow> bytes"
  sha512 :: "bytes \<Rightarrow> bytes"
  hp_public :: "bytes \<Rightarrow> bytes"
  hp_point :: "bytes \<Rightarrow> bool" \<comment> \<open>\<^verbatim>\<open>NewPublicKey\<close> accepts\<close>
  hp_sender :: "bytes \<Rightarrow> bytes \<Rightarrow> 'r \<Rightarrow> (bytes \<times> (bytes \<Rightarrow> bytes \<Rightarrow> bytes option)) option" \<comment> \<open>key, info\<close>
  hp_recipient :: "bytes \<Rightarrow> bytes \<Rightarrow> bytes \<Rightarrow> (bytes \<Rightarrow> bytes \<Rightarrow> bytes option) option" \<comment> \<open>encapsulated key, seed, info\<close>

datatype key_error =
    AsnError asn1_error
  | PemError pem_error
  | Base64Error base64_error
  | CborError cbor_error
  | UnsupportedVersion
  | WrongAlgorithm
  | InvalidEncoding
  | InvalidLength
  | NotByteAligned
  | KeyMismatch
  | InvalidPEMType
  | InvalidPublicKey
  | VerificationFailed
  | HpkeError
  | SignerError nat \<comment> \<open>an error of a remote signer\<close>
  | ParserError \<comment> \<open>an error of a parser of \<^verbatim>\<open>crypto/x509\<close>\<close>
  | EncoderError
  | NotRSAKey
  | WrongModulusSize
  | EvenModulus
  | WrongExponent
  | ValidationFailed
  | NonCanonicalDER

section \<open>Shared helpers\<close>

definition ascii :: "string \<Rightarrow> bytes" where
  "ascii s = map of_char s"

text \<open>\<^verbatim>\<open>var out [n]byte; copy(out[:], bs)\<close>\<close>

definition fixed :: "nat \<Rightarrow> bytes \<Rightarrow> bytes" where
  "fixed n bs = take n bs @ replicate (n - length bs) 0"

text \<open>The \<^verbatim>\<open>Must\<close> variants: a panic is \<open>None\<close>.\<close>

definition must :: "'e + 'a \<Rightarrow> 'a option" where
  "must r = (case r of Inl e \<Rightarrow> None | Inr x \<Rightarrow> Some x)"

text \<open>\<^verbatim>\<open>pem.Decode\<close>, the check of the block type, and the DER parser behind it.\<close>

definition parse_pem :: "string \<Rightarrow> (bytes \<Rightarrow> key_error + 'a) \<Rightarrow> bytes \<Rightarrow> key_error + 'a" where
  "parse_pem kind0 parse s =
     (case Decode s of
        Inl e \<Rightarrow> Inl (PemError e)
      | Inr (kind, blob) \<Rightarrow> if kind \<noteq> ascii kind0 then Inl InvalidPEMType else parse blob)"

text \<open>\<^verbatim>\<open>UnmarshalText\<close> of a byte array of length \<open>n\<close>.\<close>

definition text_array :: "nat \<Rightarrow> bytes \<Rightarrow> key_error + bytes" where
  "text_array n text =
     (case DecodeString text of
        Inl e \<Rightarrow> Inl (Base64Error e)
      | Inr raw \<Rightarrow> if length raw \<noteq> n then Inl InvalidLength else Inr raw)"

lemma fixed_id [simp]: "length bs = n \<Longrightarrow> fixed n bs = bs"
  by (simp add: fixed_def)

lemma length_fixed [simp]: "length (fixed n bs) = n"
  by (simp add: fixed_def)

lemma text_array_iff: "text_array n text = Inr raw \<longleftrightarrow> length raw = n \<and> text = b64_encode raw"
proof (cases "DecodeString text")
  case (Inl e)
  have "text \<noteq> b64_encode raw" using Inl base64.dec_iff [of "text" raw] by auto
  then show ?thesis by (simp add: text_array_def Inl)
next
  case (Inr x)
  then have "text = b64_encode x" using base64.dec_iff by blast
  then have "text = b64_encode raw \<longleftrightarrow> x = raw" using base64.enc_inject [of x raw] by simp
  then show ?thesis by (auto simp: text_array_def Inr)
qed

interpretation text_array: strict_codec b64_encode "text_array n" "\<lambda>raw. length raw = n" for n
  by unfold_locales (simp_all add: text_array_iff)

text \<open>Errors of a \<^verbatim>\<open>ParsePublicKey\<close> inside an \<^verbatim>\<open>UnmarshalCBOR\<close> method are values of their own.\<close>

definition cbor_lift :: "key_error + 'a \<Rightarrow> (decoder, cbor_error, 'a) op" where
  "cbor_lift r = (case r of Inl e \<Rightarrow> fail (ErrCustom 0) | Inr x \<Rightarrow> ret x)"

section \<open>What the primitives promise\<close>

text \<open>
  Sizes, correctness of signatures and of HPKE, and that the encodings of generated public keys
  are accepted. None of it says anything about forgeries.
\<close>

definition primitives_ok :: "'r primitives \<Rightarrow> bool" where
  "primitives_ok P \<longleftrightarrow>
     (\<forall>s. length (ed_public P s) = 32 \<and> ed_point P (ed_public P s)) \<and>
     (\<forall>s m. length (ed_sign P s m) = 64 \<and> ed_verify P (ed_public P s) m (ed_sign P s m)) \<and>
     (\<forall>k. ed_point P k \<longrightarrow> length k = 32) \<and>
     (\<forall>s. length (ml_public P s) = 1952) \<and> (\<forall>s. length (ml_expanded P s) = 4032) \<and>
     (\<forall>s m c. if length c \<le> 255
        then \<exists>sig. ml_sign P s m c = Some sig \<and> length sig = 3309 \<and> ml_verify P (ml_public P s) m c sig
        else ml_sign P s m c = None) \<and>
     (\<forall>k m c sig. ml_verify P k m c sig \<longrightarrow> length c \<le> 255) \<and>
     (\<forall>m. length (sha256 P m) = 32) \<and> (\<forall>m. length (sha512 P m) = 64) \<and>
     (\<forall>s. length (hp_public P s) = 1216 \<and> hp_point P (hp_public P s)) \<and>
     (\<forall>s i r. \<exists>ek seal op. hp_sender P (hp_public P s) i r = Some (ek, seal) \<and> length ek = 1120 \<and>
        hp_recipient P ek s i = Some op \<and> (\<forall>aad m. \<exists>c. seal aad m = Some c \<and> length c = length m + 16 \<and> op aad c = Some m))"

text \<open>Primitives without any security that keep these promises, for the witnesses.\<close>

definition sample_primitives :: "bytes primitives" where
  "sample_primitives = \<lparr>
     ed_public = fixed 32,
     ed_sign = (\<lambda>s m. fixed 64 (fixed 32 s @ m)),
     ed_verify = (\<lambda>k m sig. sig = fixed 64 (k @ m)),
     ed_point = (\<lambda>k. length k = 32),
     ml_public = fixed 1952,
     ml_expanded = fixed 4032,
     ml_sign = (\<lambda>s m c. if length c \<le> 255 then Some (fixed 3309 (fixed 1952 s @ c @ m)) else None),
     ml_verify = (\<lambda>k m c sig. length c \<le> 255 \<and> sig = fixed 3309 (k @ c @ m)),
     sha256 = fixed 32,
     sha512 = fixed 64,
     hp_public = fixed 1216,
     hp_point = (\<lambda>k. length k = 1216),
     hp_sender = (\<lambda>k i r. Some (fixed 1120 r, \<lambda>aad m. Some (m @ replicate 16 0))),
     hp_recipient = (\<lambda>ek s i. Some (\<lambda>aad c.
        if 16 \<le> length c \<and> drop (length c - 16) c = replicate 16 0 then Some (take (length c - 16) c) else None))\<rparr>"

lemma sample_primitives_ok: "primitives_ok sample_primitives"
  by (simp add: primitives_ok_def sample_primitives_def)

lemma primitives_okD:
  assumes "primitives_ok P"
  shows "length (ed_public P s) = 32" "ed_point P (ed_public P s)" "length (ed_sign P s m) = 64"
    "ed_verify P (ed_public P s) m (ed_sign P s m)" "ed_point P k \<Longrightarrow> length k = 32"
    "length (ml_public P s) = 1952" "length (ml_expanded P s) = 4032" "length (sha256 P m) = 32" "length (sha512 P m) = 64"
    "length (hp_public P s) = 1216" "hp_point P (hp_public P s)"
  using assms by (simp_all add: primitives_ok_def)

lemma ml_sign_ok:
  assumes "primitives_ok P" and "length c \<le> 255"
  obtains sig where "ml_sign P s m c = Some sig" "length sig = 3309" "ml_verify P (ml_public P s) m c sig"
  using assms unfolding primitives_ok_def by metis

lemma ml_sign_long: "primitives_ok P \<Longrightarrow> 255 < length c \<Longrightarrow> ml_sign P s m c = None \<and> \<not> ml_verify P k m c sig"
  unfolding primitives_ok_def by (metis not_le)

lemma hp_seal_ok:
  assumes "primitives_ok P"
  obtains ek seal op where "hp_sender P (hp_public P s) i r = Some (ek, seal)" "length ek = 1120"
    "hp_recipient P ek s i = Some op" "\<And>aad m. \<exists>c. seal aad m = Some c \<and> length c = length m + 16 \<and> op aad c = Some m"
proof -
  from assms have "\<exists>ek seal op. hp_sender P (hp_public P s) i r = Some (ek, seal) \<and> length ek = 1120 \<and>
      hp_recipient P ek s i = Some op \<and> (\<forall>aad m. \<exists>c. seal aad m = Some c \<and> length c = length m + 16 \<and> op aad c = Some m)"
    by (simp add: primitives_ok_def)
  then show thesis using that by blast
qed

text \<open>Points have 32 bytes; without \<open>primitives_ok\<close>, the interface below needs it spelled out.\<close>

definition strict_points :: "'r primitives \<Rightarrow> 'r primitives" where
  "strict_points P = P\<lparr>ed_point := (\<lambda>b. length b = 32 \<and> ed_point P b)\<rparr>"

lemma strict_points_id: "primitives_ok P \<Longrightarrow> strict_points P = P"
proof -
  assume "primitives_ok P"
  then have "(\<lambda>b. length b = 32 \<and> ed_point P b) = ed_point P" using primitives_okD(5) by auto
  then show ?thesis by (simp add: strict_points_def)
qed

lemma parse_pem_iff:
  "parse_pem kind parse s = Inr k \<longleftrightarrow> (\<exists>blob. Decode s = Inr (ascii kind, blob) \<and> parse blob = Inr k)"
  by (auto simp: parse_pem_def split: sum.splits if_splits)

section \<open>Interfaces of the key types\<close>

text \<open>
  A public key with a fixed-size encoding. The text form and the methods for CBOR of every such key
  are strict codecs.
\<close>

locale raw_key =
  fixes raw :: "'k \<Rightarrow> bytes"
    and parse :: "bytes \<Rightarrow> key_error + 'k"
    and ok :: "'k \<Rightarrow> bool"
    and n :: nat
  assumes parse_iff: "length b = n \<Longrightarrow> parse b = Inr k \<longleftrightarrow> ok k \<and> b = raw k"
    and length_raw: "length (raw k) = n"
    and go_raw: "n \<le> max_int"
begin

lemma parse_raw: "ok k \<Longrightarrow> parse (raw k) = Inr k"
  by (simp add: parse_iff length_raw)

lemma text_form:
  "(case text_array n text of Inl e \<Rightarrow> Inl e | Inr b \<Rightarrow> parse b) = Inr k \<longleftrightarrow> ok k \<and> text = b64_encode (raw k)"
proof (cases "text_array n text")
  case (Inl e)
  have "text_array n (b64_encode (raw k)) = Inr (raw k)" by (rule text_array.dec_enc) (rule length_raw)
  then show ?thesis using Inl by auto
next
  case (Inr b)
  then have b: "length b = n" "text = b64_encode b" using text_array_iff by auto
  have "text = b64_encode (raw k) \<longleftrightarrow> b = raw k" using b text_array.enc_inject [OF b(1) length_raw] by simp
  then show ?thesis using parse_iff [OF b(1)] by (simp add: Inr)
qed

lemma raw_codec: "wire_codec (\<lambda>k. emit (EncodeBytes (raw k))) (andThen (DecodeBytesFixed (int n)) (\<lambda>b. cbor_lift (parse b)))
    ok (\<lambda>k. wire_bytes (raw k))"
proof (unfold_locales, goal_cases)
  case (1 k e)
  then show ?case using bytes_codec.enc_wire [of "raw k" e] go_raw by (simp add: go_slice_def length_raw)
next
  case (2 k pre s)
  then show ?case using fixed_codec.dec_wire [of "raw k" n pre s] go_raw
    by (simp add: go_slice_def length_raw parse_raw cbor_lift_def)
next
  case (3 pre s k d)
  then obtain b d' where d: "DecodeBytesFixed (int n) (at_pos pre s) = (Inr b, d')" and p: "parse b = Inr k" "d = d'"
    by (elim andThen_InrE) (auto simp: cbor_lift_def split: sum.splits)
  from fixed_codec.dec_only [OF d] p show ?case using parse_iff by fastforce
next
  case (4 k)
  then show ?case using bytes_codec.wire_nonempty [of "raw k"] go_raw by (simp add: go_slice_def length_raw)
qed

lemma cbor_exact:
  "andThen (DecodeBytesFixed (int n)) (\<lambda>b. cbor_lift (parse b)) (at_pos pre s) = (Inr k, at_pos pre' s') \<longleftrightarrow>
     ok k \<and> emit (EncodeBytes (raw k)) \<lparr>buf = pre\<rparr> = (Inr (), \<lparr>buf = pre'\<rparr>) \<and> pre @ s = pre' @ s'"
proof -
  have "go_slice (raw k)" using go_raw by (simp add: go_slice_def length_raw)
  from bytes_codec.enc_wire [OF this] show ?thesis
    by (auto simp: wire_codec.dec_iff [OF raw_codec] at_pos_eq append_buf_def)
qed

end

text \<open>
  Its DER container: \<open>parse_der\<close> reads an X.509 public key with the key's object identifier, of
  the exact number of bits.
\<close>

locale spki_key = raw_key +
  fixes cb :: cryptobyte
    and oid :: oid
    and parse_der :: "bytes \<Rightarrow> key_error + 'a"
    and to_der :: "'a \<Rightarrow> bytes"
  assumes parse_der: "parse_der der = Inr k \<longleftrightarrow> (\<exists>info. ParseSubjectPublicKeyInfo cb der = Inr info \<and>
      sp_algorithm info = oid \<and> length (sp_bytes info) = n \<and> sp_bitlen info = int n * 8 \<and> parse (sp_bytes info) = Inr k)"
    and to_der: "ok k \<Longrightarrow> to_der k = spki_der oid (raw k)"
    and oid_known: "oid \<in> set known_oids"
    and small: "n < 2 ^ 20"
begin

text \<open>What is accepted: the key's container, with anything behind the object identifier.\<close>

lemma der_exact:
  assumes "der_reader cb" and "length der < 2 ^ 31"
  shows "parse_der der = Inr k \<longleftrightarrow> ok k \<and> (\<exists>params. der = spki_with params oid 0 (raw k))"
proof
  assume "parse_der der = Inr k"
  then obtain info where i: "ParseSubjectPublicKeyInfo cb der = Inr info" "sp_algorithm info = oid"
    "length (sp_bytes info) = n" "sp_bitlen info = int n * 8" "parse (sp_bytes info) = Inr k"
    using parse_der by blast
  from ParseSPKI_only [OF assms(1) i(1)] obtain params pad
    where der: "der = spki_with params oid pad (sp_bytes info)"
      and "sp_bitlen info = 8 * int (length (sp_bytes info)) - int (unat pad)" by (auto simp: i(2))
  then have "int (unat pad) = 0" using i(3,4) by linarith
  then have "pad = 0" by (simp add: unsigned_eq_0_iff)
  then show "ok k \<and> (\<exists>params. der = spki_with params oid 0 (raw k))"
    using der parse_iff [OF i(3), of k] i(5) by auto
next
  assume "ok k \<and> (\<exists>params. der = spki_with params oid 0 (raw k))"
  then obtain params where k: "ok k" and der: "der = spki_with params oid 0 (raw k)" by blast
  from ParseSPKI_parses [OF assms(1) oid_known, of params 0 "raw k"] assms(2)
  show "parse_der der = Inr k" by (auto simp: parse_der der length_raw parse_raw [OF k] mult.commute)
qed

lemma to_der_small: "ok k \<Longrightarrow> length (to_der k) < 2 ^ 31"
proof -
  assume k: "ok k"
  let ?a = "tlv SEQUENCE (oid_der oid)"
  have "list_all (\<lambda>oid. length (tlv SEQUENCE (oid_der oid)) < 100) known_oids"
    by (simp add: known_oids_def oid_der_def length_tlv der_length_def base128_def base128_high.simps)
  then have a: "length ?a < 100" using oid_known by (simp add: list_all_iff)
  let ?b = "tlv BIT_STRING (0 # raw k)"
  have b: "length ?b < 2097152" using length_der_length_le [of "Suc n"] small by (simp add: length_tlv length_raw)
  have "length (?a @ ?b) < 4194304" using a b unfolding length_append by linarith
  then have "length (tlv SEQUENCE (?a @ ?b)) < 2 ^ 31" using length_der_length_le [of "length (?a @ ?b)"] by (simp only: length_tlv) simp
  then show ?thesis by (simp only: to_der [OF k] spki_der_def spki_with_def append_Nil2)
qed

lemma der_round_trip: "der_reader cb \<Longrightarrow> ok k \<Longrightarrow> parse_der (to_der k) = Inr k"
  using der_exact [OF _ to_der_small] to_der by (auto simp: spki_der_def)

lemma pem_round_trip:
  assumes "der_reader cb" and "ok k"
  shows "parse_pem ''PUBLIC KEY'' parse_der (Encode (ascii ''PUBLIC KEY'') (to_der k)) = Inr k"
proof -
  have "to_der k \<noteq> []" by (simp add: to_der [OF assms(2)] spki_der_def spki_with_def tlv_def)
  then have "Decode (Encode (ascii ''PUBLIC KEY'') (to_der k)) = Inr (ascii ''PUBLIC KEY'', to_der k)"
    by (intro Decode_Encode_block) (simp_all add: ascii_def lf_def)
  then show ?thesis using der_round_trip [OF assms] by (simp add: parse_pem_iff)
qed

end

text \<open>
  A private key with its encoding inside a PKCS#8 container. \<open>inner\<close> is what the package puts
  into the OCTET STRING.
\<close>

locale pkcs8_key =
  fixes cb :: cryptobyte
    and oid :: oid
    and inner :: "'k \<Rightarrow> bytes"
    and parse_der :: "bytes \<Rightarrow> key_error + 'k"
    and to_der :: "'k \<Rightarrow> bytes"
    and ok :: "'k \<Rightarrow> bool"
  assumes parse_der: "der_reader cb \<Longrightarrow> ParsePKCS8PrivateKey cb der = Inr info \<Longrightarrow> length der < 2 ^ 31 \<Longrightarrow>
      p8_version info = 0 \<Longrightarrow> parse_der der = Inr k \<longleftrightarrow> ok k \<and> p8_algorithm info = oid \<and> p8_key info = inner k"
    and parse_fails: "ParsePKCS8PrivateKey cb der = Inl e \<Longrightarrow> parse_der der \<noteq> Inr k"
    and to_der: "ok k \<Longrightarrow> to_der k = pkcs8_der oid (inner k)"
    and oid_known: "oid \<in> set known_oids"
    and small: "ok k \<Longrightarrow> length (inner k) < 2 ^ 20"
begin

lemma der_exact:
  assumes "der_reader cb" and "length der < 2 ^ 31"
  shows "parse_der der = Inr k \<longleftrightarrow> ok k \<and> (\<exists>params. der = pkcs8_with params oid (inner k))"
proof (cases "ParsePKCS8PrivateKey cb der")
  case (Inl e)
  have "der \<noteq> pkcs8_with params oid (inner k)" for params
    using ParsePKCS8_parses [OF assms(1) oid_known, of params "inner k"] assms(2) Inl by auto
  then show ?thesis using parse_fails [OF Inl] by blast
next
  case (Inr info)
  from ParsePKCS8_only [OF assms(1) Inr] obtain params where v: "p8_version info = 0"
    and der: "der = pkcs8_with params (p8_algorithm info) (p8_key info)" by blast
  have "p8_algorithm info = oid \<and> p8_key info = inner k" if "der = pkcs8_with params oid (inner k)" for params
    using ParsePKCS8_parses [OF assms(1) oid_known, of params "inner k"] assms(2) that Inr by auto
  then have "(\<exists>params. der = pkcs8_with params oid (inner k)) \<longleftrightarrow> p8_algorithm info = oid \<and> p8_key info = inner k"
    using der by metis
  then show ?thesis by (simp only: parse_der [OF assms(1) Inr assms(2) v])
qed

lemma to_der_small: "ok k \<Longrightarrow> length (to_der k) < 2 ^ 31"
proof -
  assume k: "ok k"
  let ?a = "tlv INTEGER [0] @ tlv SEQUENCE (oid_der oid)" and ?b = "tlv OCTET_STRING (inner k)"
  have "list_all (\<lambda>oid. length (tlv INTEGER [0] @ tlv SEQUENCE (oid_der oid)) < 100) known_oids"
    by (simp add: known_oids_def oid_der_def length_tlv der_length_def base128_def base128_high.simps)
  then have a: "length ?a < 100" using oid_known by (simp add: list_all_iff)
  have b: "length ?b < 2097152" using length_der_length_le [of "length (inner k)"] small [OF k] by (simp add: length_tlv)
  have "length (?a @ ?b) < 4194304" using a b unfolding length_append by linarith
  then have "length (tlv SEQUENCE (?a @ ?b)) < 2 ^ 31"
    using length_der_length_le [of "length (?a @ ?b)"] by (simp only: length_tlv) simp
  then show ?thesis by (simp add: to_der [OF k] pkcs8_der_def pkcs8_with_def)
qed

lemma der_round_trip: "der_reader cb \<Longrightarrow> ok k \<Longrightarrow> parse_der (to_der k) = Inr k"
  using der_exact [OF _ to_der_small] to_der by (auto simp: pkcs8_der_def)

lemma pem_round_trip:
  assumes "der_reader cb" and "ok k"
  shows "parse_pem ''PRIVATE KEY'' parse_der (Encode (ascii ''PRIVATE KEY'') (to_der k)) = Inr k"
proof -
  have "to_der k \<noteq> []" by (simp add: to_der [OF assms(2)] pkcs8_der_def pkcs8_with_def tlv_def)
  then have "Decode (Encode (ascii ''PRIVATE KEY'') (to_der k)) = Inr (ascii ''PRIVATE KEY'', to_der k)"
    by (intro Decode_Encode_block) (simp_all add: ascii_def lf_def)
  then show ?thesis using der_round_trip [OF assms] by (simp add: parse_pem_iff)
qed

end

end
