(* ===== verification/Eddsa.thy ===== *)
theory Eddsa
  imports Keys
begin

text \<open>
  Ed25519 keys, \<^verbatim>\<open>src/eddsa/eddsa.go\<close>: every function and method, with the package's name in
  front.
\<close>

definition eddsa_SecretKeySize :: nat where "eddsa_SecretKeySize = 32"
definition eddsa_PublicKeySize :: nat where "eddsa_PublicKeySize = 32"
definition eddsa_SignatureSize :: nat where "eddsa_SignatureSize = 64"
definition eddsa_FingerprintSize :: nat where "eddsa_FingerprintSize = 32"

definition eddsa_OID :: oid where "eddsa_OID = [1, 3, 101, 112]"

named_theorems key_consts "sizes and object identifiers of the key packages"

lemmas eddsa_consts [key_consts] =
  eddsa_SecretKeySize_def eddsa_PublicKeySize_def eddsa_SignatureSize_def eddsa_FingerprintSize_def eddsa_OID_def

section \<open>Secret keys\<close>

record eddsa_secret = es_seed :: bytes
record eddsa_public = ep_key :: bytes

definition eddsa_ParseSecretKey :: "bytes \<Rightarrow> eddsa_secret" where
  "eddsa_ParseSecretKey seed = \<lparr>es_seed = seed\<rparr>"

text \<open>\<open>rnd\<close> is what \<^verbatim>\<open>rand.Read\<close> fills the seed with.\<close>

definition eddsa_GenerateKey :: "bytes option \<Rightarrow> eddsa_secret option" where
  "eddsa_GenerateKey rnd = map_option eddsa_ParseSecretKey rnd"

definition eddsa_ParseSecretKeyDER :: "cryptobyte \<Rightarrow> bytes \<Rightarrow> key_error + eddsa_secret" where
  "eddsa_ParseSecretKeyDER cb der =
     (case ParsePKCS8PrivateKey cb der of
        Inl e \<Rightarrow> Inl (AsnError e)
      | Inr pkcs8 \<Rightarrow>
          if p8_algorithm pkcs8 \<noteq> eddsa_OID then Inl WrongAlgorithm
          else case readASN1 cb OCTET_STRING (p8_key pkcs8) of
            None \<Rightarrow> Inl InvalidEncoding
          | Some (seed, rest) \<Rightarrow>
              if rest \<noteq> [] then Inl InvalidEncoding
              else if length seed \<noteq> eddsa_SecretKeySize then Inl InvalidLength
              else Inr \<lparr>es_seed = seed\<rparr>)"

definition eddsa_MustParseSecretKeyDER :: "cryptobyte \<Rightarrow> bytes \<Rightarrow> eddsa_secret option" where
  "eddsa_MustParseSecretKeyDER cb der = must (eddsa_ParseSecretKeyDER cb der)"

definition eddsa_ParseSecretKeyPEM :: "cryptobyte \<Rightarrow> bytes \<Rightarrow> key_error + eddsa_secret" where
  "eddsa_ParseSecretKeyPEM cb s = parse_pem ''PRIVATE KEY'' (eddsa_ParseSecretKeyDER cb) s"

definition eddsa_MustParseSecretKeyPEM :: "cryptobyte \<Rightarrow> bytes \<Rightarrow> eddsa_secret option" where
  "eddsa_MustParseSecretKeyPEM cb s = must (eddsa_ParseSecretKeyPEM cb s)"

definition eddsa_SecretKey_Marshal :: "eddsa_secret \<Rightarrow> bytes" where
  "eddsa_SecretKey_Marshal k = fixed eddsa_SecretKeySize (es_seed k)"

text \<open>\<^verbatim>\<open>x509.MarshalPKCS8PrivateKey\<close> wraps the seed in an OCTET STRING of its own (RFC 8410).\<close>

definition eddsa_SecretKey_MarshalDER :: "eddsa_secret \<Rightarrow> bytes" where
  "eddsa_SecretKey_MarshalDER k = pkcs8_der eddsa_OID (tlv OCTET_STRING (es_seed k))"

definition eddsa_SecretKey_MarshalPEM :: "eddsa_secret \<Rightarrow> bytes" where
  "eddsa_SecretKey_MarshalPEM k = Encode (ascii ''PRIVATE KEY'') (eddsa_SecretKey_MarshalDER k)"

definition eddsa_SecretKey_PublicKey :: "'r primitives \<Rightarrow> eddsa_secret \<Rightarrow> eddsa_public" where
  "eddsa_SecretKey_PublicKey P k = \<lparr>ep_key = ed_public P (es_seed k)\<rparr>"

definition eddsa_Sign :: "'r primitives \<Rightarrow> eddsa_secret \<Rightarrow> bytes \<Rightarrow> key_error + bytes" where
  "eddsa_Sign P k message = Inr (ed_sign P (es_seed k) message)"

section \<open>Public keys\<close>

definition eddsa_ParsePublicKey :: "'r primitives \<Rightarrow> bytes \<Rightarrow> key_error + eddsa_public" where
  "eddsa_ParsePublicKey P b = (if \<not> ed_point P b then Inl InvalidPublicKey else Inr \<lparr>ep_key = b\<rparr>)"

definition eddsa_MustParsePublicKey :: "'r primitives \<Rightarrow> bytes \<Rightarrow> eddsa_public option" where
  "eddsa_MustParsePublicKey P b = must (eddsa_ParsePublicKey P b)"

definition eddsa_ParsePublicKeyDER :: "'r primitives \<Rightarrow> cryptobyte \<Rightarrow> bytes \<Rightarrow> key_error + eddsa_public" where
  "eddsa_ParsePublicKeyDER P cb der =
     (case ParseSubjectPublicKeyInfo cb der of
        Inl e \<Rightarrow> Inl (AsnError e)
      | Inr spki \<Rightarrow>
          if sp_algorithm spki \<noteq> eddsa_OID then Inl WrongAlgorithm
          else if sp_bitlen spki \<noteq> int eddsa_PublicKeySize * 8 then Inl InvalidLength
          else if \<not> ed_point P (sp_bytes spki) then Inl InvalidPublicKey
          else Inr \<lparr>ep_key = sp_bytes spki\<rparr>)"

definition eddsa_MustParsePublicKeyDER :: "'r primitives \<Rightarrow> cryptobyte \<Rightarrow> bytes \<Rightarrow> eddsa_public option" where
  "eddsa_MustParsePublicKeyDER P cb der = must (eddsa_ParsePublicKeyDER P cb der)"

definition eddsa_ParsePublicKeyPEM :: "'r primitives \<Rightarrow> cryptobyte \<Rightarrow> bytes \<Rightarrow> key_error + eddsa_public" where
  "eddsa_ParsePublicKeyPEM P cb s = parse_pem ''PUBLIC KEY'' (eddsa_ParsePublicKeyDER P cb) s"

definition eddsa_MustParsePublicKeyPEM :: "'r primitives \<Rightarrow> cryptobyte \<Rightarrow> bytes \<Rightarrow> eddsa_public option" where
  "eddsa_MustParsePublicKeyPEM P cb s = must (eddsa_ParsePublicKeyPEM P cb s)"

definition eddsa_PublicKey_Marshal :: "eddsa_public \<Rightarrow> bytes" where
  "eddsa_PublicKey_Marshal k = fixed eddsa_PublicKeySize (ep_key k)"

definition eddsa_PublicKey_MarshalDER :: "eddsa_public \<Rightarrow> bytes" where
  "eddsa_PublicKey_MarshalDER k = spki_der eddsa_OID (ep_key k)"

definition eddsa_PublicKey_MarshalPEM :: "eddsa_public \<Rightarrow> bytes" where
  "eddsa_PublicKey_MarshalPEM k = Encode (ascii ''PUBLIC KEY'') (eddsa_PublicKey_MarshalDER k)"

definition eddsa_PublicKey_MarshalText :: "eddsa_public \<Rightarrow> bytes" where
  "eddsa_PublicKey_MarshalText k = b64_encode (eddsa_PublicKey_Marshal k)"

definition eddsa_PublicKey_UnmarshalText :: "'r primitives \<Rightarrow> bytes \<Rightarrow> key_error + eddsa_public" where
  "eddsa_PublicKey_UnmarshalText P text =
     (case text_array eddsa_PublicKeySize text of Inl e \<Rightarrow> Inl e | Inr raw \<Rightarrow> eddsa_ParsePublicKey P raw)"

definition eddsa_Fingerprint :: "'r primitives \<Rightarrow> eddsa_public \<Rightarrow> bytes" where
  "eddsa_Fingerprint P k = sha256 P (eddsa_PublicKey_Marshal k)"

definition eddsa_SecretKey_Fingerprint :: "'r primitives \<Rightarrow> eddsa_secret \<Rightarrow> bytes" where
  "eddsa_SecretKey_Fingerprint P k = eddsa_Fingerprint P (eddsa_SecretKey_PublicKey P k)"

definition eddsa_MarshalCBOR :: "eddsa_public \<Rightarrow> (encoder, cbor_error, unit) op" where
  "eddsa_MarshalCBOR k = emit (EncodeBytes (eddsa_PublicKey_Marshal k))"

definition eddsa_UnmarshalCBOR :: "'r primitives \<Rightarrow> (decoder, cbor_error, eddsa_public) op" where
  "eddsa_UnmarshalCBOR P = andThen (DecodeBytesFixed (int eddsa_PublicKeySize)) (\<lambda>b. cbor_lift (eddsa_ParsePublicKey P b))"

definition eddsa_Verify :: "'r primitives \<Rightarrow> eddsa_public \<Rightarrow> bytes \<Rightarrow> bytes \<Rightarrow> key_error + unit" where
  "eddsa_Verify P k message sig = (if \<not> ed_verify P (ep_key k) message sig then Inl VerificationFailed else Inr ())"

section \<open>Text forms of signatures and fingerprints\<close>

definition eddsa_Signature_MarshalText :: "bytes \<Rightarrow> bytes" where
  "eddsa_Signature_MarshalText s = b64_encode s"

definition eddsa_Signature_UnmarshalText :: "bytes \<Rightarrow> key_error + bytes" where
  "eddsa_Signature_UnmarshalText text = text_array eddsa_SignatureSize text"

definition eddsa_Fingerprint_MarshalText :: "bytes \<Rightarrow> bytes" where
  "eddsa_Fingerprint_MarshalText f = b64_encode f"

definition eddsa_Fingerprint_UnmarshalText :: "bytes \<Rightarrow> key_error + bytes" where
  "eddsa_Fingerprint_UnmarshalText text = text_array eddsa_FingerprintSize text"

section \<open>Correctness\<close>

text \<open>The keys that Go's array types and the parsers allow.\<close>

definition eddsa_secret_ok :: "eddsa_secret \<Rightarrow> bool" where
  "eddsa_secret_ok k \<longleftrightarrow> length (es_seed k) = 32"

definition eddsa_public_ok :: "'r primitives \<Rightarrow> eddsa_public \<Rightarrow> bool" where
  "eddsa_public_ok P k \<longleftrightarrow> length (ep_key k) = 32 \<and> ed_point P (ep_key k)"

interpretation eddsa_secret: pkcs8_key cb eddsa_OID "\<lambda>k. tlv OCTET_STRING (es_seed k)" "eddsa_ParseSecretKeyDER cb"
  eddsa_SecretKey_MarshalDER eddsa_secret_ok for cb
proof (unfold_locales, goal_cases)
  case (1 der info k)
  have "eddsa_ParseSecretKeyDER cb der = Inr k \<longleftrightarrow>
      length (es_seed k) = 32 \<and> p8_algorithm info = eddsa_OID \<and> readASN1 cb OCTET_STRING (p8_key info) = Some (es_seed k, [])"
    using 1(2) by (cases k) (auto simp: eddsa_ParseSecretKeyDER_def key_consts split: option.splits prod.splits)
  then show ?case using readASN1_whole [OF 1(1), of "es_seed k"] by (auto simp: eddsa_secret_ok_def)
next
  case (5 k)
  then show ?case using length_der_length_le [of 32] by (simp add: eddsa_secret_ok_def length_tlv)
qed (simp_all add: eddsa_ParseSecretKeyDER_def eddsa_SecretKey_MarshalDER_def known_oids_def key_consts)

interpretation eddsa_public: spki_key eddsa_PublicKey_Marshal "eddsa_ParsePublicKey (strict_points P)"
  "eddsa_public_ok P" 32 cb eddsa_OID "eddsa_ParsePublicKeyDER (strict_points P) cb" eddsa_PublicKey_MarshalDER for P cb
proof (unfold_locales, goal_cases)
  case (1 b k)
  then show ?case
    by (cases k) (auto simp: eddsa_ParsePublicKey_def eddsa_PublicKey_Marshal_def eddsa_public_ok_def strict_points_def key_consts)
next
  case (4 der k)
  then show ?case
    by (auto simp: eddsa_ParsePublicKeyDER_def eddsa_ParsePublicKey_def strict_points_def key_consts split: sum.splits)
qed (simp_all add: eddsa_PublicKey_Marshal_def eddsa_PublicKey_MarshalDER_def eddsa_public_ok_def known_oids_def max_int_def key_consts)

lemma eddsa_PublicKey_ok: "primitives_ok P \<Longrightarrow> eddsa_public_ok P (eddsa_SecretKey_PublicKey P k)"
  by (simp add: eddsa_public_ok_def eddsa_SecretKey_PublicKey_def primitives_okD)

end
