(* ===== verification/Mldsa.thy ===== *)
theory Mldsa
  imports Eddsa
begin

text \<open>
  ML-DSA-65 keys, \<^verbatim>\<open>src/mldsa/mldsa.go\<close>. A private key is stored with both its seed and its
  expanded form, and the parser checks that they belong together.
\<close>

definition mldsa_SecretKeySize :: nat where "mldsa_SecretKeySize = 32"
definition mldsa_PublicKeySize :: nat where "mldsa_PublicKeySize = 1952"
definition mldsa_SignatureSize :: nat where "mldsa_SignatureSize = 3309"
definition mldsa_FingerprintSize :: nat where "mldsa_FingerprintSize = 32"

definition mldsa_OID :: oid where "mldsa_OID = [2, 16, 840, 1, 101, 3, 4, 3, 18]"

lemmas mldsa_consts [key_consts] =
  mldsa_SecretKeySize_def mldsa_PublicKeySize_def mldsa_SignatureSize_def mldsa_FingerprintSize_def mldsa_OID_def

section \<open>Secret keys\<close>

record mldsa_secret = ms_seed :: bytes
record mldsa_public = mp_key :: bytes

definition mldsa_ParseSecretKey :: "bytes \<Rightarrow> mldsa_secret" where
  "mldsa_ParseSecretKey seed = \<lparr>ms_seed = seed\<rparr>"

definition mldsa_GenerateKey :: "bytes option \<Rightarrow> mldsa_secret option" where
  "mldsa_GenerateKey rnd = map_option mldsa_ParseSecretKey rnd"

text \<open>The loop over the expanded key compares all its bytes with the parsed ones.\<close>

definition mldsa_ParseSecretKeyDER :: "'r primitives \<Rightarrow> cryptobyte \<Rightarrow> bytes \<Rightarrow> key_error + mldsa_secret" where
  "mldsa_ParseSecretKeyDER P cb der =
     (case ParsePKCS8PrivateKey cb der of
        Inl e \<Rightarrow> Inl (AsnError e)
      | Inr info \<Rightarrow>
          if p8_version info \<noteq> 0 then Inl UnsupportedVersion
          else if p8_algorithm info \<noteq> mldsa_OID then Inl WrongAlgorithm
          else case readASN1 cb SEQUENCE (p8_key info) of
            None \<Rightarrow> Inl InvalidEncoding
          | Some (inner, rest) \<Rightarrow>
              if rest \<noteq> [] then Inl InvalidEncoding
              else case readASN1 cb OCTET_STRING inner of
                None \<Rightarrow> Inl InvalidEncoding
              | Some (seedBytes, inner) \<Rightarrow>
                  if length seedBytes \<noteq> mldsa_SecretKeySize then Inl InvalidLength
                  else case readASN1 cb OCTET_STRING inner of
                    None \<Rightarrow> Inl InvalidEncoding
                  | Some (expandedBytes, inner) \<Rightarrow>
                      if inner \<noteq> [] then Inl InvalidEncoding
                      else if length expandedBytes \<noteq> 4032 then Inl InvalidLength
                      else
                        let expanded = ml_expanded P seedBytes
                        in if \<exists>i < length expanded. expanded ! i \<noteq> expandedBytes ! i then Inl KeyMismatch
                           else Inr \<lparr>ms_seed = seedBytes\<rparr>)"

definition mldsa_MustParseSecretKeyDER :: "'r primitives \<Rightarrow> cryptobyte \<Rightarrow> bytes \<Rightarrow> mldsa_secret option" where
  "mldsa_MustParseSecretKeyDER P cb der = must (mldsa_ParseSecretKeyDER P cb der)"

definition mldsa_ParseSecretKeyPEM :: "'r primitives \<Rightarrow> cryptobyte \<Rightarrow> bytes \<Rightarrow> key_error + mldsa_secret" where
  "mldsa_ParseSecretKeyPEM P cb s = parse_pem ''PRIVATE KEY'' (mldsa_ParseSecretKeyDER P cb) s"

definition mldsa_MustParseSecretKeyPEM :: "'r primitives \<Rightarrow> cryptobyte \<Rightarrow> bytes \<Rightarrow> mldsa_secret option" where
  "mldsa_MustParseSecretKeyPEM P cb s = must (mldsa_ParseSecretKeyPEM P cb s)"

definition mldsa_SecretKey_Marshal :: "mldsa_secret \<Rightarrow> bytes" where
  "mldsa_SecretKey_Marshal k = ms_seed k"

definition mldsa_SecretKey_MarshalDER :: "'r primitives \<Rightarrow> mldsa_secret \<Rightarrow> bytes" where
  "mldsa_SecretKey_MarshalDER P k =
     pkcs8_der mldsa_OID (tlv SEQUENCE (tlv OCTET_STRING (ms_seed k) @ tlv OCTET_STRING (ml_expanded P (ms_seed k))))"

definition mldsa_SecretKey_MarshalPEM :: "'r primitives \<Rightarrow> mldsa_secret \<Rightarrow> bytes" where
  "mldsa_SecretKey_MarshalPEM P k = Encode (ascii ''PRIVATE KEY'') (mldsa_SecretKey_MarshalDER P k)"

definition mldsa_SecretKey_PublicKey :: "'r primitives \<Rightarrow> mldsa_secret \<Rightarrow> mldsa_public" where
  "mldsa_SecretKey_PublicKey P k = \<lparr>mp_key = ml_public P (ms_seed k)\<rparr>"

text \<open>
  The error of \<^verbatim>\<open>SignTo\<close>, for a context of more than 255 bytes, is discarded: the signature stays
  zero.
\<close>

definition mldsa_Sign :: "'r primitives \<Rightarrow> mldsa_secret \<Rightarrow> bytes \<Rightarrow> bytes \<Rightarrow> key_error + bytes" where
  "mldsa_Sign P k message ctx =
     Inr (case ml_sign P (ms_seed k) message ctx of
            None \<Rightarrow> replicate mldsa_SignatureSize 0
          | Some sig \<Rightarrow> sig)"

section \<open>Public keys\<close>

definition mldsa_ParsePublicKey :: "bytes \<Rightarrow> mldsa_public" where
  "mldsa_ParsePublicKey b = \<lparr>mp_key = b\<rparr>"

definition mldsa_ParsePublicKeyDER :: "cryptobyte \<Rightarrow> bytes \<Rightarrow> key_error + mldsa_public" where
  "mldsa_ParsePublicKeyDER cb der =
     (case ParseSubjectPublicKeyInfo cb der of
        Inl e \<Rightarrow> Inl (AsnError e)
      | Inr info \<Rightarrow>
          if sp_algorithm info \<noteq> mldsa_OID then Inl WrongAlgorithm
          else if length (sp_bytes info) \<noteq> mldsa_PublicKeySize then Inl InvalidLength
          else if sp_bitlen info \<noteq> int mldsa_PublicKeySize * 8 then Inl NotByteAligned
          else Inr (mldsa_ParsePublicKey (sp_bytes info)))"

definition mldsa_MustParsePublicKeyDER :: "cryptobyte \<Rightarrow> bytes \<Rightarrow> mldsa_public option" where
  "mldsa_MustParsePublicKeyDER cb der = must (mldsa_ParsePublicKeyDER cb der)"

definition mldsa_ParsePublicKeyPEM :: "cryptobyte \<Rightarrow> bytes \<Rightarrow> key_error + mldsa_public" where
  "mldsa_ParsePublicKeyPEM cb s = parse_pem ''PUBLIC KEY'' (mldsa_ParsePublicKeyDER cb) s"

definition mldsa_MustParsePublicKeyPEM :: "cryptobyte \<Rightarrow> bytes \<Rightarrow> mldsa_public option" where
  "mldsa_MustParsePublicKeyPEM cb s = must (mldsa_ParsePublicKeyPEM cb s)"

definition mldsa_PublicKey_Marshal :: "mldsa_public \<Rightarrow> bytes" where
  "mldsa_PublicKey_Marshal k = fixed mldsa_PublicKeySize (mp_key k)"

definition mldsa_PublicKey_MarshalText :: "mldsa_public \<Rightarrow> bytes" where
  "mldsa_PublicKey_MarshalText k = b64_encode (mldsa_PublicKey_Marshal k)"

definition mldsa_PublicKey_UnmarshalText :: "bytes \<Rightarrow> key_error + mldsa_public" where
  "mldsa_PublicKey_UnmarshalText text =
     (case text_array mldsa_PublicKeySize text of Inl e \<Rightarrow> Inl e | Inr raw \<Rightarrow> Inr (mldsa_ParsePublicKey raw))"

definition mldsa_PublicKey_MarshalDER :: "mldsa_public \<Rightarrow> bytes" where
  "mldsa_PublicKey_MarshalDER k = spki_der mldsa_OID (mldsa_PublicKey_Marshal k)"

definition mldsa_PublicKey_MarshalPEM :: "mldsa_public \<Rightarrow> bytes" where
  "mldsa_PublicKey_MarshalPEM k = Encode (ascii ''PUBLIC KEY'') (mldsa_PublicKey_MarshalDER k)"

definition mldsa_Fingerprint :: "'r primitives \<Rightarrow> mldsa_public \<Rightarrow> bytes" where
  "mldsa_Fingerprint P k = sha256 P (mldsa_PublicKey_Marshal k)"

definition mldsa_SecretKey_Fingerprint :: "'r primitives \<Rightarrow> mldsa_secret \<Rightarrow> bytes" where
  "mldsa_SecretKey_Fingerprint P k = mldsa_Fingerprint P (mldsa_SecretKey_PublicKey P k)"

definition mldsa_MarshalCBOR :: "mldsa_public \<Rightarrow> (encoder, cbor_error, unit) op" where
  "mldsa_MarshalCBOR k = emit (EncodeBytes (mldsa_PublicKey_Marshal k))"

definition mldsa_UnmarshalCBOR :: "(decoder, cbor_error, mldsa_public) op" where
  "mldsa_UnmarshalCBOR = andThen (DecodeBytesFixed (int mldsa_PublicKeySize)) (\<lambda>b. ret (mldsa_ParsePublicKey b))"

definition mldsa_Verify :: "'r primitives \<Rightarrow> mldsa_public \<Rightarrow> bytes \<Rightarrow> bytes \<Rightarrow> bytes \<Rightarrow> key_error + unit" where
  "mldsa_Verify P k message ctx sig =
     (if \<not> ml_verify P (mp_key k) message ctx sig then Inl VerificationFailed else Inr ())"

section \<open>Text forms of signatures and fingerprints\<close>

definition mldsa_Signature_MarshalText :: "bytes \<Rightarrow> bytes" where
  "mldsa_Signature_MarshalText s = b64_encode s"

definition mldsa_Signature_UnmarshalText :: "bytes \<Rightarrow> key_error + bytes" where
  "mldsa_Signature_UnmarshalText text = text_array mldsa_SignatureSize text"

definition mldsa_Fingerprint_MarshalText :: "bytes \<Rightarrow> bytes" where
  "mldsa_Fingerprint_MarshalText f = b64_encode f"

definition mldsa_Fingerprint_UnmarshalText :: "bytes \<Rightarrow> key_error + bytes" where
  "mldsa_Fingerprint_UnmarshalText text = text_array mldsa_FingerprintSize text"

section \<open>Correctness\<close>

definition mldsa_secret_ok :: "mldsa_secret \<Rightarrow> bool" where
  "mldsa_secret_ok k \<longleftrightarrow> length (ms_seed k) = 32"

definition mldsa_public_ok :: "mldsa_public \<Rightarrow> bool" where
  "mldsa_public_ok k \<longleftrightarrow> length (mp_key k) = 1952"

definition mldsa_inner :: "'r primitives \<Rightarrow> mldsa_secret \<Rightarrow> bytes" where
  "mldsa_inner P k = tlv SEQUENCE (tlv OCTET_STRING (ms_seed k) @ tlv OCTET_STRING (ml_expanded P (ms_seed k)))"

text \<open>Expanded keys have 4032 bytes; the interface needs it spelled out, as for points.\<close>

definition strict_expanded :: "'r primitives \<Rightarrow> 'r primitives" where
  "strict_expanded P = P\<lparr>ml_expanded := (\<lambda>s. fixed 4032 (ml_expanded P s))\<rparr>"

lemma strict_expanded_id: "primitives_ok P \<Longrightarrow> strict_expanded P = P"
  by (simp add: strict_expanded_def primitives_okD)

lemma expanded_same:
  "length xs = 4032 \<Longrightarrow> length ys = 4032 \<Longrightarrow> (\<forall>i < 4032. xs ! i = ys ! i) \<longleftrightarrow> ys = xs"
  by (metis nth_equalityI)

lemma mldsa_parse_steps:
  assumes "ParsePKCS8PrivateKey cb der = Inr info" and "p8_version info = 0" and "length (ml_expanded P (ms_seed k)) = 4032"
  shows "mldsa_ParseSecretKeyDER P cb der = Inr k \<longleftrightarrow>
    length (ms_seed k) = 32 \<and> p8_algorithm info = mldsa_OID \<and>
    (\<exists>inner rest. readASN1 cb SEQUENCE (p8_key info) = Some (inner, []) \<and>
       readASN1 cb OCTET_STRING inner = Some (ms_seed k, rest) \<and>
       readASN1 cb OCTET_STRING rest = Some (ml_expanded P (ms_seed k), []))"
  using assms
  by (cases k) (auto simp: mldsa_ParseSecretKeyDER_def key_consts expanded_same Let_def split: option.splits prod.splits)

lemma mldsa_parse_inner:
  assumes "der_reader cb" and "length (ms_seed k) = 32" and "length (ml_expanded P (ms_seed k)) = 4032"
  shows "(\<exists>inner rest. readASN1 cb SEQUENCE s = Some (inner, []) \<and> readASN1 cb OCTET_STRING inner = Some (ms_seed k, rest) \<and>
       readASN1 cb OCTET_STRING rest = Some (ml_expanded P (ms_seed k), [])) \<longleftrightarrow> s = mldsa_inner P k"
    (is "?read \<longleftrightarrow> _")
proof
  assume ?read
  then obtain inner rest where "readASN1 cb SEQUENCE s = Some (inner, [])" "readASN1 cb OCTET_STRING inner = Some (ms_seed k, rest)"
    "readASN1 cb OCTET_STRING rest = Some (ml_expanded P (ms_seed k), [])" by blast
  from this [THEN readASN1_only [OF assms(1)]] show "s = mldsa_inner P k" by (simp add: mldsa_inner_def)
next
  assume s: "s = mldsa_inner P k"
  let ?e = "tlv OCTET_STRING (ml_expanded P (ms_seed k))"
  have "length (tlv OCTET_STRING (ms_seed k) @ ?e) < 2 ^ 31"
    using length_der_length_le [of 32] length_der_length_le [of 4032] by (simp add: length_tlv assms(2,3))
  then show ?read
    using readASN1_tlv_end [OF assms(1)] readASN1_tlv [OF assms(1), of "ms_seed k" OCTET_STRING ?e] assms(2,3)
    by (auto simp: s mldsa_inner_def)
qed

interpretation mldsa_secret: pkcs8_key cb mldsa_OID "mldsa_inner (strict_expanded P)" "mldsa_ParseSecretKeyDER (strict_expanded P) cb"
  "mldsa_SecretKey_MarshalDER (strict_expanded P)" mldsa_secret_ok for P cb
proof (unfold_locales, goal_cases)
  case (1 der info k)
  have e: "length (ml_expanded (strict_expanded P) (ms_seed k)) = 4032" by (simp add: strict_expanded_def)
  show ?case using mldsa_parse_steps [OF 1(2,4) e] mldsa_parse_inner [OF 1(1) _ e] by (auto simp: mldsa_secret_ok_def)
next
  case (5 k)
  then show ?case
    using length_der_length_le [of 32] length_der_length_le [of 4032]
      length_der_length_le [of "4066 + length (der_length 32) + length (der_length 4032)"]
    by (simp add: mldsa_secret_ok_def mldsa_inner_def strict_expanded_def length_tlv add.assoc)
qed (simp_all add: mldsa_ParseSecretKeyDER_def mldsa_SecretKey_MarshalDER_def mldsa_inner_def known_oids_def key_consts)

interpretation mldsa_public: spki_key mldsa_PublicKey_Marshal "\<lambda>b. Inr (mldsa_ParsePublicKey b)"
  mldsa_public_ok 1952 cb mldsa_OID "mldsa_ParsePublicKeyDER cb" mldsa_PublicKey_MarshalDER for cb
proof (unfold_locales, goal_cases)
  case (1 b k)
  then show ?case
    by (cases k) (auto simp: mldsa_ParsePublicKey_def mldsa_PublicKey_Marshal_def mldsa_public_ok_def key_consts)
next
  case (4 der k)
  then show ?case by (auto simp: mldsa_ParsePublicKeyDER_def key_consts split: sum.splits)
qed (simp_all add: mldsa_PublicKey_Marshal_def mldsa_PublicKey_MarshalDER_def mldsa_public_ok_def known_oids_def max_int_def key_consts)

lemma mldsa_PublicKey_ok: "primitives_ok P \<Longrightarrow> mldsa_public_ok (mldsa_SecretKey_PublicKey P k)"
  by (simp add: mldsa_public_ok_def mldsa_SecretKey_PublicKey_def primitives_okD)

section \<open>Properties\<close>

text \<open>Signing under a context of more than 255 bytes reports success and returns the zero
  signature, which no key accepts for that context: \<^verbatim>\<open>Sign\<close> drops the error of the underlying
  library. With a context of at most 255 bytes the signature verifies.\<close>

lemma Sign_long_context:
  assumes "primitives_ok P"
  shows "mldsa_Sign P k message ctx \<noteq> Inl e \<and>
    (255 < length ctx \<longrightarrow> mldsa_Sign P k message ctx = Inr (replicate 3309 0) \<and>
       mldsa_Verify P pk message ctx (replicate 3309 0) \<noteq> Inr ()) \<and>
    (length ctx \<le> 255 \<longrightarrow> (\<exists>sig. mldsa_Sign P k message ctx = Inr sig \<and>
       mldsa_Verify P (mldsa_SecretKey_PublicKey P k) message ctx sig = Inr ()))"
proof (cases "length ctx \<le> 255")
  case True
  obtain sig where "ml_sign P (ms_seed k) message ctx = Some sig" "ml_verify P (ml_public P (ms_seed k)) message ctx sig"
    using ml_sign_ok [OF assms True] by metis
  then have "mldsa_Sign P k message ctx = Inr sig" "mldsa_Verify P (mldsa_SecretKey_PublicKey P k) message ctx sig = Inr ()"
    by (simp_all add: mldsa_Sign_def mldsa_Verify_def mldsa_SecretKey_PublicKey_def)
  then show ?thesis using True by (auto simp: not_less)
next
  case False
  then have "255 < length ctx" by simp
  from ml_sign_long [OF assms this] show ?thesis
    using False by (auto simp: mldsa_Sign_def mldsa_Verify_def key_consts)
qed

lemma Sign_long_context_witness:
  "mldsa_Sign sample_primitives \<lparr>ms_seed = [1]\<rparr> [2, 3] (replicate 300 7) = Inr (replicate 3309 0) \<and>
   mldsa_Verify sample_primitives \<lparr>mp_key = [4]\<rparr> [2, 3] (replicate 300 7) (replicate 3309 0) \<noteq> Inr ()"
  using Sign_long_context [OF sample_primitives_ok, of "\<lparr>ms_seed = [1]\<rparr>" "[2, 3]" "replicate 300 7" undefined "\<lparr>mp_key = [4]\<rparr>"] by simp

end
