(* ===== verification/Xdsa.thy ===== *)
theory Xdsa
  imports Mldsa
begin

text \<open>
  The composite of ML-DSA-65 and Ed25519, \<^verbatim>\<open>src/xdsa/xdsa.go\<close>. A \<^verbatim>\<open>Signer\<close> of any of the three
  packages is a record or function of what its methods return.
\<close>

definition xdsa_signaturePrefix :: bytes where "xdsa_signaturePrefix = ascii ''CompositeAlgorithmSignatures2025''"
definition xdsa_signatureDomain :: bytes where "xdsa_signatureDomain = ascii ''COMPSIG-MLDSA65-Ed25519-SHA512''"

definition xdsa_SecretKeySize :: nat where "xdsa_SecretKeySize = 64"
definition xdsa_PublicKeySize :: nat where "xdsa_PublicKeySize = 1984"
definition xdsa_SignatureSize :: nat where "xdsa_SignatureSize = 3373"
definition xdsa_FingerprintSize :: nat where "xdsa_FingerprintSize = 32"

definition xdsa_OID :: oid where "xdsa_OID = [1, 3, 6, 1, 5, 5, 7, 6, 48]"

lemmas xdsa_consts [key_consts] =
  xdsa_SecretKeySize_def xdsa_PublicKeySize_def xdsa_SignatureSize_def xdsa_FingerprintSize_def xdsa_OID_def

record xdsa_secret =
  xs_ml :: mldsa_secret
  xs_ed :: eddsa_secret

record xdsa_public =
  xp_ml :: mldsa_public
  xp_ed :: eddsa_public

record xdsa_signer =
  sg_sign :: "bytes \<Rightarrow> key_error + bytes"
  sg_public :: xdsa_public

section \<open>Signatures\<close>

definition xdsa_ComposeSignature :: "bytes \<Rightarrow> bytes \<Rightarrow> bytes" where
  "xdsa_ComposeSignature mlSig edSig = fixed mldsa_SignatureSize mlSig @ fixed (xdsa_SignatureSize - mldsa_SignatureSize) edSig"

definition xdsa_Signature_Split :: "bytes \<Rightarrow> bytes \<times> bytes" where
  "xdsa_Signature_Split s = (take 3309 s, drop 3309 s)"

definition xdsa_Signature_MarshalText :: "bytes \<Rightarrow> bytes" where
  "xdsa_Signature_MarshalText s = b64_encode s"

definition xdsa_Signature_UnmarshalText :: "bytes \<Rightarrow> key_error + bytes" where
  "xdsa_Signature_UnmarshalText text = text_array xdsa_SignatureSize text"

definition cmldsaMessagePrime :: "'r primitives \<Rightarrow> bytes \<Rightarrow> bytes" where
  "cmldsaMessagePrime P message = xdsa_signaturePrefix @ xdsa_signatureDomain @ [0] @ sha512 P message"

section \<open>Secret keys\<close>

definition xdsa_ComposeSecretKey :: "mldsa_secret \<Rightarrow> eddsa_secret \<Rightarrow> xdsa_secret" where
  "xdsa_ComposeSecretKey mlKey edKey = \<lparr>xs_ml = mlKey, xs_ed = edKey\<rparr>"

definition xdsa_SecretKey_Split :: "xdsa_secret \<Rightarrow> mldsa_secret \<times> eddsa_secret" where
  "xdsa_SecretKey_Split k = (xs_ml k, xs_ed k)"

definition xdsa_ParseSecretKey :: "bytes \<Rightarrow> xdsa_secret" where
  "xdsa_ParseSecretKey seed =
     \<lparr>xs_ml = mldsa_ParseSecretKey (take 32 seed), xs_ed = eddsa_ParseSecretKey (drop 32 seed)\<rparr>"

definition xdsa_GenerateKey :: "bytes option \<Rightarrow> xdsa_secret option" where
  "xdsa_GenerateKey rnd = map_option xdsa_ParseSecretKey rnd"

definition xdsa_ParseSecretKeyDER :: "cryptobyte \<Rightarrow> bytes \<Rightarrow> key_error + xdsa_secret" where
  "xdsa_ParseSecretKeyDER cb der =
     (case ParsePKCS8PrivateKey cb der of
        Inl e \<Rightarrow> Inl (AsnError e)
      | Inr info \<Rightarrow>
          if p8_version info \<noteq> 0 then Inl UnsupportedVersion
          else if p8_algorithm info \<noteq> xdsa_OID then Inl WrongAlgorithm
          else if length (p8_key info) \<noteq> 64 then Inl InvalidLength
          else Inr (xdsa_ParseSecretKey (p8_key info)))"

definition xdsa_MustParseSecretKeyDER :: "cryptobyte \<Rightarrow> bytes \<Rightarrow> xdsa_secret option" where
  "xdsa_MustParseSecretKeyDER cb der = must (xdsa_ParseSecretKeyDER cb der)"

definition xdsa_ParseSecretKeyPEM :: "cryptobyte \<Rightarrow> bytes \<Rightarrow> key_error + xdsa_secret" where
  "xdsa_ParseSecretKeyPEM cb s = parse_pem ''PRIVATE KEY'' (xdsa_ParseSecretKeyDER cb) s"

definition xdsa_MustParseSecretKeyPEM :: "cryptobyte \<Rightarrow> bytes \<Rightarrow> xdsa_secret option" where
  "xdsa_MustParseSecretKeyPEM cb s = must (xdsa_ParseSecretKeyPEM cb s)"

definition xdsa_SecretKey_Marshal :: "xdsa_secret \<Rightarrow> bytes" where
  "xdsa_SecretKey_Marshal k = fixed 32 (mldsa_SecretKey_Marshal (xs_ml k)) @ fixed 32 (eddsa_SecretKey_Marshal (xs_ed k))"

definition xdsa_SecretKey_MarshalDER :: "xdsa_secret \<Rightarrow> bytes" where
  "xdsa_SecretKey_MarshalDER k = pkcs8_der xdsa_OID (xdsa_SecretKey_Marshal k)"

definition xdsa_SecretKey_MarshalPEM :: "xdsa_secret \<Rightarrow> bytes" where
  "xdsa_SecretKey_MarshalPEM k = Encode (ascii ''PRIVATE KEY'') (xdsa_SecretKey_MarshalDER k)"

definition xdsa_SecretKey_PublicKey :: "'r primitives \<Rightarrow> xdsa_secret \<Rightarrow> xdsa_public" where
  "xdsa_SecretKey_PublicKey P k =
     \<lparr>xp_ml = mldsa_SecretKey_PublicKey P (xs_ml k), xp_ed = eddsa_SecretKey_PublicKey P (xs_ed k)\<rparr>"

text \<open>The signatures of \<^verbatim>\<open>Sign\<close> cannot fail, so neither can its panics.\<close>

definition xdsa_Sign :: "'r primitives \<Rightarrow> xdsa_secret \<Rightarrow> bytes \<Rightarrow> (key_error + bytes) option" where
  "xdsa_Sign P k message =
     (let mPrime = cmldsaMessagePrime P message
      in case mldsa_Sign P (xs_ml k) mPrime xdsa_signatureDomain of
           Inl _ \<Rightarrow> None
         | Inr mlSig \<Rightarrow>
             (case eddsa_Sign P (xs_ed k) mPrime of
                Inl _ \<Rightarrow> None
              | Inr edSig \<Rightarrow> Some (Inr (fixed 3309 mlSig @ fixed (xdsa_SignatureSize - 3309) edSig))))"

definition xdsa_SplitSign :: "'r primitives \<Rightarrow> (bytes \<Rightarrow> bytes \<Rightarrow> key_error + bytes) \<Rightarrow> (bytes \<Rightarrow> key_error + bytes) \<Rightarrow>
    bytes \<Rightarrow> key_error + bytes" where
  "xdsa_SplitSign P mlKey edKey message =
     (let mPrime = cmldsaMessagePrime P message
      in case mlKey mPrime xdsa_signatureDomain of
           Inl e \<Rightarrow> Inl e
         | Inr mlSig \<Rightarrow>
             (case edKey mPrime of
                Inl e \<Rightarrow> Inl e
              | Inr edSig \<Rightarrow> Inr (fixed 3309 mlSig @ fixed (xdsa_SignatureSize - 3309) edSig)))"

section \<open>Public keys\<close>

definition xdsa_ComposePublicKey :: "mldsa_public \<Rightarrow> eddsa_public \<Rightarrow> xdsa_public" where
  "xdsa_ComposePublicKey mlKey edKey = \<lparr>xp_ml = mlKey, xp_ed = edKey\<rparr>"

definition xdsa_PublicKey_Split :: "xdsa_public \<Rightarrow> mldsa_public \<times> eddsa_public" where
  "xdsa_PublicKey_Split k = (xp_ml k, xp_ed k)"

definition xdsa_ParsePublicKey :: "'r primitives \<Rightarrow> bytes \<Rightarrow> key_error + xdsa_public" where
  "xdsa_ParsePublicKey P b =
     (case eddsa_ParsePublicKey P (drop 1952 b) of
        Inl _ \<Rightarrow> Inl InvalidPublicKey
      | Inr edKey \<Rightarrow> Inr \<lparr>xp_ml = mldsa_ParsePublicKey (take 1952 b), xp_ed = edKey\<rparr>)"

definition xdsa_MustParsePublicKey :: "'r primitives \<Rightarrow> bytes \<Rightarrow> xdsa_public option" where
  "xdsa_MustParsePublicKey P b = must (xdsa_ParsePublicKey P b)"

definition xdsa_ParsePublicKeyDER :: "'r primitives \<Rightarrow> cryptobyte \<Rightarrow> bytes \<Rightarrow> key_error + xdsa_public" where
  "xdsa_ParsePublicKeyDER P cb der =
     (case ParseSubjectPublicKeyInfo cb der of
        Inl e \<Rightarrow> Inl (AsnError e)
      | Inr info \<Rightarrow>
          if sp_algorithm info \<noteq> xdsa_OID then Inl WrongAlgorithm
          else if length (sp_bytes info) \<noteq> xdsa_PublicKeySize then Inl InvalidLength
          else if sp_bitlen info \<noteq> int xdsa_PublicKeySize * 8 then Inl NotByteAligned
          else xdsa_ParsePublicKey P (sp_bytes info))"

definition xdsa_MustParsePublicKeyDER :: "'r primitives \<Rightarrow> cryptobyte \<Rightarrow> bytes \<Rightarrow> xdsa_public option" where
  "xdsa_MustParsePublicKeyDER P cb der = must (xdsa_ParsePublicKeyDER P cb der)"

definition xdsa_ParsePublicKeyPEM :: "'r primitives \<Rightarrow> cryptobyte \<Rightarrow> bytes \<Rightarrow> key_error + xdsa_public" where
  "xdsa_ParsePublicKeyPEM P cb s = parse_pem ''PUBLIC KEY'' (xdsa_ParsePublicKeyDER P cb) s"

definition xdsa_MustParsePublicKeyPEM :: "'r primitives \<Rightarrow> cryptobyte \<Rightarrow> bytes \<Rightarrow> xdsa_public option" where
  "xdsa_MustParsePublicKeyPEM P cb s = must (xdsa_ParsePublicKeyPEM P cb s)"

definition xdsa_PublicKey_Marshal :: "xdsa_public \<Rightarrow> bytes" where
  "xdsa_PublicKey_Marshal k =
     fixed 1952 (mldsa_PublicKey_Marshal (xp_ml k)) @ fixed (xdsa_PublicKeySize - 1952) (eddsa_PublicKey_Marshal (xp_ed k))"

definition xdsa_PublicKey_MarshalDER :: "xdsa_public \<Rightarrow> bytes" where
  "xdsa_PublicKey_MarshalDER k = spki_der xdsa_OID (xdsa_PublicKey_Marshal k)"

definition xdsa_PublicKey_MarshalPEM :: "xdsa_public \<Rightarrow> bytes" where
  "xdsa_PublicKey_MarshalPEM k = Encode (ascii ''PUBLIC KEY'') (xdsa_PublicKey_MarshalDER k)"

definition xdsa_PublicKey_MarshalText :: "xdsa_public \<Rightarrow> bytes" where
  "xdsa_PublicKey_MarshalText k = b64_encode (xdsa_PublicKey_Marshal k)"

definition xdsa_PublicKey_UnmarshalText :: "'r primitives \<Rightarrow> bytes \<Rightarrow> key_error + xdsa_public" where
  "xdsa_PublicKey_UnmarshalText P text =
     (case text_array xdsa_PublicKeySize text of Inl e \<Rightarrow> Inl e | Inr raw \<Rightarrow> xdsa_ParsePublicKey P raw)"

definition xdsa_Fingerprint :: "'r primitives \<Rightarrow> xdsa_public \<Rightarrow> bytes" where
  "xdsa_Fingerprint P k = sha256 P (xdsa_PublicKey_Marshal k)"

definition xdsa_SecretKey_Fingerprint :: "'r primitives \<Rightarrow> xdsa_secret \<Rightarrow> bytes" where
  "xdsa_SecretKey_Fingerprint P k = xdsa_Fingerprint P (xdsa_SecretKey_PublicKey P k)"

definition xdsa_MarshalCBOR :: "xdsa_public \<Rightarrow> (encoder, cbor_error, unit) op" where
  "xdsa_MarshalCBOR k = emit (EncodeBytes (xdsa_PublicKey_Marshal k))"

definition xdsa_UnmarshalCBOR :: "'r primitives \<Rightarrow> (decoder, cbor_error, xdsa_public) op" where
  "xdsa_UnmarshalCBOR P = andThen (DecodeBytesFixed (int xdsa_PublicKeySize)) (\<lambda>b. cbor_lift (xdsa_ParsePublicKey P b))"

definition xdsa_Verify :: "'r primitives \<Rightarrow> xdsa_public \<Rightarrow> bytes \<Rightarrow> bytes \<Rightarrow> key_error + unit" where
  "xdsa_Verify P k message sig =
     (let mPrime = cmldsaMessagePrime P message; (mlSig, edSig) = xdsa_Signature_Split sig
      in case mldsa_Verify P (xp_ml k) mPrime xdsa_signatureDomain mlSig of
           Inl _ \<Rightarrow> Inl VerificationFailed
         | Inr _ \<Rightarrow>
             (case eddsa_Verify P (xp_ed k) mPrime edSig of
                Inl _ \<Rightarrow> Inl VerificationFailed
              | Inr _ \<Rightarrow> Inr ()))"

definition xdsa_Fingerprint_MarshalText :: "bytes \<Rightarrow> bytes" where
  "xdsa_Fingerprint_MarshalText f = b64_encode f"

definition xdsa_Fingerprint_UnmarshalText :: "bytes \<Rightarrow> key_error + bytes" where
  "xdsa_Fingerprint_UnmarshalText text = text_array xdsa_FingerprintSize text"

section \<open>Correctness\<close>

definition xdsa_secret_ok :: "xdsa_secret \<Rightarrow> bool" where
  "xdsa_secret_ok k \<longleftrightarrow> mldsa_secret_ok (xs_ml k) \<and> eddsa_secret_ok (xs_ed k)"

definition xdsa_public_ok :: "'r primitives \<Rightarrow> xdsa_public \<Rightarrow> bool" where
  "xdsa_public_ok P k \<longleftrightarrow> mldsa_public_ok (xp_ml k) \<and> eddsa_public_ok P (xp_ed k)"

lemma xdsa_Marshal_split:
  assumes "mldsa_secret_ok (xs_ml k)" and "eddsa_secret_ok (xs_ed k)" and "length seed = 64"
  shows "xdsa_ParseSecretKey seed = k \<longleftrightarrow> seed = xdsa_SecretKey_Marshal k"
proof -
  have "seed = ms_seed (xs_ml k) @ es_seed (xs_ed k) \<longleftrightarrow> take 32 seed = ms_seed (xs_ml k) \<and> drop 32 seed = es_seed (xs_ed k)"
    using append_eq_conv_conj [of "ms_seed (xs_ml k)" "es_seed (xs_ed k)" seed] assms by (auto simp: mldsa_secret_ok_def)
  then show ?thesis using assms
    by (cases k; cases "xs_ml k"; cases "xs_ed k")
      (auto simp: xdsa_ParseSecretKey_def xdsa_SecretKey_Marshal_def mldsa_ParseSecretKey_def eddsa_ParseSecretKey_def
        mldsa_SecretKey_Marshal_def eddsa_SecretKey_Marshal_def mldsa_secret_ok_def eddsa_secret_ok_def key_consts)
qed

lemma xdsa_ParseSecretKey_ok: "length seed = 64 \<Longrightarrow> xdsa_secret_ok (xdsa_ParseSecretKey seed)"
  by (simp add: xdsa_secret_ok_def xdsa_ParseSecretKey_def mldsa_secret_ok_def eddsa_secret_ok_def
      mldsa_ParseSecretKey_def eddsa_ParseSecretKey_def)

lemma length_xdsa_SecretKey_Marshal: "length (xdsa_SecretKey_Marshal k) = 64"
  by (simp add: xdsa_SecretKey_Marshal_def)

interpretation xdsa_secret: pkcs8_key cb xdsa_OID xdsa_SecretKey_Marshal "xdsa_ParseSecretKeyDER cb"
  xdsa_SecretKey_MarshalDER xdsa_secret_ok for cb
proof (unfold_locales, goal_cases)
  case (1 der info k)
  have "xdsa_ParseSecretKeyDER cb der = Inr k \<longleftrightarrow>
      p8_algorithm info = xdsa_OID \<and> length (p8_key info) = 64 \<and> xdsa_ParseSecretKey (p8_key info) = k"
    using 1(2,4) by (auto simp: xdsa_ParseSecretKeyDER_def)
  then show ?case
    using xdsa_Marshal_split [of k "p8_key info"] xdsa_ParseSecretKey_ok [of "p8_key info"] length_xdsa_SecretKey_Marshal [of k]
    by (auto simp: xdsa_secret_ok_def)
qed (simp_all add: xdsa_ParseSecretKeyDER_def xdsa_SecretKey_MarshalDER_def length_xdsa_SecretKey_Marshal known_oids_def key_consts)

lemma xdsa_ParsePublicKey_iff:
  assumes "length b = 1984"
  shows "xdsa_ParsePublicKey (strict_points P) b = Inr k \<longleftrightarrow> xdsa_public_ok P k \<and> b = xdsa_PublicKey_Marshal k"
proof -
  have l: "length (drop 1952 b) = 32" "length (take 1952 b) = 1952" using assms by simp_all
  have "xdsa_ParsePublicKey (strict_points P) b = Inr k \<longleftrightarrow>
      eddsa_ParsePublicKey (strict_points P) (drop 1952 b) = Inr (xp_ed k) \<and> mldsa_ParsePublicKey (take 1952 b) = xp_ml k"
    by (cases k) (auto simp: xdsa_ParsePublicKey_def split: sum.splits)
  moreover have "mldsa_ParsePublicKey (take 1952 b) = xp_ml k \<longleftrightarrow>
      mldsa_public_ok (xp_ml k) \<and> take 1952 b = mldsa_PublicKey_Marshal (xp_ml k)"
    using mldsa_public.parse_iff [OF l(2), of "xp_ml k"] by simp
  moreover have "b = xdsa_PublicKey_Marshal k \<longleftrightarrow>
      take 1952 b = mldsa_PublicKey_Marshal (xp_ml k) \<and> drop 1952 b = eddsa_PublicKey_Marshal (xp_ed k)"
    using append_eq_conv_conj [of "mldsa_PublicKey_Marshal (xp_ml k)" "eddsa_PublicKey_Marshal (xp_ed k)" b]
    by (auto simp: xdsa_PublicKey_Marshal_def mldsa_public.length_raw eddsa_public.length_raw key_consts)
  ultimately show ?thesis using eddsa_public.parse_iff [OF l(1)] by (auto simp: xdsa_public_ok_def)
qed

interpretation xdsa_public: spki_key xdsa_PublicKey_Marshal "xdsa_ParsePublicKey (strict_points P)"
  "xdsa_public_ok P" 1984 cb xdsa_OID "xdsa_ParsePublicKeyDER (strict_points P) cb" xdsa_PublicKey_MarshalDER for P cb
proof (unfold_locales, goal_cases)
  case (1 b k)
  then show ?case by (rule xdsa_ParsePublicKey_iff)
next
  case (4 der k)
  then show ?case by (auto simp: xdsa_ParsePublicKeyDER_def key_consts split: sum.splits)
qed (simp_all add: xdsa_PublicKey_Marshal_def xdsa_PublicKey_MarshalDER_def known_oids_def max_int_def key_consts)

lemma xdsa_PublicKey_ok: "primitives_ok P \<Longrightarrow> xdsa_public_ok P (xdsa_SecretKey_PublicKey P k)"
  by (simp add: xdsa_public_ok_def xdsa_SecretKey_PublicKey_def mldsa_PublicKey_ok eddsa_PublicKey_ok)

text \<open>The composite signature of a secret key, and what its verification asks for.\<close>

definition xdsa_composite :: "'r primitives \<Rightarrow> xdsa_secret \<Rightarrow> bytes \<Rightarrow> bytes" where
  "xdsa_composite P k message =
     the (ml_sign P (ms_seed (xs_ml k)) (cmldsaMessagePrime P message) xdsa_signatureDomain) @
     ed_sign P (es_seed (xs_ed k)) (cmldsaMessagePrime P message)"

lemma length_signatureDomain: "length xdsa_signatureDomain \<le> 255"
  by (simp add: xdsa_signatureDomain_def ascii_def)

lemma xdsa_Sign_composite:
  assumes "primitives_ok P"
  shows "xdsa_Sign P k message = Some (Inr (xdsa_composite P k message))"
    and "length (xdsa_composite P k message) = 3373"
proof -
  obtain sig where "ml_sign P (ms_seed (xs_ml k)) (cmldsaMessagePrime P message) xdsa_signatureDomain = Some sig" "length sig = 3309"
    using ml_sign_ok [OF assms length_signatureDomain] by metis
  then show "xdsa_Sign P k message = Some (Inr (xdsa_composite P k message))"
    "length (xdsa_composite P k message) = 3373"
    by (simp_all add: xdsa_Sign_def xdsa_composite_def mldsa_Sign_def eddsa_Sign_def primitives_okD [OF assms] key_consts)
qed

lemma xdsa_Verify_iff:
  "xdsa_Verify P k message sig = Inr () \<longleftrightarrow>
     ml_verify P (mp_key (xp_ml k)) (cmldsaMessagePrime P message) xdsa_signatureDomain (take 3309 sig) \<and>
     ed_verify P (ep_key (xp_ed k)) (cmldsaMessagePrime P message) (drop 3309 sig)"
  by (simp add: xdsa_Verify_def xdsa_Signature_Split_def mldsa_Verify_def eddsa_Verify_def Let_def)

lemma xdsa_Verify_composite:
  assumes "primitives_ok P"
  shows "xdsa_Verify P (xdsa_SecretKey_PublicKey P k) message (xdsa_composite P k message) = Inr ()"
proof -
  let ?m = "cmldsaMessagePrime P message"
  obtain sig where "ml_sign P (ms_seed (xs_ml k)) ?m xdsa_signatureDomain = Some sig" "length sig = 3309"
    "ml_verify P (ml_public P (ms_seed (xs_ml k))) ?m xdsa_signatureDomain sig"
    using ml_sign_ok [OF assms length_signatureDomain] by metis
  then show ?thesis
    by (simp add: xdsa_Verify_iff xdsa_composite_def xdsa_SecretKey_PublicKey_def mldsa_SecretKey_PublicKey_def
        eddsa_SecretKey_PublicKey_def primitives_okD [OF assms])
qed

section \<open>Signers\<close>

text \<open>What a \<^verbatim>\<open>Signer\<close> promises, and that the keys of \<^verbatim>\<open>xdsa\<close> keep it.\<close>

definition signer_ok :: "'r primitives \<Rightarrow> xdsa_signer \<Rightarrow> bool" where
  "signer_ok P signer \<longleftrightarrow> (\<forall>m. \<exists>s. sg_sign signer m = Inr s \<and> length s = 3373 \<and> xdsa_Verify P (sg_public signer) m s = Inr ())"

definition local_signer :: "'r primitives \<Rightarrow> xdsa_secret \<Rightarrow> xdsa_signer" where
  "local_signer P k = \<lparr>sg_sign = (\<lambda>m. case xdsa_Sign P k m of None \<Rightarrow> Inl (SignerError 0) | Some r \<Rightarrow> r),
     sg_public = xdsa_SecretKey_PublicKey P k\<rparr>"

lemma local_signer_ok: "primitives_ok P \<Longrightarrow> signer_ok P (local_signer P k)"
  by (simp add: signer_ok_def local_signer_def xdsa_Sign_composite xdsa_Verify_composite)

lemma signerE:
  assumes "signer_ok P signer"
  obtains s where "sg_sign signer m = Inr s" "length s = 3373" "xdsa_Verify P (sg_public signer) m s = Inr ()"
  using assms unfolding signer_ok_def by blast

section \<open>Properties\<close>

text \<open>C21: composite signing is correct. A key never panics and never reports an error, the
  signature has the fixed size, the key's public half accepts it, and \<^verbatim>\<open>SplitSign\<close> with the two
  halves of the key signs the same, whatever the message.\<close>

theorem Sign_then_Verify:
  assumes "primitives_ok P"
  shows "\<exists>sig. xdsa_Sign P k message = Some (Inr sig) \<and> length sig = xdsa_SignatureSize \<and>
    xdsa_Verify P (xdsa_SecretKey_PublicKey P k) message sig = Inr () \<and>
    xdsa_SplitSign P (mldsa_Sign P (fst (xdsa_SecretKey_Split k))) (eddsa_Sign P (snd (xdsa_SecretKey_Split k))) message = Inr sig"
proof -
  obtain sig where "ml_sign P (ms_seed (xs_ml k)) (cmldsaMessagePrime P message) xdsa_signatureDomain = Some sig"
    using ml_sign_ok [OF assms length_signatureDomain] by metis
  then have "xdsa_SplitSign P (mldsa_Sign P (xs_ml k)) (eddsa_Sign P (xs_ed k)) message = the (xdsa_Sign P k message)"
    by (simp add: xdsa_SplitSign_def xdsa_Sign_def mldsa_Sign_def eddsa_Sign_def Let_def)
  then show ?thesis
    using xdsa_Sign_composite [OF assms, of k message] xdsa_Verify_composite [OF assms, of k message]
    by (simp add: xdsa_SecretKey_Split_def key_consts)
qed

lemma Sign_then_Verify_witness:
  "\<exists>sig. xdsa_Sign sample_primitives (xdsa_ParseSecretKey (replicate 64 5)) [1, 2] = Some (Inr sig) \<and>
    xdsa_Verify sample_primitives (xdsa_SecretKey_PublicKey sample_primitives (xdsa_ParseSecretKey (replicate 64 5))) [1, 2] sig = Inr ()"
  using Sign_then_Verify [OF sample_primitives_ok] by blast

text \<open>C22: neither half of a composite signature is enough. A signature composed of two parts is
  accepted exactly if each half key accepts its part, both for the same bytes: prefix, label, an
  empty context and the SHA-512 of the message. Those bytes agree for two messages only if the
  hashes do, and \<^verbatim>\<open>Split\<close> gives the two parts back.\<close>

theorem Verify_needs_both:
  assumes "length ml = mldsa_SignatureSize" and "length ed = eddsa_SignatureSize"
  shows "(xdsa_Verify P (xdsa_ComposePublicKey mk ek) message (xdsa_ComposeSignature ml ed) = Inr () \<longleftrightarrow>
      mldsa_Verify P mk (cmldsaMessagePrime P message) xdsa_signatureDomain ml = Inr () \<and>
      eddsa_Verify P ek (cmldsaMessagePrime P message) ed = Inr ()) \<and>
    xdsa_Signature_Split (xdsa_ComposeSignature ml ed) = (ml, ed) \<and>
    xdsa_ComposeSignature (fst (xdsa_Signature_Split (ml @ ed))) (snd (xdsa_Signature_Split (ml @ ed))) = ml @ ed \<and>
    (cmldsaMessagePrime P message = cmldsaMessagePrime P message' \<longleftrightarrow> sha512 P message = sha512 P message')"
  using assms
  by (simp add: xdsa_Verify_iff xdsa_ComposeSignature_def xdsa_ComposePublicKey_def xdsa_Signature_Split_def
      mldsa_Verify_def eddsa_Verify_def cmldsaMessagePrime_def key_consts)

lemma Verify_needs_both_witness:
  "xdsa_Verify sample_primitives (xdsa_ComposePublicKey \<lparr>mp_key = [1]\<rparr> \<lparr>ep_key = [2]\<rparr>) [3]
     (xdsa_ComposeSignature (replicate 3309 0) (replicate 64 0)) \<noteq> Inr ()"
proof -
  have "\<not> eddsa_Verify sample_primitives \<lparr>ep_key = [2]\<rparr> (cmldsaMessagePrime sample_primitives [3]) (replicate 64 0) = Inr ()"
  proof -
    have "hd (fixed 64 (2 # m)) \<noteq> hd (replicate 64 (0 :: byte))" for m by (simp add: fixed_def)
    then have "replicate 64 0 \<noteq> fixed 64 (2 # m)" for m :: bytes by metis
    then show ?thesis by (simp add: eddsa_Verify_def sample_primitives_def)
  qed
  then show ?thesis
    using Verify_needs_both [of "replicate 3309 0" "replicate 64 0" sample_primitives "\<lparr>mp_key = [1]\<rparr>" "\<lparr>ep_key = [2]\<rparr>" "[3]"]
    by (simp add: key_consts)
qed

end
