(* ===== verification/Xhpke.thy ===== *)
theory Xhpke
  imports Xdsa
begin

text \<open>X-Wing HPKE keys, \<^verbatim>\<open>src/xhpke/xhpke.go\<close>.\<close>

definition xhpke_SecretKeySize :: nat where "xhpke_SecretKeySize = 32"
definition xhpke_PublicKeySize :: nat where "xhpke_PublicKeySize = 1216"
definition xhpke_EncapKeySize :: nat where "xhpke_EncapKeySize = 1120"
definition xhpke_FingerprintSize :: nat where "xhpke_FingerprintSize = 32"

definition xhpke_OID :: oid where "xhpke_OID = [1, 3, 6, 1, 4, 1, 62253, 25722]"

lemmas xhpke_consts [key_consts] =
  xhpke_SecretKeySize_def xhpke_PublicKeySize_def xhpke_EncapKeySize_def xhpke_FingerprintSize_def xhpke_OID_def

section \<open>Secret keys\<close>

record xhpke_secret = hs_seed :: bytes
record xhpke_public = hpk_key :: bytes

definition xhpke_ParseSecretKey :: "bytes \<Rightarrow> xhpke_secret" where
  "xhpke_ParseSecretKey seed = \<lparr>hs_seed = seed\<rparr>"

text \<open>\<open>rnd\<close> is the seed that \<^verbatim>\<open>GenerateKey\<close> of the standard library draws.\<close>

definition xhpke_GenerateKey :: "bytes \<Rightarrow> xhpke_secret" where
  "xhpke_GenerateKey rnd = \<lparr>hs_seed = fixed xhpke_SecretKeySize rnd\<rparr>"

definition xhpke_ParseSecretKeyDER :: "cryptobyte \<Rightarrow> bytes \<Rightarrow> key_error + xhpke_secret" where
  "xhpke_ParseSecretKeyDER cb der =
     (case ParsePKCS8PrivateKey cb der of
        Inl e \<Rightarrow> Inl (AsnError e)
      | Inr info \<Rightarrow>
          if p8_version info \<noteq> 0 then Inl UnsupportedVersion
          else if p8_algorithm info \<noteq> xhpke_OID then Inl WrongAlgorithm
          else if length (p8_key info) \<noteq> xhpke_SecretKeySize then Inl InvalidLength
          else Inr (xhpke_ParseSecretKey (p8_key info)))"

definition xhpke_MustParseSecretKeyDER :: "cryptobyte \<Rightarrow> bytes \<Rightarrow> xhpke_secret option" where
  "xhpke_MustParseSecretKeyDER cb der = must (xhpke_ParseSecretKeyDER cb der)"

definition xhpke_ParseSecretKeyPEM :: "cryptobyte \<Rightarrow> bytes \<Rightarrow> key_error + xhpke_secret" where
  "xhpke_ParseSecretKeyPEM cb s = parse_pem ''PRIVATE KEY'' (xhpke_ParseSecretKeyDER cb) s"

definition xhpke_MustParseSecretKeyPEM :: "cryptobyte \<Rightarrow> bytes \<Rightarrow> xhpke_secret option" where
  "xhpke_MustParseSecretKeyPEM cb s = must (xhpke_ParseSecretKeyPEM cb s)"

definition xhpke_SecretKey_Marshal :: "xhpke_secret \<Rightarrow> bytes" where
  "xhpke_SecretKey_Marshal k = hs_seed k"

definition xhpke_SecretKey_MarshalDER :: "xhpke_secret \<Rightarrow> bytes" where
  "xhpke_SecretKey_MarshalDER k = pkcs8_der xhpke_OID (hs_seed k)"

definition xhpke_SecretKey_MarshalPEM :: "xhpke_secret \<Rightarrow> bytes" where
  "xhpke_SecretKey_MarshalPEM k = Encode (ascii ''PRIVATE KEY'') (xhpke_SecretKey_MarshalDER k)"

definition xhpke_SecretKey_PublicKey :: "'r primitives \<Rightarrow> xhpke_secret \<Rightarrow> xhpke_public" where
  "xhpke_SecretKey_PublicKey P k = \<lparr>hpk_key = hp_public P (hs_seed k)\<rparr>"

definition xhpke_Open :: "'r primitives \<Rightarrow> xhpke_secret \<Rightarrow> bytes \<Rightarrow> bytes \<Rightarrow> bytes \<Rightarrow> bytes \<Rightarrow> key_error + bytes" where
  "xhpke_Open P k sessionKey msgToOpen msgToAuth domain =
     (case hp_recipient P sessionKey (hs_seed k) domain of
        None \<Rightarrow> Inl HpkeError
      | Some recipient_open \<Rightarrow>
          (case recipient_open msgToAuth msgToOpen of None \<Rightarrow> Inl HpkeError | Some m \<Rightarrow> Inr m))"

section \<open>Public keys\<close>

definition xhpke_ParsePublicKey :: "'r primitives \<Rightarrow> bytes \<Rightarrow> key_error + xhpke_public" where
  "xhpke_ParsePublicKey P b = (if \<not> hp_point P b then Inl InvalidPublicKey else Inr \<lparr>hpk_key = b\<rparr>)"

definition xhpke_MustParsePublicKey :: "'r primitives \<Rightarrow> bytes \<Rightarrow> xhpke_public option" where
  "xhpke_MustParsePublicKey P b = must (xhpke_ParsePublicKey P b)"

definition xhpke_ParsePublicKeyDER :: "'r primitives \<Rightarrow> cryptobyte \<Rightarrow> bytes \<Rightarrow> key_error + xhpke_public" where
  "xhpke_ParsePublicKeyDER P cb der =
     (case ParseSubjectPublicKeyInfo cb der of
        Inl e \<Rightarrow> Inl (AsnError e)
      | Inr info \<Rightarrow>
          if sp_algorithm info \<noteq> xhpke_OID then Inl WrongAlgorithm
          else if length (sp_bytes info) \<noteq> xhpke_PublicKeySize then Inl InvalidLength
          else if sp_bitlen info \<noteq> int xhpke_PublicKeySize * 8 then Inl NotByteAligned
          else xhpke_ParsePublicKey P (sp_bytes info))"

definition xhpke_MustParsePublicKeyDER :: "'r primitives \<Rightarrow> cryptobyte \<Rightarrow> bytes \<Rightarrow> xhpke_public option" where
  "xhpke_MustParsePublicKeyDER P cb der = must (xhpke_ParsePublicKeyDER P cb der)"

definition xhpke_ParsePublicKeyPEM :: "'r primitives \<Rightarrow> cryptobyte \<Rightarrow> bytes \<Rightarrow> key_error + xhpke_public" where
  "xhpke_ParsePublicKeyPEM P cb s = parse_pem ''PUBLIC KEY'' (xhpke_ParsePublicKeyDER P cb) s"

definition xhpke_MustParsePublicKeyPEM :: "'r primitives \<Rightarrow> cryptobyte \<Rightarrow> bytes \<Rightarrow> xhpke_public option" where
  "xhpke_MustParsePublicKeyPEM P cb s = must (xhpke_ParsePublicKeyPEM P cb s)"

definition xhpke_PublicKey_Marshal :: "xhpke_public \<Rightarrow> bytes" where
  "xhpke_PublicKey_Marshal k = fixed xhpke_PublicKeySize (hpk_key k)"

definition xhpke_PublicKey_MarshalDER :: "xhpke_public \<Rightarrow> bytes" where
  "xhpke_PublicKey_MarshalDER k = spki_der xhpke_OID (xhpke_PublicKey_Marshal k)"

definition xhpke_PublicKey_MarshalPEM :: "xhpke_public \<Rightarrow> bytes" where
  "xhpke_PublicKey_MarshalPEM k = Encode (ascii ''PUBLIC KEY'') (xhpke_PublicKey_MarshalDER k)"

definition xhpke_Fingerprint :: "'r primitives \<Rightarrow> xhpke_public \<Rightarrow> bytes" where
  "xhpke_Fingerprint P k = sha256 P (xhpke_PublicKey_Marshal k)"

definition xhpke_SecretKey_Fingerprint :: "'r primitives \<Rightarrow> xhpke_secret \<Rightarrow> bytes" where
  "xhpke_SecretKey_Fingerprint P k = xhpke_Fingerprint P (xhpke_SecretKey_PublicKey P k)"

definition xhpke_MarshalCBOR :: "xhpke_public \<Rightarrow> (encoder, cbor_error, unit) op" where
  "xhpke_MarshalCBOR k = emit (EncodeBytes (xhpke_PublicKey_Marshal k))"

definition xhpke_UnmarshalCBOR :: "'r primitives \<Rightarrow> (decoder, cbor_error, xhpke_public) op" where
  "xhpke_UnmarshalCBOR P = andThen (DecodeBytesFixed (int xhpke_PublicKeySize)) (\<lambda>b. cbor_lift (xhpke_ParsePublicKey P b))"

definition xhpke_PublicKey_MarshalText :: "xhpke_public \<Rightarrow> bytes" where
  "xhpke_PublicKey_MarshalText k = b64_encode (xhpke_PublicKey_Marshal k)"

definition xhpke_PublicKey_UnmarshalText :: "'r primitives \<Rightarrow> bytes \<Rightarrow> key_error + xhpke_public" where
  "xhpke_PublicKey_UnmarshalText P text =
     (case text_array xhpke_PublicKeySize text of Inl e \<Rightarrow> Inl e | Inr raw \<Rightarrow> xhpke_ParsePublicKey P raw)"

definition xhpke_Fingerprint_MarshalText :: "bytes \<Rightarrow> bytes" where
  "xhpke_Fingerprint_MarshalText f = b64_encode f"

definition xhpke_Fingerprint_UnmarshalText :: "bytes \<Rightarrow> key_error + bytes" where
  "xhpke_Fingerprint_UnmarshalText text = text_array xhpke_FingerprintSize text"

text \<open>The result is the encapsulated key and the ciphertext.\<close>

definition xhpke_Seal :: "'r primitives \<Rightarrow> 'r \<Rightarrow> xhpke_public \<Rightarrow> bytes \<Rightarrow> bytes \<Rightarrow> bytes \<Rightarrow> key_error + bytes \<times> bytes" where
  "xhpke_Seal P rnd k msgToSeal msgToAuth domain =
     (case hp_sender P (hpk_key k) domain rnd of
        None \<Rightarrow> Inl HpkeError
      | Some (encapKey, sender_seal) \<Rightarrow>
          (case sender_seal msgToAuth msgToSeal of
             None \<Rightarrow> Inl HpkeError
           | Some ciphertext \<Rightarrow> Inr (fixed xhpke_EncapKeySize encapKey, ciphertext)))"

section \<open>Correctness\<close>

definition xhpke_secret_ok :: "xhpke_secret \<Rightarrow> bool" where
  "xhpke_secret_ok k \<longleftrightarrow> length (hs_seed k) = 32"

definition xhpke_public_ok :: "'r primitives \<Rightarrow> xhpke_public \<Rightarrow> bool" where
  "xhpke_public_ok P k \<longleftrightarrow> length (hpk_key k) = 1216 \<and> hp_point P (hpk_key k)"

interpretation xhpke_secret: pkcs8_key cb xhpke_OID hs_seed "xhpke_ParseSecretKeyDER cb" xhpke_SecretKey_MarshalDER xhpke_secret_ok for cb
proof (unfold_locales, goal_cases)
  case (1 der info k)
  then show ?case by (cases k) (auto simp: xhpke_ParseSecretKeyDER_def xhpke_ParseSecretKey_def xhpke_secret_ok_def key_consts)
qed (simp_all add: xhpke_ParseSecretKeyDER_def xhpke_SecretKey_MarshalDER_def xhpke_secret_ok_def known_oids_def key_consts)

interpretation xhpke_public: spki_key xhpke_PublicKey_Marshal "xhpke_ParsePublicKey P" "xhpke_public_ok P" 1216
  cb xhpke_OID "xhpke_ParsePublicKeyDER P cb" xhpke_PublicKey_MarshalDER for P cb
proof (unfold_locales, goal_cases)
  case (1 b k)
  then show ?case
    by (cases k) (auto simp: xhpke_ParsePublicKey_def xhpke_PublicKey_Marshal_def xhpke_public_ok_def key_consts)
next
  case (4 der k)
  then show ?case by (auto simp: xhpke_ParsePublicKeyDER_def key_consts split: sum.splits)
qed (simp_all add: xhpke_PublicKey_Marshal_def xhpke_PublicKey_MarshalDER_def known_oids_def max_int_def key_consts)

lemma xhpke_PublicKey_ok: "primitives_ok P \<Longrightarrow> xhpke_public_ok P (xhpke_SecretKey_PublicKey P k)"
  by (simp add: xhpke_public_ok_def xhpke_SecretKey_PublicKey_def primitives_okD)

lemma xhpke_Open_Seal:
  assumes "primitives_ok P"
  obtains ek c where "xhpke_Seal P rnd (xhpke_SecretKey_PublicKey P k) m aad info = Inr (ek, c)"
    "length ek = xhpke_EncapKeySize" "length c = length m + 16" "xhpke_Open P k ek c aad info = Inr m"
proof -
  obtain ek seal op where s: "hp_sender P (hp_public P (hs_seed k)) info rnd = Some (ek, seal)" "length ek = 1120"
    and r: "hp_recipient P ek (hs_seed k) info = Some op"
      "\<And>aad m. \<exists>c. seal aad m = Some c \<and> length c = length m + 16 \<and> op aad c = Some m"
    using hp_seal_ok [OF assms] by metis
  from r(2) obtain c where "seal aad m = Some c" "length c = length m + 16" "op aad c = Some m" by blast
  then show thesis using s r(1)
    by (intro that [of ek c]) (simp_all add: xhpke_Seal_def xhpke_Open_def xhpke_SecretKey_PublicKey_def key_consts)
qed

section \<open>Properties of all key types\<close>

text \<open>C23: which DER public keys are accepted. Every package accepts exactly the containers with its
  object identifier, no unused bits and the encoding of a valid key, so a container is accepted by
  at most one package and determines the key; but bytes behind the object identifier, where
  parameters would be, are ignored, so the container is not determined by the key.\<close>

theorem public_keys_der_exact:
  assumes "primitives_ok P" and "der_reader cb" and "length der < 2 ^ 31"
  shows "(eddsa_ParsePublicKeyDER P cb der = Inr ek \<longleftrightarrow>
      eddsa_public_ok P ek \<and> (\<exists>params. der = spki_with params eddsa_OID 0 (eddsa_PublicKey_Marshal ek))) \<and>
    (mldsa_ParsePublicKeyDER cb der = Inr mk \<longleftrightarrow>
      mldsa_public_ok mk \<and> (\<exists>params. der = spki_with params mldsa_OID 0 (mldsa_PublicKey_Marshal mk))) \<and>
    (xdsa_ParsePublicKeyDER P cb der = Inr xk \<longleftrightarrow>
      xdsa_public_ok P xk \<and> (\<exists>params. der = spki_with params xdsa_OID 0 (xdsa_PublicKey_Marshal xk))) \<and>
    (xhpke_ParsePublicKeyDER P cb der = Inr hk \<longleftrightarrow>
      xhpke_public_ok P hk \<and> (\<exists>params. der = spki_with params xhpke_OID 0 (xhpke_PublicKey_Marshal hk)))"
  using eddsa_public.der_exact [OF assms(2,3), of P ek] mldsa_public.der_exact [OF assms(2,3), of mk]
    xdsa_public.der_exact [OF assms(2,3), of P xk] xhpke_public.der_exact [OF assms(2,3), of P hk]
  by (simp only: strict_points_id [OF assms(1)])

lemma public_keys_der_exact_witness:
  "eddsa_ParsePublicKeyDER sample_primitives sample_reader (spki_with [5, 0] eddsa_OID 0 (replicate 32 1)) =
     Inr \<lparr>ep_key = replicate 32 1\<rparr>"
proof -
  let ?der = "spki_with [5, 0] eddsa_OID 0 (replicate 32 1)"
  have "length ?der < 2 ^ 31"
    by (simp add: spki_with_def length_tlv oid_der_def der_length_def base128_def base128_high.simps key_consts)
  from public_keys_der_exact [OF sample_primitives_ok sample_reader_ok this, of "\<lparr>ep_key = replicate 32 1\<rparr>"]
  show ?thesis by (auto simp: eddsa_public_ok_def eddsa_PublicKey_Marshal_def sample_primitives_def key_consts)
qed

text \<open>C24: which DER private keys are accepted: exactly the PKCS#8 containers of version 0 with the
  package's object identifier and the right encoding of a seed (an OCTET STRING of 32 bytes for
  Ed25519, the seed with its matching expanded key for ML-DSA, 64 and 32 raw bytes for the other
  two), again with any bytes behind the object identifier.\<close>

theorem secret_keys_der_exact:
  assumes "primitives_ok P" and "der_reader cb" and "length der < 2 ^ 31"
  shows "(eddsa_ParseSecretKeyDER cb der = Inr ek \<longleftrightarrow>
      length (es_seed ek) = 32 \<and> (\<exists>params. der = pkcs8_with params eddsa_OID (tlv OCTET_STRING (es_seed ek)))) \<and>
    (mldsa_ParseSecretKeyDER P cb der = Inr mk \<longleftrightarrow>
      length (ms_seed mk) = 32 \<and> (\<exists>params. der = pkcs8_with params mldsa_OID
        (tlv SEQUENCE (tlv OCTET_STRING (ms_seed mk) @ tlv OCTET_STRING (ml_expanded P (ms_seed mk)))))) \<and>
    (xdsa_ParseSecretKeyDER cb der = Inr xk \<longleftrightarrow>
      xdsa_secret_ok xk \<and> (\<exists>params. der = pkcs8_with params xdsa_OID (xdsa_SecretKey_Marshal xk))) \<and>
    (xhpke_ParseSecretKeyDER cb der = Inr hk \<longleftrightarrow>
      length (hs_seed hk) = 32 \<and> (\<exists>params. der = pkcs8_with params xhpke_OID (hs_seed hk)))"
  using eddsa_secret.der_exact [OF assms(2,3), of ek] mldsa_secret.der_exact [OF assms(2,3), of P mk]
    xdsa_secret.der_exact [OF assms(2,3), of xk] xhpke_secret.der_exact [OF assms(2,3), of hk]
  by (simp only: strict_expanded_id [OF assms(1)] mldsa_inner_def eddsa_secret_ok_def mldsa_secret_ok_def xhpke_secret_ok_def)

lemma secret_keys_der_exact_witness:
  "xhpke_ParseSecretKeyDER sample_reader (pkcs8_with [] xhpke_OID (replicate 32 9)) = Inr \<lparr>hs_seed = replicate 32 9\<rparr>"
proof -
  let ?der = "pkcs8_with [] xhpke_OID (replicate 32 9)"
  have "length ?der < 2 ^ 31"
    by (simp add: pkcs8_with_def length_tlv oid_der_def der_length_def base128_def base128_high.simps key_consts)
  from secret_keys_der_exact [OF sample_primitives_ok sample_reader_ok this, of _ _ _ "\<lparr>hs_seed = replicate 32 9\<rparr>"]
  show ?thesis by auto
qed

text \<open>Every key written as PEM is parsed back by its own package: private keys of any seed, and
  the public key of any private key.\<close>

theorem keys_pem_round_trip:
  assumes "primitives_ok P" and "der_reader cb" and "length seed32 = 32" and "length seed64 = 64"
  shows "eddsa_ParseSecretKeyPEM cb (eddsa_SecretKey_MarshalPEM (eddsa_ParseSecretKey seed32)) = Inr (eddsa_ParseSecretKey seed32) \<and>
    mldsa_ParseSecretKeyPEM P cb (mldsa_SecretKey_MarshalPEM P (mldsa_ParseSecretKey seed32)) = Inr (mldsa_ParseSecretKey seed32) \<and>
    xdsa_ParseSecretKeyPEM cb (xdsa_SecretKey_MarshalPEM (xdsa_ParseSecretKey seed64)) = Inr (xdsa_ParseSecretKey seed64) \<and>
    xhpke_ParseSecretKeyPEM cb (xhpke_SecretKey_MarshalPEM (xhpke_ParseSecretKey seed32)) = Inr (xhpke_ParseSecretKey seed32) \<and>
    eddsa_ParsePublicKeyPEM P cb (eddsa_PublicKey_MarshalPEM (eddsa_SecretKey_PublicKey P ek)) = Inr (eddsa_SecretKey_PublicKey P ek) \<and>
    mldsa_ParsePublicKeyPEM cb (mldsa_PublicKey_MarshalPEM (mldsa_SecretKey_PublicKey P mk)) = Inr (mldsa_SecretKey_PublicKey P mk) \<and>
    xdsa_ParsePublicKeyPEM P cb (xdsa_PublicKey_MarshalPEM (xdsa_SecretKey_PublicKey P xk)) = Inr (xdsa_SecretKey_PublicKey P xk) \<and>
    xhpke_ParsePublicKeyPEM P cb (xhpke_PublicKey_MarshalPEM (xhpke_SecretKey_PublicKey P hk)) = Inr (xhpke_SecretKey_PublicKey P hk)"
  using eddsa_secret.pem_round_trip [OF assms(2), of "eddsa_ParseSecretKey seed32"]
    mldsa_secret.pem_round_trip [OF assms(2), of "mldsa_ParseSecretKey seed32" P]
    xdsa_secret.pem_round_trip [OF assms(2) xdsa_ParseSecretKey_ok [OF assms(4)]]
    xhpke_secret.pem_round_trip [OF assms(2), of "xhpke_ParseSecretKey seed32"]
    eddsa_public.pem_round_trip [OF assms(2) eddsa_PublicKey_ok [OF assms(1)]]
    mldsa_public.pem_round_trip [OF assms(2) mldsa_PublicKey_ok [OF assms(1)]]
    xdsa_public.pem_round_trip [OF assms(2) xdsa_PublicKey_ok [OF assms(1)]]
    xhpke_public.pem_round_trip [OF assms(2) xhpke_PublicKey_ok [OF assms(1)]] assms(3)
  by (simp add: strict_points_id [OF assms(1)] strict_expanded_id [OF assms(1)]
      eddsa_ParseSecretKeyPEM_def eddsa_SecretKey_MarshalPEM_def mldsa_ParseSecretKeyPEM_def mldsa_SecretKey_MarshalPEM_def
      xdsa_ParseSecretKeyPEM_def xdsa_SecretKey_MarshalPEM_def xhpke_ParseSecretKeyPEM_def xhpke_SecretKey_MarshalPEM_def
      eddsa_ParsePublicKeyPEM_def eddsa_PublicKey_MarshalPEM_def mldsa_ParsePublicKeyPEM_def mldsa_PublicKey_MarshalPEM_def
      xdsa_ParsePublicKeyPEM_def xdsa_PublicKey_MarshalPEM_def xhpke_ParsePublicKeyPEM_def xhpke_PublicKey_MarshalPEM_def
      eddsa_secret_ok_def mldsa_secret_ok_def xhpke_secret_ok_def eddsa_ParseSecretKey_def mldsa_ParseSecretKey_def
      xhpke_ParseSecretKey_def)

lemma keys_pem_round_trip_witness:
  "xdsa_ParseSecretKeyPEM sample_reader (xdsa_SecretKey_MarshalPEM (xdsa_ParseSecretKey (replicate 64 7))) =
     Inr (xdsa_ParseSecretKey (replicate 64 7))"
  using keys_pem_round_trip [OF sample_primitives_ok sample_reader_ok, of "replicate 32 7" "replicate 64 7"] by simp

text \<open>C25: the text and CBOR forms of public keys are strict. Text is accepted exactly if it is the
  base64 of a valid key's encoding, and \<^verbatim>\<open>UnmarshalCBOR\<close> reads a key exactly from what
  \<^verbatim>\<open>MarshalCBOR\<close> writes for it, advancing past it and no further.\<close>

theorem public_keys_strict:
  assumes "primitives_ok P"
  shows "(eddsa_PublicKey_UnmarshalText P text = Inr ek \<longleftrightarrow> eddsa_public_ok P ek \<and> text = eddsa_PublicKey_MarshalText ek) \<and>
    (mldsa_PublicKey_UnmarshalText text = Inr mk \<longleftrightarrow> mldsa_public_ok mk \<and> text = mldsa_PublicKey_MarshalText mk) \<and>
    (xdsa_PublicKey_UnmarshalText P text = Inr xk \<longleftrightarrow> xdsa_public_ok P xk \<and> text = xdsa_PublicKey_MarshalText xk) \<and>
    (xhpke_PublicKey_UnmarshalText P text = Inr hk \<longleftrightarrow> xhpke_public_ok P hk \<and> text = xhpke_PublicKey_MarshalText hk) \<and>
    (eddsa_UnmarshalCBOR P (at_pos pre s) = (Inr ek, at_pos pre' s') \<longleftrightarrow>
       eddsa_public_ok P ek \<and> eddsa_MarshalCBOR ek \<lparr>buf = pre\<rparr> = (Inr (), \<lparr>buf = pre'\<rparr>) \<and> pre @ s = pre' @ s') \<and>
    (mldsa_UnmarshalCBOR (at_pos pre s) = (Inr mk, at_pos pre' s') \<longleftrightarrow>
       mldsa_public_ok mk \<and> mldsa_MarshalCBOR mk \<lparr>buf = pre\<rparr> = (Inr (), \<lparr>buf = pre'\<rparr>) \<and> pre @ s = pre' @ s') \<and>
    (xdsa_UnmarshalCBOR P (at_pos pre s) = (Inr xk, at_pos pre' s') \<longleftrightarrow>
       xdsa_public_ok P xk \<and> xdsa_MarshalCBOR xk \<lparr>buf = pre\<rparr> = (Inr (), \<lparr>buf = pre'\<rparr>) \<and> pre @ s = pre' @ s') \<and>
    (xhpke_UnmarshalCBOR P (at_pos pre s) = (Inr hk, at_pos pre' s') \<longleftrightarrow>
       xhpke_public_ok P hk \<and> xhpke_MarshalCBOR hk \<lparr>buf = pre\<rparr> = (Inr (), \<lparr>buf = pre'\<rparr>) \<and> pre @ s = pre' @ s')"
  using eddsa_public.text_form [of P "text" ek, unfolded strict_points_id [OF assms]] mldsa_public.text_form [of "text" mk]
    xdsa_public.text_form [of P "text" xk, unfolded strict_points_id [OF assms]] xhpke_public.text_form [of P "text" hk]
    eddsa_public.cbor_exact [of P pre s ek pre' s', unfolded strict_points_id [OF assms]] mldsa_public.cbor_exact [of pre s mk pre' s']
    xdsa_public.cbor_exact [of P pre s xk pre' s', unfolded strict_points_id [OF assms]] xhpke_public.cbor_exact [of P pre s hk pre' s']
  by (simp add: cbor_lift_def
      eddsa_PublicKey_UnmarshalText_def eddsa_PublicKey_MarshalText_def eddsa_UnmarshalCBOR_def eddsa_MarshalCBOR_def
      mldsa_PublicKey_UnmarshalText_def mldsa_PublicKey_MarshalText_def mldsa_UnmarshalCBOR_def mldsa_MarshalCBOR_def
      xdsa_PublicKey_UnmarshalText_def xdsa_PublicKey_MarshalText_def xdsa_UnmarshalCBOR_def xdsa_MarshalCBOR_def
      xhpke_PublicKey_UnmarshalText_def xhpke_PublicKey_MarshalText_def xhpke_UnmarshalCBOR_def xhpke_MarshalCBOR_def key_consts
      del: sum.case_eq_if)

lemma public_keys_strict_witness:
  "xhpke_PublicKey_UnmarshalText sample_primitives (xhpke_PublicKey_MarshalText \<lparr>hpk_key = replicate 1216 1\<rparr>) =
     Inr \<lparr>hpk_key = replicate 1216 1\<rparr>"
  using public_keys_strict [OF sample_primitives_ok, of "xhpke_PublicKey_MarshalText \<lparr>hpk_key = replicate 1216 1\<rparr>"]
  by (simp add: xhpke_public_ok_def sample_primitives_def)

end
