(* ===== verification/Cose.thy ===== *)
theory Cose
  imports Cose_Messages Xhpke
begin

text \<open>
  The operations of \<^verbatim>\<open>src/cose/cose.go\<close>. The application's messages are Go values with their type
  and go through the CBOR marshaller with the application's hooks \<open>hk\<close>; COSE's own structs have
  none. \<^verbatim>\<open>time.Now().Unix()\<close> and the randomness of HPKE are arguments, a panic is the error
  \<open>Panic\<close>.
\<close>

section \<open>Constants, errors, domains\<close>

definition DomainPrefix :: bytes where
  "DomainPrefix = ascii ''dark-bio-v1:''"

definition algorithmXDSA :: i64 where "algorithmXDSA = -70000"
definition algorithmXHPKE :: i64 where "algorithmXHPKE = -70001"
definition HeaderTimestamp :: i64 where "HeaderTimestamp = -70002"

lemmas cose_consts = algorithmXDSA_def algorithmXHPKE_def HeaderTimestamp_def

datatype cose_error =
    CborErr cbor_error
  | ErrUnexpectedAlgorithm
  | ErrUnexpectedKey
  | ErrUnexpectedPayload
  | ErrMissingPayload
  | ErrInvalidSignature
  | ErrStaleSignature
  | ErrInvalidEncapKeySize
  | ErrDecryptionFailed
  | Panic

type_synonym 'c any = "gtype \<times> 'c gval"

definition marshal_any :: "'c hooks \<Rightarrow> 'c any \<Rightarrow> cose_error + bytes" where
  "marshal_any hk m = (case Marshal hk (fst m) (snd m) of Inl e \<Rightarrow> Inl (CborErr e) | Inr bs \<Rightarrow> Inr bs)"

section \<open>Signing\<close>

text \<open>
  \<^verbatim>\<open>signature, _ := signer.Sign(toBeSigned)\<close> drops the signer's error; the nil pointer it comes with
  is dereferenced a few lines later.
\<close>

definition signAt :: "'r primitives \<Rightarrow> bytes \<Rightarrow> bytes \<Rightarrow> xdsa_signer \<Rightarrow> bytes \<Rightarrow> i64 \<Rightarrow> cose_error + bytes" where
  "signAt P msgToEmbed msgToAuth signer domain timestamp =
     (case marshal_ref sigAAD (sig_aad_val (DomainPrefix @ domain) msgToAuth) of
        Inl _ \<Rightarrow> Inl Panic
      | Inr aad \<Rightarrow>
     (case marshal_ref sigProtectedHeader (sig_header_val \<lparr>sh_algorithm = algorithmXDSA, sh_crit = HeaderTimestamp,
          sh_kid = xdsa_Fingerprint P (sg_public signer), sh_timestamp = timestamp\<rparr>) of
        Inl _ \<Rightarrow> Inl Panic
      | Inr protected \<Rightarrow>
     (case marshal_ref sigStructure (sig_structure_val (ascii ''Signature1'') protected aad msgToEmbed) of
        Inl _ \<Rightarrow> Inl Panic
      | Inr toBeSigned \<Rightarrow>
     (case sg_sign signer toBeSigned of
        Inl _ \<Rightarrow> Inl Panic
      | Inr signature \<Rightarrow>
     (case marshal_ref coseSign1 (sign1_val \<lparr>s1_protected = protected, s1_payload = Some msgToEmbed, s1_signature = signature\<rparr>) of
        Inl _ \<Rightarrow> Inl Panic
      | Inr result \<Rightarrow> Inr result)))))"

definition signDetachedAt :: "'r primitives \<Rightarrow> bytes \<Rightarrow> xdsa_signer \<Rightarrow> bytes \<Rightarrow> i64 \<Rightarrow> cose_error + bytes" where
  "signDetachedAt P msgToAuth signer domain timestamp =
     (case marshal_ref sigAAD (sig_aad_val (DomainPrefix @ domain) msgToAuth) of
        Inl _ \<Rightarrow> Inl Panic
      | Inr aad \<Rightarrow>
     (case marshal_ref sigProtectedHeader (sig_header_val \<lparr>sh_algorithm = algorithmXDSA, sh_crit = HeaderTimestamp,
          sh_kid = xdsa_Fingerprint P (sg_public signer), sh_timestamp = timestamp\<rparr>) of
        Inl _ \<Rightarrow> Inl Panic
      | Inr protected \<Rightarrow>
     (case marshal_ref sigStructure (sig_structure_val (ascii ''Signature1'') protected aad []) of
        Inl _ \<Rightarrow> Inl Panic
      | Inr toBeSigned \<Rightarrow>
     (case sg_sign signer toBeSigned of
        Inl _ \<Rightarrow> Inl Panic
      | Inr signature \<Rightarrow>
     (case marshal_ref coseSign1 (sign1_val \<lparr>s1_protected = protected, s1_payload = None, s1_signature = signature\<rparr>) of
        Inl _ \<Rightarrow> Inl Panic
      | Inr result \<Rightarrow> Inr result)))))"

definition SignAt :: "'c hooks \<Rightarrow> 'r primitives \<Rightarrow> 'c any \<Rightarrow> 'c any \<Rightarrow> xdsa_signer \<Rightarrow> bytes \<Rightarrow> i64 \<Rightarrow> cose_error + bytes" where
  "SignAt hk P msgToEmbed msgToAuth signer domain timestamp =
     (case marshal_any hk msgToEmbed of
        Inl e \<Rightarrow> Inl e
      | Inr emb \<Rightarrow>
          (case marshal_any hk msgToAuth of
             Inl e \<Rightarrow> Inl e
           | Inr auth \<Rightarrow> signAt P emb auth signer domain timestamp))"

definition SignDetachedAt :: "'c hooks \<Rightarrow> 'r primitives \<Rightarrow> 'c any \<Rightarrow> xdsa_signer \<Rightarrow> bytes \<Rightarrow> i64 \<Rightarrow> cose_error + bytes" where
  "SignDetachedAt hk P msgToAuth signer domain timestamp =
     (case marshal_any hk msgToAuth of
        Inl e \<Rightarrow> Inl e
      | Inr auth \<Rightarrow> signDetachedAt P auth signer domain timestamp)"

definition Sign :: "'c hooks \<Rightarrow> 'r primitives \<Rightarrow> i64 \<Rightarrow> 'c any \<Rightarrow> 'c any \<Rightarrow> xdsa_signer \<Rightarrow> bytes \<Rightarrow> cose_error + bytes" where
  "Sign hk P unix_now msgToEmbed msgToAuth signer domain = SignAt hk P msgToEmbed msgToAuth signer domain unix_now"

definition SignDetached :: "'c hooks \<Rightarrow> 'r primitives \<Rightarrow> i64 \<Rightarrow> 'c any \<Rightarrow> xdsa_signer \<Rightarrow> bytes \<Rightarrow> cose_error + bytes" where
  "SignDetached hk P unix_now msgToAuth signer domain = SignDetachedAt hk P msgToAuth signer domain unix_now"

section \<open>Verifying\<close>

definition verifySigProtectedHeader :: "'r primitives \<Rightarrow> bytes \<Rightarrow> i64 \<Rightarrow> xdsa_public \<Rightarrow> cose_error + sig_header" where
  "verifySigProtectedHeader P data0 expectedAlg verifier =
     (case unmarshal_as sigProtectedHeader sig_header_of data0 of
        Inl e \<Rightarrow> Inl (CborErr e)
      | Inr header \<Rightarrow>
          if sh_algorithm header \<noteq> expectedAlg then Inl ErrUnexpectedAlgorithm
          else if sh_crit header \<noteq> HeaderTimestamp then Inl ErrUnexpectedAlgorithm
          else if sh_kid header \<noteq> xdsa_Fingerprint P verifier then Inl ErrUnexpectedKey
          else Inr header)"

text \<open>The drift check in 64-bit arithmetic: both the subtraction and the negation can wrap.\<close>

definition stale :: "u64 option \<Rightarrow> i64 \<Rightarrow> i64 \<Rightarrow> bool" where
  "stale maxDrift now timestamp =
     (case maxDrift of
        None \<Rightarrow> False
      | Some m \<Rightarrow>
          let drift = now - timestamp;
              drift = (if drift <s 0 then - drift else drift)
          in m < drift)"

definition verify :: "'r primitives \<Rightarrow> bytes \<Rightarrow> bytes \<Rightarrow> xdsa_public \<Rightarrow> bytes \<Rightarrow> u64 option \<Rightarrow> i64 \<Rightarrow> cose_error + bytes" where
  "verify P msgToCheck msgToAuth verifier domain maxDrift now =
     (case marshal_ref sigAAD (sig_aad_val (DomainPrefix @ domain) msgToAuth) of
        Inl e \<Rightarrow> Inl (CborErr e)
      | Inr aad \<Rightarrow>
     (case unmarshal_as coseSign1 sign1_of msgToCheck of
        Inl e \<Rightarrow> Inl (CborErr e)
      | Inr sign1 \<Rightarrow>
     (case s1_payload sign1 of
        None \<Rightarrow> Inl ErrMissingPayload
      | Some payload \<Rightarrow>
     (case verifySigProtectedHeader P (s1_protected sign1) algorithmXDSA verifier of
        Inl e \<Rightarrow> Inl e
      | Inr header \<Rightarrow>
          if stale maxDrift now (sh_timestamp header) then Inl ErrStaleSignature
          else
            let toBeSigned =
              (case marshal_ref sigStructure (sig_structure_val (ascii ''Signature1'') (s1_protected sign1) aad payload) of
                 Inl _ \<Rightarrow> [] | Inr bs \<Rightarrow> bs)
            in case xdsa_Verify P verifier toBeSigned (s1_signature sign1) of
                 Inl _ \<Rightarrow> Inl ErrInvalidSignature
               | Inr _ \<Rightarrow> Inr payload))))"

definition verifyDetached :: "'r primitives \<Rightarrow> bytes \<Rightarrow> bytes \<Rightarrow> xdsa_public \<Rightarrow> bytes \<Rightarrow> u64 option \<Rightarrow> i64 \<Rightarrow> cose_error + unit" where
  "verifyDetached P msgToCheck msgToAuth verifier domain maxDrift now =
     (case marshal_ref sigAAD (sig_aad_val (DomainPrefix @ domain) msgToAuth) of
        Inl e \<Rightarrow> Inl (CborErr e)
      | Inr aad \<Rightarrow>
     (case unmarshal_as coseSign1 sign1_of msgToCheck of
        Inl e \<Rightarrow> Inl (CborErr e)
      | Inr sign1 \<Rightarrow>
          if s1_payload sign1 \<noteq> None then Inl ErrUnexpectedPayload
          else
     (case verifySigProtectedHeader P (s1_protected sign1) algorithmXDSA verifier of
        Inl e \<Rightarrow> Inl e
      | Inr header \<Rightarrow>
          if stale maxDrift now (sh_timestamp header) then Inl ErrStaleSignature
          else
            let toBeSigned =
              (case marshal_ref sigStructure (sig_structure_val (ascii ''Signature1'') (s1_protected sign1) aad []) of
                 Inl _ \<Rightarrow> [] | Inr bs \<Rightarrow> bs)
            in case xdsa_Verify P verifier toBeSigned (s1_signature sign1) of
                 Inl _ \<Rightarrow> Inl ErrInvalidSignature
               | Inr _ \<Rightarrow> Inr ())))"

text \<open>\<^verbatim>\<open>var result T; cbor.Unmarshal(payload, &result)\<close>\<close>

definition unmarshal_any :: "'c hooks \<Rightarrow> gtype \<Rightarrow> bytes \<Rightarrow> cose_error + 'c gval" where
  "unmarshal_any hk ty payload = (case Unmarshal hk payload ty (zero_val hk ty) of Inl e \<Rightarrow> Inl (CborErr e) | Inr v \<Rightarrow> Inr v)"

definition VerifyAt :: "'c hooks \<Rightarrow> 'r primitives \<Rightarrow> gtype \<Rightarrow> bytes \<Rightarrow> 'c any \<Rightarrow> xdsa_public \<Rightarrow> bytes \<Rightarrow> u64 option \<Rightarrow> i64 \<Rightarrow>
    cose_error + 'c gval" where
  "VerifyAt hk P ty msgToCheck msgToAuth verifier domain maxDrift now =
     (case marshal_any hk msgToAuth of
        Inl e \<Rightarrow> Inl e
      | Inr auth \<Rightarrow>
          (case verify P msgToCheck auth verifier domain maxDrift now of
             Inl e \<Rightarrow> Inl e
           | Inr payload \<Rightarrow> unmarshal_any hk ty payload))"

definition VerifyDetachedAt :: "'c hooks \<Rightarrow> 'r primitives \<Rightarrow> bytes \<Rightarrow> 'c any \<Rightarrow> xdsa_public \<Rightarrow> bytes \<Rightarrow> u64 option \<Rightarrow> i64 \<Rightarrow>
    cose_error + unit" where
  "VerifyDetachedAt hk P msgToCheck msgToAuth verifier domain maxDrift now =
     (case marshal_any hk msgToAuth of
        Inl e \<Rightarrow> Inl e
      | Inr auth \<Rightarrow> verifyDetached P msgToCheck auth verifier domain maxDrift now)"

definition cose_Verify :: "'c hooks \<Rightarrow> 'r primitives \<Rightarrow> i64 \<Rightarrow> gtype \<Rightarrow> bytes \<Rightarrow> 'c any \<Rightarrow> xdsa_public \<Rightarrow> bytes \<Rightarrow> u64 option \<Rightarrow>
    cose_error + 'c gval" where
  "cose_Verify hk P unix_now ty msgToCheck msgToAuth verifier domain maxDrift =
     VerifyAt hk P ty msgToCheck msgToAuth verifier domain maxDrift unix_now"

definition VerifyDetached :: "'c hooks \<Rightarrow> 'r primitives \<Rightarrow> i64 \<Rightarrow> bytes \<Rightarrow> 'c any \<Rightarrow> xdsa_public \<Rightarrow> bytes \<Rightarrow> u64 option \<Rightarrow>
    cose_error + unit" where
  "VerifyDetached hk P unix_now msgToCheck msgToAuth verifier domain maxDrift =
     VerifyDetachedAt hk P msgToCheck msgToAuth verifier domain maxDrift unix_now"

definition Signer :: "bytes \<Rightarrow> cose_error + bytes" where
  "Signer signature =
     (case unmarshal_as coseSign1 sign1_of signature of
        Inl e \<Rightarrow> Inl (CborErr e)
      | Inr sign1 \<Rightarrow>
          (case unmarshal_as sigProtectedHeader sig_header_of (s1_protected sign1) of
             Inl e \<Rightarrow> Inl (CborErr e)
           | Inr header \<Rightarrow> Inr (sh_kid header)))"

definition Peek :: "'c hooks \<Rightarrow> gtype \<Rightarrow> bytes \<Rightarrow> cose_error + 'c gval" where
  "Peek hk ty signature =
     (case unmarshal_as coseSign1 sign1_of signature of
        Inl e \<Rightarrow> Inl (CborErr e)
      | Inr sign1 \<Rightarrow>
          (case s1_payload sign1 of
             None \<Rightarrow> Inl ErrMissingPayload
           | Some payload \<Rightarrow> unmarshal_any hk ty payload))"

section \<open>Encrypting\<close>

text \<open>A failure of \<^verbatim>\<open>Seal\<close> is reported as \<^verbatim>\<open>ErrDecryptionFailed\<close>.\<close>

definition Encrypt :: "'c hooks \<Rightarrow> 'r primitives \<Rightarrow> 'r \<Rightarrow> bytes \<Rightarrow> 'c any \<Rightarrow> xhpke_public \<Rightarrow> bytes \<Rightarrow> cose_error + bytes" where
  "Encrypt hk P rnd sign1 msgToAuth recipient domain =
     (case marshal_any hk msgToAuth of
        Inl e \<Rightarrow> Inl e
      | Inr auth \<Rightarrow>
     (case marshal_ref encProtectedHeader (enc_header_val \<lparr>eh_algorithm = algorithmXHPKE, eh_kid = xhpke_Fingerprint P recipient\<rparr>) of
        Inl _ \<Rightarrow> Inl Panic
      | Inr protected \<Rightarrow>
     (case marshal_ref encStructure (enc_structure_val (ascii ''Encrypt0'') protected auth) of
        Inl _ \<Rightarrow> Inl Panic
      | Inr aad \<Rightarrow>
     (case xhpke_Seal P rnd recipient sign1 aad (DomainPrefix @ domain) of
        Inl _ \<Rightarrow> Inl ErrDecryptionFailed
      | Inr (encapKey, ciphertext) \<Rightarrow>
     (case marshal_ref coseEncrypt0 (encrypt0_val \<lparr>e0_protected = protected, e0_encapKey = encapKey, e0_ciphertext = ciphertext\<rparr>) of
        Inl _ \<Rightarrow> Inl Panic
      | Inr result \<Rightarrow> Inr result)))))"

definition SealAt :: "'c hooks \<Rightarrow> 'r primitives \<Rightarrow> 'r \<Rightarrow> 'c any \<Rightarrow> 'c any \<Rightarrow> xdsa_signer \<Rightarrow> xhpke_public \<Rightarrow> bytes \<Rightarrow> i64 \<Rightarrow>
    cose_error + bytes" where
  "SealAt hk P rnd msgToSeal msgToAuth signer recipient domain timestamp =
     (case marshal_any hk msgToSeal of
        Inl e \<Rightarrow> Inl e
      | Inr seal \<Rightarrow>
     (case marshal_any hk msgToAuth of
        Inl e \<Rightarrow> Inl e
      | Inr auth \<Rightarrow>
     (case signAt P seal auth signer domain timestamp of
        Inl e \<Rightarrow> Inl e
      | Inr inner \<Rightarrow> Encrypt hk P rnd inner (TRaw, VBytes (Some auth)) recipient domain)))"

definition Seal :: "'c hooks \<Rightarrow> 'r primitives \<Rightarrow> i64 \<Rightarrow> 'r \<Rightarrow> 'c any \<Rightarrow> 'c any \<Rightarrow> xdsa_signer \<Rightarrow> xhpke_public \<Rightarrow> bytes \<Rightarrow>
    cose_error + bytes" where
  "Seal hk P unix_now rnd msgToSeal msgToAuth signer recipient domain =
     SealAt hk P rnd msgToSeal msgToAuth signer recipient domain unix_now"

definition verifyEncProtectedHeader :: "'r primitives \<Rightarrow> bytes \<Rightarrow> i64 \<Rightarrow> xhpke_secret \<Rightarrow> cose_error + unit" where
  "verifyEncProtectedHeader P data0 expectedAlg recipient =
     (case unmarshal_as encProtectedHeader enc_header_of data0 of
        Inl e \<Rightarrow> Inl (CborErr e)
      | Inr header \<Rightarrow>
          if eh_algorithm header \<noteq> expectedAlg then Inl ErrUnexpectedAlgorithm
          else if eh_kid header \<noteq> xhpke_SecretKey_Fingerprint P recipient then Inl ErrUnexpectedKey
          else Inr ())"

definition Decrypt :: "'c hooks \<Rightarrow> 'r primitives \<Rightarrow> bytes \<Rightarrow> 'c any \<Rightarrow> xhpke_secret \<Rightarrow> bytes \<Rightarrow> cose_error + bytes" where
  "Decrypt hk P msgToOpen msgToAuth recipient domain =
     (case marshal_any hk msgToAuth of
        Inl e \<Rightarrow> Inl e
      | Inr auth \<Rightarrow>
     (case unmarshal_as coseEncrypt0 encrypt0_of msgToOpen of
        Inl e \<Rightarrow> Inl (CborErr e)
      | Inr encrypt0 \<Rightarrow>
     (case verifyEncProtectedHeader P (e0_protected encrypt0) algorithmXHPKE recipient of
        Inl e \<Rightarrow> Inl e
      | Inr _ \<Rightarrow>
          if length (e0_encapKey encrypt0) \<noteq> xhpke_EncapKeySize then Inl ErrInvalidEncapKeySize
          else
     (case marshal_ref encStructure (enc_structure_val (ascii ''Encrypt0'') (e0_protected encrypt0) auth) of
        Inl _ \<Rightarrow> Inl Panic
      | Inr aad \<Rightarrow>
     (case xhpke_Open P recipient (fixed xhpke_EncapKeySize (e0_encapKey encrypt0)) (e0_ciphertext encrypt0) aad (DomainPrefix @ domain) of
        Inl _ \<Rightarrow> Inl ErrDecryptionFailed
      | Inr inner \<Rightarrow> Inr inner)))))"

definition OpenAt :: "'c hooks \<Rightarrow> 'r primitives \<Rightarrow> gtype \<Rightarrow> bytes \<Rightarrow> 'c any \<Rightarrow> xhpke_secret \<Rightarrow> xdsa_public \<Rightarrow> bytes \<Rightarrow>
    u64 option \<Rightarrow> i64 \<Rightarrow> cose_error + 'c gval" where
  "OpenAt hk P ty msgToOpen msgToAuth recipient sender domain maxDrift now =
     (case Decrypt hk P msgToOpen msgToAuth recipient domain of
        Inl e \<Rightarrow> Inl e
      | Inr inner \<Rightarrow> VerifyAt hk P ty inner msgToAuth sender domain maxDrift now)"

definition Open :: "'c hooks \<Rightarrow> 'r primitives \<Rightarrow> i64 \<Rightarrow> gtype \<Rightarrow> bytes \<Rightarrow> 'c any \<Rightarrow> xhpke_secret \<Rightarrow> xdsa_public \<Rightarrow> bytes \<Rightarrow>
    u64 option \<Rightarrow> cose_error + 'c gval" where
  "Open hk P unix_now ty msgToOpen msgToAuth recipient sender domain maxDrift =
     OpenAt hk P ty msgToOpen msgToAuth recipient sender domain maxDrift unix_now"

definition Recipient :: "bytes \<Rightarrow> cose_error + bytes" where
  "Recipient ciphertext =
     (case unmarshal_as coseEncrypt0 encrypt0_of ciphertext of
        Inl e \<Rightarrow> Inl (CborErr e)
      | Inr encrypt0 \<Rightarrow>
          (case unmarshal_as encProtectedHeader enc_header_of (e0_protected encrypt0) of
             Inl e \<Rightarrow> Inl (CborErr e)
           | Inr header \<Rightarrow> Inr (eh_kid header)))"

section \<open>What is signed and what is written\<close>

definition cose_header :: "'r primitives \<Rightarrow> xdsa_public \<Rightarrow> i64 \<Rightarrow> sig_header" where
  "cose_header P pk timestamp = \<lparr>sh_algorithm = algorithmXDSA, sh_crit = HeaderTimestamp,
     sh_kid = xdsa_Fingerprint P pk, sh_timestamp = timestamp\<rparr>"

definition enc_cose_header :: "'r primitives \<Rightarrow> xhpke_public \<Rightarrow> enc_header" where
  "enc_cose_header P pk = \<lparr>eh_algorithm = algorithmXHPKE, eh_kid = xhpke_Fingerprint P pk\<rparr>"

definition to_be_signed :: "bytes \<Rightarrow> bytes \<Rightarrow> bytes \<Rightarrow> bytes \<Rightarrow> bytes" where
  "to_be_signed domain auth protected payload =
     sig_structure_wire (ascii ''Signature1'') protected (sig_aad_wire (DomainPrefix @ domain) auth) payload"

definition sealed_aad :: "bytes \<Rightarrow> bytes \<Rightarrow> bytes" where
  "sealed_aad protected auth = enc_structure_wire (ascii ''Encrypt0'') protected auth"

definition cose_message :: "'r primitives \<Rightarrow> xdsa_public \<Rightarrow> i64 \<Rightarrow> bytes option \<Rightarrow> bytes \<Rightarrow> bytes" where
  "cose_message P pk timestamp payload signature =
     sign1_wire \<lparr>s1_protected = sig_header_wire (cose_header P pk timestamp), s1_payload = payload, s1_signature = signature\<rparr>"

definition cose_sealed :: "'r primitives \<Rightarrow> xhpke_public \<Rightarrow> bytes \<Rightarrow> bytes \<Rightarrow> bytes" where
  "cose_sealed P pk encapKey ciphertext =
     encrypt0_wire \<lparr>e0_protected = enc_header_wire (enc_cose_header P pk), e0_encapKey = encapKey, e0_ciphertext = ciphertext\<rparr>"

lemma contexts_valid: "utf8_valid (ascii ''Signature1'')" "utf8_valid (ascii ''Encrypt0'')"
  by code_simp+

lemma length_enc_head: "length (enc_head m n) \<le> 9"
  by (simp add: enc_head_eq)

lemma length_fingerprint: "primitives_ok P \<Longrightarrow> length (xdsa_Fingerprint P pk) = 32" "primitives_ok P \<Longrightarrow> length (xhpke_Fingerprint P hpk) = 32"
  by (simp_all add: xdsa_Fingerprint_def xhpke_Fingerprint_def primitives_okD)

lemma length_wire_int: "length (wire_int n) \<le> 9"
  by (simp add: wire_int_def length_enc_head)

lemma length_wire_bytes: "length (wire_bytes bs) \<le> 9 + length bs"
  by (simp add: wire_bytes_def length_enc_head)

lemma header_go: "length (sh_kid h) = 32 \<Longrightarrow> go_slice (sig_header_wire h)" "length (eh_kid e) = 32 \<Longrightarrow> go_slice (enc_header_wire e)"
proof -
  note l = length_wire_int length_wire_bytes length_enc_head
  assume "length (sh_kid h) = 32"
  then have "length (sig_header_wire h) \<le> 200"
    using l(1) [of 1] l(1) [of "sh_algorithm h"] l(1) [of 2] l(1) [of "sh_crit h"] l(1) [of 4] l(2) [of "sh_kid h"]
      l(1) [of "-70002"] l(1) [of "sh_timestamp h"] l(3) [of majorMap 4] l(3) [of majorArray 1]
    unfolding sig_header_wire_def wire_map_def wire_array_def by simp
  then show "go_slice (sig_header_wire h)" by (simp add: go_slice_def max_int_def)
next
  note l = length_wire_int length_wire_bytes length_enc_head
  assume "length (eh_kid e) = 32"
  then have "length (enc_header_wire e) \<le> 200"
    using l(1) [of 1] l(1) [of "eh_algorithm e"] l(1) [of 4] l(2) [of "eh_kid e"] l(3) [of majorMap 2]
    unfolding enc_header_wire_def wire_map_def by simp
  then show "go_slice (enc_header_wire e)" by (simp add: go_slice_def max_int_def)
qed

lemma signAt_eq:
  "signAt P emb auth signer domain ts =
     (let h = sig_header_wire (cose_header P (sg_public signer) ts)
      in case sg_sign signer (to_be_signed domain auth h emb) of
           Inl _ \<Rightarrow> Inl Panic
         | Inr s \<Rightarrow> Inr (cose_message P (sg_public signer) ts (Some emb) s))"
  by (simp add: signAt_def marshal_sig_aad sig_header.marshal marshal_sig_structure [OF contexts_valid(1)] sign1.marshal
      to_be_signed_def cose_header_def cose_message_def Let_def split: sum.splits)

lemma signDetachedAt_eq:
  "signDetachedAt P auth signer domain ts =
     (let h = sig_header_wire (cose_header P (sg_public signer) ts)
      in case sg_sign signer (to_be_signed domain auth h []) of
           Inl _ \<Rightarrow> Inl Panic
         | Inr s \<Rightarrow> Inr (cose_message P (sg_public signer) ts None s))"
  by (simp add: signDetachedAt_def marshal_sig_aad sig_header.marshal marshal_sig_structure [OF contexts_valid(1)] sign1.marshal
      to_be_signed_def cose_header_def cose_message_def Let_def split: sum.splits)

lemma parse_cose_message:
  assumes "primitives_ok P" and "length sig = 3373" and "pred_option go_slice payload"
  shows "unmarshal_as coseSign1 sign1_of (cose_message P pk ts payload sig) =
    Inr \<lparr>s1_protected = sig_header_wire (cose_header P pk ts), s1_payload = payload, s1_signature = sig\<rparr>"
  unfolding cose_message_def
  by (rule sign1.parse_wire) (simp add: sign1_ok_def assms header_go length_fingerprint cose_header_def)

lemma parse_cose_header:
  "primitives_ok P \<Longrightarrow> unmarshal_as sigProtectedHeader sig_header_of (sig_header_wire (cose_header P pk ts)) = Inr (cose_header P pk ts)"
  by (rule sig_header.parse_wire) (simp add: sig_header_ok_def cose_header_def length_fingerprint)

lemma verifySigProtectedHeader_iff:
  assumes "primitives_ok P"
  shows "verifySigProtectedHeader P d algorithmXDSA pk = Inr h \<longleftrightarrow>
    h = cose_header P pk (sh_timestamp h) \<and> d = sig_header_wire h"
proof
  assume v: "verifySigProtectedHeader P d algorithmXDSA pk = Inr h"
  then have "unmarshal_as sigProtectedHeader sig_header_of d = Inr h"
    and h: "h = cose_header P pk (sh_timestamp h)"
    by (auto simp: verifySigProtectedHeader_def cose_header_def split: sum.splits if_splits)
  then have "d = sig_header_wire h" using sig_header.parse_only by blast
  with h show "h = cose_header P pk (sh_timestamp h) \<and> d = sig_header_wire h" by blast
next
  assume a: "h = cose_header P pk (sh_timestamp h) \<and> d = sig_header_wire h"
  then have "unmarshal_as sigProtectedHeader sig_header_of d = Inr h" using parse_cose_header [OF assms] by metis
  moreover have "sh_algorithm h = algorithmXDSA" "sh_crit h = HeaderTimestamp" "sh_kid h = xdsa_Fingerprint P pk"
    using a by (metis cose_header_def sig_header.select_convs)+
  ultimately show "verifySigProtectedHeader P d algorithmXDSA pk = Inr h" by (simp add: verifySigProtectedHeader_def)
qed

text \<open>
  Both verifiers accept exactly one shape of message; \<open>verify\<close> and \<open>verifyDetached\<close> differ in the
  payload only.
\<close>

lemma verify_iff:
  assumes "primitives_ok P"
  shows "verify P msg auth pk domain maxDrift now = Inr payload \<longleftrightarrow>
    (\<exists>ts sig. go_slice payload \<and> length sig = 3373 \<and> msg = cose_message P pk ts (Some payload) sig \<and>
       \<not> stale maxDrift now ts \<and>
       xdsa_Verify P pk (to_be_signed domain auth (sig_header_wire (cose_header P pk ts)) payload) sig = Inr ())"
    (is "_ \<longleftrightarrow> ?rhs")
proof
  assume v: "verify P msg auth pk domain maxDrift now = Inr payload"
  then obtain s h where u: "unmarshal_as coseSign1 sign1_of msg = Inr s" and p: "s1_payload s = Some payload"
    and h: "verifySigProtectedHeader P (s1_protected s) algorithmXDSA pk = Inr h" and st: "\<not> stale maxDrift now (sh_timestamp h)"
    and x: "xdsa_Verify P pk (to_be_signed domain auth (s1_protected s) payload) (s1_signature s) = Inr ()"
    by (auto simp: verify_def marshal_sig_aad marshal_sig_structure [OF contexts_valid(1)] to_be_signed_def Let_def
        split: sum.splits option.splits if_splits)
  from sign1.parse_only [OF u] have ok: "sign1_ok s" and msg: "msg = sign1_wire s" by blast+
  from h have eq: "h = cose_header P pk (sh_timestamp h)" and pr: "s1_protected s = sig_header_wire h"
    using verifySigProtectedHeader_iff [OF assms] by blast+
  have "msg = cose_message P pk (sh_timestamp h) (Some payload) (s1_signature s)"
    by (cases s) (use msg p pr eq in \<open>simp add: cose_message_def\<close>)
  moreover have "go_slice payload" "length (s1_signature s) = 3373" using ok p by (simp_all add: sign1_ok_def)
  ultimately show ?rhs using st x pr eq by metis
next
  assume ?rhs
  then obtain ts sig where a: "go_slice payload" "length sig = 3373" "msg = cose_message P pk ts (Some payload) sig"
    "\<not> stale maxDrift now ts"
    "xdsa_Verify P pk (to_be_signed domain auth (sig_header_wire (cose_header P pk ts)) payload) sig = Inr ()" by blast
  have h: "verifySigProtectedHeader P (sig_header_wire (cose_header P pk ts)) algorithmXDSA pk = Inr (cose_header P pk ts)"
    using verifySigProtectedHeader_iff [OF assms] by (simp add: cose_header_def)
  show "verify P msg auth pk domain maxDrift now = Inr payload"
    using a parse_cose_message [OF assms a(2), of "Some payload"]
    by (simp add: verify_def marshal_sig_aad marshal_sig_structure [OF contexts_valid(1)] h to_be_signed_def Let_def)
      (simp add: cose_header_def)
qed

lemma verifyDetached_iff:
  assumes "primitives_ok P"
  shows "verifyDetached P msg auth pk domain maxDrift now = Inr () \<longleftrightarrow>
    (\<exists>ts sig. length sig = 3373 \<and> msg = cose_message P pk ts None sig \<and> \<not> stale maxDrift now ts \<and>
       xdsa_Verify P pk (to_be_signed domain auth (sig_header_wire (cose_header P pk ts)) []) sig = Inr ())"
    (is "_ \<longleftrightarrow> ?rhs")
proof
  assume v: "verifyDetached P msg auth pk domain maxDrift now = Inr ()"
  then obtain s h where u: "unmarshal_as coseSign1 sign1_of msg = Inr s" and p: "s1_payload s = None"
    and h: "verifySigProtectedHeader P (s1_protected s) algorithmXDSA pk = Inr h" and st: "\<not> stale maxDrift now (sh_timestamp h)"
    and x: "xdsa_Verify P pk (to_be_signed domain auth (s1_protected s) []) (s1_signature s) = Inr ()"
    by (auto simp: verifyDetached_def marshal_sig_aad marshal_sig_structure [OF contexts_valid(1)] to_be_signed_def Let_def
        split: sum.splits option.splits if_splits)
  from sign1.parse_only [OF u] have ok: "sign1_ok s" and msg: "msg = sign1_wire s" by blast+
  from h have eq: "h = cose_header P pk (sh_timestamp h)" and pr: "s1_protected s = sig_header_wire h"
    using verifySigProtectedHeader_iff [OF assms] by blast+
  have "msg = cose_message P pk (sh_timestamp h) None (s1_signature s)"
    by (cases s) (use msg p pr eq in \<open>simp add: cose_message_def\<close>)
  moreover have "length (s1_signature s) = 3373" using ok by (simp add: sign1_ok_def)
  ultimately show ?rhs using st x pr eq by metis
next
  assume ?rhs
  then obtain ts sig where a: "length sig = 3373" "msg = cose_message P pk ts None sig" "\<not> stale maxDrift now ts"
    "xdsa_Verify P pk (to_be_signed domain auth (sig_header_wire (cose_header P pk ts)) []) sig = Inr ()" by blast
  have h: "verifySigProtectedHeader P (sig_header_wire (cose_header P pk ts)) algorithmXDSA pk = Inr (cose_header P pk ts)"
    using verifySigProtectedHeader_iff [OF assms] by (simp add: cose_header_def)
  show "verifyDetached P msg auth pk domain maxDrift now = Inr ()"
    using a parse_cose_message [OF assms a(1), of None]
    by (simp add: verifyDetached_def marshal_sig_aad marshal_sig_structure [OF contexts_valid(1)] h to_be_signed_def Let_def)
      (simp add: cose_header_def)
qed

section \<open>The drift check\<close>

lemma sint_bounds: "- (2 ^ 63) \<le> sint w" "sint w < 2 ^ 63" for w :: i64
  using sint_greater_eq [of w] sint_less [of w] by simp_all

lemma sint_wrapped: "- (2 ^ 63) \<le> x \<Longrightarrow> x < 2 ^ 63 \<Longrightarrow> sint (word_of_int x :: i64) = x"
  by (simp add: signed_of_int signed_take_bit_int_eq_self)

lemma uint_wrapped: "0 \<le> x \<Longrightarrow> x < 2 ^ 64 \<Longrightarrow> uint (word_of_int x :: i64) = x"
  by (simp add: uint_word_of_int_eq take_bit_int_eq_self)

definition abs_word :: "i64 \<Rightarrow> u64" where
  "abs_word d = (if d <s 0 then - d else d)"

lemma uint_abs_word: "- (2 ^ 63) \<le> x \<Longrightarrow> x < 2 ^ 63 \<Longrightarrow> uint (abs_word (word_of_int x)) = \<bar>x\<bar>"
proof -
  assume x: "- (2 ^ 63) \<le> x" "x < 2 ^ 63"
  have "(word_of_int x :: i64) <s 0 \<longleftrightarrow> x < 0" using sint_wrapped [OF x] by (simp add: word_sless_alt)
  moreover have "- (word_of_int x :: i64) = word_of_int (- x)" by simp
  ultimately show ?thesis using x uint_wrapped [of x] uint_wrapped [of "- x"] unfolding abs_word_def
    by (cases "x < 0") (simp_all only: if_True if_False, simp_all)
qed

text \<open>The computed drift is the distance on the circle of 64-bit numbers.\<close>

lemma uint_drift:
  fixes n t :: i64
  defines "D \<equiv> sint n - sint t"
  shows "uint (abs_word (n - t)) = (if D < - (2 ^ 63) then D + 2 ^ 64 else if D < 2 ^ 63 then \<bar>D\<bar> else 2 ^ 64 - D)"
proof -
  have d: "n - t = word_of_int D" by (simp add: D_def)
  have D: "- (2 ^ 64) < D" "D < 2 ^ 64" using sint_bounds [of n] sint_bounds [of t] by (simp_all add: D_def)
  have w: "(word_of_int D :: i64) = word_of_int (D + 2 ^ 64)" "(word_of_int D :: i64) = word_of_int (D - 2 ^ 64)" by simp_all
  consider "D < - (2 ^ 63)" | "- (2 ^ 63) \<le> D" "D < 2 ^ 63" | "2 ^ 63 \<le> D" by linarith
  then show ?thesis
  proof cases
    case 1
    then have "uint (abs_word (word_of_int (D + 2 ^ 64))) = \<bar>D + 2 ^ 64\<bar>" using D by (intro uint_abs_word) simp_all
    with 1 D show ?thesis unfolding d w(1) by simp
  next
    case 2
    then have "uint (abs_word (word_of_int D)) = \<bar>D\<bar>" by (rule uint_abs_word)
    with 2 show ?thesis unfolding d by simp
  next
    case 3
    then have "uint (abs_word (word_of_int (D - 2 ^ 64))) = \<bar>D - 2 ^ 64\<bar>" using D by (intro uint_abs_word) simp_all
    with 3 D show ?thesis unfolding d w(2) by simp
  qed
qed

lemma stale_abs: "stale (Some m) now ts \<longleftrightarrow> uint m < uint (abs_word (now - ts))"
  by (simp add: stale_def abs_word_def Let_def word_less_def)

lemma stale_exact_iff:
  assumes "0 \<le> sint now"
  shows "(\<forall>ts. stale (Some m) now ts \<longleftrightarrow> uint m < \<bar>sint now - sint ts\<bar>) \<longleftrightarrow> uint m < 2 ^ 63 - sint now \<or> 2 ^ 63 + sint now \<le> uint m"
    (is "?exact \<longleftrightarrow> ?small \<or> ?large")
proof
  assume ?exact
  have s: "sint (word_of_int (- (2 ^ 63)) :: i64) = - (2 ^ 63)" by (rule sint_wrapped) simp_all
  have "uint (abs_word (now - word_of_int (- (2 ^ 63)))) = 2 ^ 63 - sint now"
    unfolding uint_drift s using assms by simp
  then have "stale (Some m) now (word_of_int (- (2 ^ 63))) \<longleftrightarrow> uint m < 2 ^ 63 - sint now" by (simp only: stale_abs)
  moreover have "stale (Some m) now (word_of_int (- (2 ^ 63))) \<longleftrightarrow> uint m < \<bar>sint now - (- (2 ^ 63))\<bar>"
    using \<open>?exact\<close> s by metis
  ultimately show "?small \<or> ?large" using assms by linarith
next
  assume a: "?small \<or> ?large"
  show ?exact
  proof
    fix ts
    have "uint (abs_word (now - ts)) = (if sint now - sint ts < 2 ^ 63 then \<bar>sint now - sint ts\<bar> else 2 ^ 64 - (sint now - sint ts))"
      using assms sint_bounds [of ts] by (simp add: uint_drift)
    then show "stale (Some m) now ts \<longleftrightarrow> uint m < \<bar>sint now - sint ts\<bar>"
      using a assms sint_bounds [of ts] unfolding stale_abs by (simp split: if_splits) linarith
  qed
qed

section \<open>What is signed determines the parts\<close>

lemma wire_bytes_inject:
  "go_slice x \<Longrightarrow> go_slice y \<Longrightarrow> wire_bytes x @ s = wire_bytes y @ t \<longleftrightarrow> x = y \<and> s = t"
  using bytes_codec.wire_prefix_free by blast

lemma wire_int_inject: "wire_int x @ s = wire_int y @ t \<longleftrightarrow> x = y \<and> s = t"
  using int_codec.wire_prefix_free [where x = x and y = y and s = s and t = t] by auto

lemma sig_header_wire_inject:
  assumes "sig_header_ok h" and "sig_header_ok h'"
  shows "sig_header_wire h = sig_header_wire h' \<longleftrightarrow> h = h'"
  using assms by (rule sig_header.enc_inject)

lemma enc_header_wire_inject:
  assumes "enc_header_ok h" and "enc_header_ok h'"
  shows "enc_header_wire h = enc_header_wire h' \<longleftrightarrow> h = h'"
  using assms by (rule enc_header.enc_inject)

lemma sig_structure_inject:
  assumes "go_slice p" "go_slice p'" "go_slice a" "go_slice a'" "go_slice d" "go_slice d'"
  shows "sig_structure_wire c p a d = sig_structure_wire c p' a' d' \<longleftrightarrow> p = p' \<and> a = a' \<and> d = d'"
  using wire_bytes_inject [OF assms(1,2)] wire_bytes_inject [OF assms(3,4)] wire_bytes_inject [OF assms(5,6), of "[]" "[]"]
  by (auto simp: sig_structure_wire_def)

lemma enc_structure_inject:
  assumes "go_slice p" "go_slice p'" "go_slice a" "go_slice a'"
  shows "enc_structure_wire c p a = enc_structure_wire c p' a' \<longleftrightarrow> p = p' \<and> a = a'"
  using wire_bytes_inject [OF assms(1,2)] wire_bytes_inject [OF assms(3,4), of "[]" "[]"]
  by (auto simp: enc_structure_wire_def)

lemma sig_aad_inject:
  "go_slice i \<Longrightarrow> go_slice i' \<Longrightarrow> sig_aad_wire i a = sig_aad_wire i' a' \<longleftrightarrow> i = i' \<and> a = a'"
  using wire_bytes_inject [of i i' a a'] by (simp add: sig_aad_wire_def)

lemma go_aad_info: "go_slice (sig_aad_wire i a) \<Longrightarrow> go_slice i"
  by (simp add: go_slice_def sig_aad_wire_def wire_bytes_def)

section \<open>Signing and verifying\<close>

lemma verify_signAt:
  assumes "primitives_ok P" and "signer_ok P signer" and "go_slice emb" and "\<not> stale maxDrift now ts"
  obtains sig where "length sig = 3373"
    and "signAt P emb auth signer domain ts = Inr (cose_message P (sg_public signer) ts (Some emb) sig)"
    and "verify P (cose_message P (sg_public signer) ts (Some emb) sig) auth (sg_public signer) domain maxDrift now = Inr emb"
proof -
  let ?tbs = "to_be_signed domain auth (sig_header_wire (cose_header P (sg_public signer) ts)) emb"
  obtain sig where s: "sg_sign signer ?tbs = Inr sig" "length sig = 3373" "xdsa_Verify P (sg_public signer) ?tbs sig = Inr ()"
    by (rule signerE [OF assms(2)])
  have "verify P (cose_message P (sg_public signer) ts (Some emb) sig) auth (sg_public signer) domain maxDrift now = Inr emb"
    unfolding verify_iff [OF assms(1)] using s assms(3,4) by blast
  then show thesis using s by (intro that [of sig]) (simp_all add: signAt_eq Let_def)
qed

lemma verify_signDetachedAt:
  assumes "primitives_ok P" and "signer_ok P signer" and "\<not> stale maxDrift now ts"
  obtains sig where "length sig = 3373"
    and "signDetachedAt P auth signer domain ts = Inr (cose_message P (sg_public signer) ts None sig)"
    and "verifyDetached P (cose_message P (sg_public signer) ts None sig) auth (sg_public signer) domain maxDrift now = Inr ()"
proof -
  let ?tbs = "to_be_signed domain auth (sig_header_wire (cose_header P (sg_public signer) ts)) []"
  obtain sig where s: "sg_sign signer ?tbs = Inr sig" "length sig = 3373" "xdsa_Verify P (sg_public signer) ?tbs sig = Inr ()"
    by (rule signerE [OF assms(2)])
  have "verifyDetached P (cose_message P (sg_public signer) ts None sig) auth (sg_public signer) domain maxDrift now = Inr ()"
    unfolding verifyDetached_iff [OF assms(1)] using s assms(3) by blast
  then show thesis using s by (intro that [of sig]) (simp_all add: signDetachedAt_eq Let_def)
qed

lemma Signer_message: "primitives_ok P \<Longrightarrow> length sig = 3373 \<Longrightarrow> pred_option go_slice p \<Longrightarrow>
    Signer (cose_message P pk ts p sig) = Inr (xdsa_Fingerprint P pk)"
  by (simp add: Signer_def parse_cose_message parse_cose_header) (simp add: cose_header_def)

lemma Peek_message: "primitives_ok P \<Longrightarrow> length sig = 3373 \<Longrightarrow> pred_option go_slice p \<Longrightarrow>
    Peek hk ty (cose_message P pk ts p sig) = (case p of None \<Rightarrow> Inl ErrMissingPayload | Some b \<Rightarrow> unmarshal_any hk ty b)"
  by (simp add: Peek_def parse_cose_message)

lemma wrong_kind:
  assumes "primitives_ok P" and "length sig = 3373"
  shows "verify P (cose_message P pk ts None sig) auth vk domain maxDrift now = Inl ErrMissingPayload"
    and "go_slice p \<Longrightarrow> verifyDetached P (cose_message P pk ts (Some p) sig) auth vk domain maxDrift now = Inl ErrUnexpectedPayload"
  using parse_cose_message [OF assms, of None pk ts] parse_cose_message [OF assms, of "Some p" pk ts]
  by (simp_all add: verify_def verifyDetached_def marshal_sig_aad)

section \<open>Sealed messages\<close>

lemma Encrypt_eq:
  "Encrypt hk P rnd inner auth pk domain =
     (case marshal_any hk auth of
        Inl e \<Rightarrow> Inl e
      | Inr a \<Rightarrow>
          (case xhpke_Seal P rnd pk inner (sealed_aad (enc_header_wire (enc_cose_header P pk)) a) (DomainPrefix @ domain) of
             Inl _ \<Rightarrow> Inl ErrDecryptionFailed
           | Inr (ek, c) \<Rightarrow> Inr (cose_sealed P pk ek c)))"
  by (simp add: Encrypt_def enc_header.marshal marshal_enc_structure [OF contexts_valid(2)] encrypt0.marshal
      sealed_aad_def enc_cose_header_def cose_sealed_def split: sum.splits prod.splits)

lemma parse_sealed:
  assumes "primitives_ok P" and "go_slice ek" and "go_slice c"
  shows "unmarshal_as coseEncrypt0 encrypt0_of (cose_sealed P pk ek c) =
    Inr \<lparr>e0_protected = enc_header_wire (enc_cose_header P pk), e0_encapKey = ek, e0_ciphertext = c\<rparr>"
  unfolding cose_sealed_def
  by (rule encrypt0.parse_wire) (simp add: encrypt0_ok_def assms header_go length_fingerprint enc_cose_header_def)

lemma parse_enc_header:
  "primitives_ok P \<Longrightarrow> unmarshal_as encProtectedHeader enc_header_of (enc_header_wire (enc_cose_header P pk)) = Inr (enc_cose_header P pk)"
  by (rule enc_header.parse_wire) (simp add: enc_header_ok_def enc_cose_header_def length_fingerprint)

lemma verifyEncProtectedHeader_iff:
  assumes "primitives_ok P"
  shows "verifyEncProtectedHeader P d algorithmXHPKE k = Inr () \<longleftrightarrow>
    d = enc_header_wire (enc_cose_header P (xhpke_SecretKey_PublicKey P k))"
proof
  assume v: "verifyEncProtectedHeader P d algorithmXHPKE k = Inr ()"
  then obtain h where "unmarshal_as encProtectedHeader enc_header_of d = Inr h"
    and h: "h = enc_cose_header P (xhpke_SecretKey_PublicKey P k)"
    by (auto simp: verifyEncProtectedHeader_def enc_cose_header_def xhpke_SecretKey_Fingerprint_def split: sum.splits if_splits)
  then show "d = enc_header_wire (enc_cose_header P (xhpke_SecretKey_PublicKey P k))" using enc_header.parse_only by blast
next
  assume "d = enc_header_wire (enc_cose_header P (xhpke_SecretKey_PublicKey P k))"
  then show "verifyEncProtectedHeader P d algorithmXHPKE k = Inr ()"
    using parse_enc_header [OF assms]
    by (simp add: verifyEncProtectedHeader_def xhpke_SecretKey_Fingerprint_def) (simp add: enc_cose_header_def)
qed

lemma Decrypt_iff:
  assumes "primitives_ok P" and "marshal_any hk auth = Inr a"
  shows "Decrypt hk P msg auth k domain = Inr inner \<longleftrightarrow>
    (\<exists>ek c. length ek = xhpke_EncapKeySize \<and> go_slice c \<and> msg = cose_sealed P (xhpke_SecretKey_PublicKey P k) ek c \<and>
       xhpke_Open P k ek c (sealed_aad (enc_header_wire (enc_cose_header P (xhpke_SecretKey_PublicKey P k))) a)
         (DomainPrefix @ domain) = Inr inner)"
    (is "_ \<longleftrightarrow> ?rhs")
proof
  assume "Decrypt hk P msg auth k domain = Inr inner"
  then obtain e where u: "unmarshal_as coseEncrypt0 encrypt0_of msg = Inr e"
    and v: "verifyEncProtectedHeader P (e0_protected e) algorithmXHPKE k = Inr ()"
    and l: "length (e0_encapKey e) = xhpke_EncapKeySize"
    and o: "xhpke_Open P k (e0_encapKey e) (e0_ciphertext e) (sealed_aad (e0_protected e) a) (DomainPrefix @ domain) = Inr inner"
    by (auto simp: Decrypt_def assms(2) marshal_enc_structure [OF contexts_valid(2)] sealed_aad_def split: sum.splits if_splits)
  from encrypt0.parse_only [OF u] have "encrypt0_ok e" "msg = encrypt0_wire e" by blast+
  moreover from v have "e0_protected e = enc_header_wire (enc_cose_header P (xhpke_SecretKey_PublicKey P k))"
    using verifyEncProtectedHeader_iff [OF assms(1)] by blast
  ultimately show ?rhs using l o
    by (intro exI [of _ "e0_encapKey e"] exI [of _ "e0_ciphertext e"]) (cases e, simp add: cose_sealed_def encrypt0_ok_def)
next
  assume ?rhs
  then obtain ek c where a: "length ek = xhpke_EncapKeySize" "go_slice c" "msg = cose_sealed P (xhpke_SecretKey_PublicKey P k) ek c"
    "xhpke_Open P k ek c (sealed_aad (enc_header_wire (enc_cose_header P (xhpke_SecretKey_PublicKey P k))) a)
         (DomainPrefix @ domain) = Inr inner" by blast
  have "go_slice ek" using a(1) by (simp add: go_slice_def max_int_def key_consts)
  note p = parse_sealed [OF assms(1) this a(2)]
  have "verifyEncProtectedHeader P (enc_header_wire (enc_cose_header P (xhpke_SecretKey_PublicKey P k))) algorithmXHPKE k = Inr ()"
    using verifyEncProtectedHeader_iff [OF assms(1)] by blast
  then show "Decrypt hk P msg auth k domain = Inr inner" using a
    by (simp add: p Decrypt_def assms(2) marshal_enc_structure [OF contexts_valid(2)] sealed_aad_def)
qed

lemma Decrypt_Encrypt:
  assumes "primitives_ok P" and "marshal_any hk auth = Inr a" and "length inner + 16 \<le> max_int"
  obtains msg where "Encrypt hk P rnd inner auth (xhpke_SecretKey_PublicKey P k) domain = Inr msg"
    and "Decrypt hk P msg auth k domain = Inr inner"
    and "Recipient msg = Inr (xhpke_Fingerprint P (xhpke_SecretKey_PublicKey P k))"
proof -
  let ?pk = "xhpke_SecretKey_PublicKey P k"
  let ?aad = "sealed_aad (enc_header_wire (enc_cose_header P ?pk)) a"
  obtain ek c where s: "xhpke_Seal P rnd ?pk inner ?aad (DomainPrefix @ domain) = Inr (ek, c)"
    "length ek = xhpke_EncapKeySize" "length c = length inner + 16"
    "xhpke_Open P k ek c ?aad (DomainPrefix @ domain) = Inr inner"
    by (rule xhpke_Open_Seal [OF assms(1)])
  have "go_slice c" "go_slice ek" using s(2,3) assms(3) by (simp_all add: go_slice_def max_int_def key_consts)
  then have "Decrypt hk P (cose_sealed P ?pk ek c) auth k domain = Inr inner"
    unfolding Decrypt_iff [OF assms(1,2)] using s by blast
  moreover have "Recipient (cose_sealed P ?pk ek c) = Inr (xhpke_Fingerprint P ?pk)"
    using parse_sealed [OF assms(1) \<open>go_slice ek\<close> \<open>go_slice c\<close>, of ?pk] parse_enc_header [OF assms(1), of ?pk]
    by (simp add: Recipient_def) (simp add: enc_cose_header_def)
  ultimately show thesis using s(1) by (intro that [of "cose_sealed P ?pk ek c"]) (simp_all add: Encrypt_eq assms(2))
qed

lemma length_cose_message:
  assumes "primitives_ok P" and "length sig = 3373"
  shows "length (cose_message P pk ts (Some emb) sig) \<le> length emb + 4000"
proof -
  let ?h = "sig_header_wire (cose_header P pk ts)"
  note l = length_wire_int length_wire_bytes length_enc_head
  have "length ?h \<le> 200"
    using l(1) [of 1] l(1) [of algorithmXDSA] l(1) [of 2] l(1) [of HeaderTimestamp] l(1) [of 4] l(2) [of "xdsa_Fingerprint P pk"]
      l(1) [of "-70002"] l(1) [of ts] l(3) [of majorMap 4] l(3) [of majorArray 1] length_fingerprint(1) [OF assms(1), of pk]
    unfolding sig_header_wire_def wire_map_def wire_array_def cose_header_def by simp
  then show ?thesis
    using l(2) [of ?h] l(2) [of emb] l(2) [of sig] l(3) [of majorArray 4] l(3) [of majorMap 0] assms(2)
    unfolding cose_message_def sign1_wire_def wire_map_def wire_array_def by simp
qed

lemma marshal_raw: "marshal_any hk (TRaw, VBytes (Some a)) = Inr a"
  by (simp add: marshal_any_def Marshal_def encode_leaf)

lemma unmarshal_marshalled:
  assumes "hooks_ok hk cok cw" and "val_ok hk cok (TPtr ty) (VPtr (Some v)) False" and "Marshal hk (TPtr ty) (VPtr (Some v)) = Inr emb"
  shows "unmarshal_any hk ty emb = Inr v"
  using Unmarshal_run [OF assms(1,2)] assms(3) by (auto simp: unmarshal_any_def)

section \<open>Properties\<close>

text \<open>C30: what is signed verifies. For every supported value, additional data, domain and timestamp
  within the allowed drift, \<^verbatim>\<open>SignAt\<close> succeeds and \<^verbatim>\<open>VerifyAt\<close> with the signer's public key returns the
  value; \<^verbatim>\<open>Signer\<close> gives the key's fingerprint and \<^verbatim>\<open>Peek\<close> the value. The same holds for detached
  signatures, and neither kind passes for the other.\<close>

theorem signed_round_trip:
  assumes "primitives_ok P" and "signer_ok P signer" and "hooks_ok hk cok cw"
    and "val_ok hk cok (TPtr ty) (VPtr (Some v)) False" and "Marshal hk (TPtr ty) (VPtr (Some v)) = Inr emb" and "go_slice emb"
    and "marshal_any hk auth = Inr a" and "\<not> stale maxDrift now ts"
  shows "\<exists>msg det. SignAt hk P (TPtr ty, VPtr (Some v)) auth signer domain ts = Inr msg \<and>
    VerifyAt hk P ty msg auth (sg_public signer) domain maxDrift now = Inr v \<and>
    Signer msg = Inr (xdsa_Fingerprint P (sg_public signer)) \<and> Peek hk ty msg = Inr v \<and>
    VerifyDetachedAt hk P msg auth (sg_public signer) domain maxDrift now = Inl ErrUnexpectedPayload \<and>
    SignDetachedAt hk P auth signer domain ts = Inr det \<and>
    VerifyDetachedAt hk P det auth (sg_public signer) domain maxDrift now = Inr () \<and>
    Signer det = Inr (xdsa_Fingerprint P (sg_public signer)) \<and> Peek hk ty det = Inl ErrMissingPayload \<and>
    VerifyAt hk P ty det auth (sg_public signer) domain maxDrift now = Inl ErrMissingPayload"
proof -
  let ?pk = "sg_public signer"
  obtain s where s: "length s = 3373" "signAt P emb a signer domain ts = Inr (cose_message P ?pk ts (Some emb) s)"
    "verify P (cose_message P ?pk ts (Some emb) s) a ?pk domain maxDrift now = Inr emb"
    by (rule verify_signAt [OF assms(1,2,6,8)])
  obtain d where d: "length d = 3373" "signDetachedAt P a signer domain ts = Inr (cose_message P ?pk ts None d)"
    "verifyDetached P (cose_message P ?pk ts None d) a ?pk domain maxDrift now = Inr ()"
    by (rule verify_signDetachedAt [OF assms(1,2,8)])
  have m: "marshal_any hk (TPtr ty, VPtr (Some v)) = Inr emb" by (simp add: marshal_any_def assms(5))
  show ?thesis
    using s d assms(6) unmarshal_marshalled [OF assms(3-5)]
    by (intro exI [of _ "cose_message P ?pk ts (Some emb) s"] exI [of _ "cose_message P ?pk ts None d"])
      (simp add: SignAt_def VerifyAt_def SignDetachedAt_def VerifyDetachedAt_def m assms(7) Signer_message [OF assms(1)]
        Peek_message [OF assms(1)] wrong_kind [OF assms(1)])
qed

text \<open>The keys and messages of the witnesses.\<close>

definition sample_signer :: xdsa_signer where
  "sample_signer = local_signer sample_primitives (xdsa_ParseSecretKey (replicate 64 5))"

lemma sample_message:
  "signer_ok sample_primitives sample_signer" "hooks_ok byte_hooks (\<lambda>nm. go_slice) (\<lambda>nm. wire_bytes)"
  "val_ok byte_hooks (\<lambda>nm. go_slice) (TPtr (TInt 64)) (VPtr (Some (VInt 5))) False"
  "Marshal byte_hooks (TPtr (TInt 64)) (VPtr (Some (VInt 5))) = Inr (wire_int 5)" "go_slice (wire_int n)"
  "marshal_any byte_hooks (TRaw, VBytes (Some [0])) = Inr [0]" "\<not> stale (Some 60) 1000 990"
proof -
  show "signer_ok sample_primitives sample_signer"
    unfolding sample_signer_def by (rule local_signer_ok [OF sample_primitives_ok])
  show "Marshal byte_hooks (TPtr (TInt 64)) (VPtr (Some (VInt 5))) = Inr (wire_int 5)"
    by (simp add: Marshal_def encode_ptr encode_leaf)
  show "go_slice (wire_int n)" using length_wire_int [of n] by (simp add: go_slice_def max_int_def)
  show "val_ok byte_hooks (\<lambda>nm. go_slice) (TPtr (TInt 64)) (VPtr (Some (VInt 5))) False"
    by (simp add: val_ok_ptr val_ok_fields null_val.simps)
  show "\<not> stale (Some 60) 1000 990" by code_simp
qed (rule byte_hooks_ok marshal_raw)+

lemma signed_round_trip_witness:
  "\<exists>msg. SignAt byte_hooks sample_primitives (TPtr (TInt 64), VPtr (Some (VInt 5))) (TRaw, VBytes (Some [0])) sample_signer [1, 2] 990 = Inr msg \<and>
    VerifyAt byte_hooks sample_primitives (TInt 64) msg (TRaw, VBytes (Some [0])) (sg_public sample_signer) [1, 2] (Some 60) 1000 = Inr (VInt 5)"
  using signed_round_trip [OF sample_primitives_ok sample_message(1-4,5,6,7)] by blast

text \<open>C31: the verifiers accept one shape of message only. \<^verbatim>\<open>verify\<close> returns a payload exactly if the
  input is, byte for byte, the canonical COSE_Sign1 structure with the algorithm, the critical
  header and the key identifier of the verifier and the payload embedded, its timestamp is not
  stale, and the composite signature in it is valid for the Sig_structure over that header, the
  domain, the additional data and the payload. \<^verbatim>\<open>verifyDetached\<close> accepts exactly the corresponding
  structure with null in place of the payload.\<close>

theorem verifiers_exact:
  assumes "primitives_ok P"
  shows "(verify P msg auth pk domain maxDrift now = Inr payload \<longleftrightarrow>
      (\<exists>ts sig. go_slice payload \<and> length sig = xdsa_SignatureSize \<and> msg = cose_message P pk ts (Some payload) sig \<and>
         \<not> stale maxDrift now ts \<and>
         xdsa_Verify P pk (to_be_signed domain auth (sig_header_wire (cose_header P pk ts)) payload) sig = Inr ())) \<and>
    (verifyDetached P msg auth pk domain maxDrift now = Inr () \<longleftrightarrow>
      (\<exists>ts sig. length sig = xdsa_SignatureSize \<and> msg = cose_message P pk ts None sig \<and> \<not> stale maxDrift now ts \<and>
         xdsa_Verify P pk (to_be_signed domain auth (sig_header_wire (cose_header P pk ts)) []) sig = Inr ()))"
  using verify_iff [OF assms] verifyDetached_iff [OF assms] by (simp add: key_consts)

lemma verifiers_exact_witness:
  "\<exists>msg. verify sample_primitives msg [0] (sg_public sample_signer) [1] None 0 = Inr [7]"
proof -
  let ?P = sample_primitives and ?pk = "sg_public sample_signer"
  obtain s where "length s = 3373" "xdsa_Verify ?P ?pk (to_be_signed [1] [0] (sig_header_wire (cose_header ?P ?pk 0)) [7]) s = Inr ()"
    by (rule signerE [OF sample_message(1)])
  moreover have "go_slice [7 :: byte]" "\<not> stale None 0 0" by (simp_all add: go_slice_def max_int_def stale_def)
  ultimately show ?thesis
    using verifiers_exact [OF sample_primitives_ok, of _ "[0]" ?pk "[1]" None 0 "[7]"] by (auto simp: key_consts)
qed

text \<open>C32: a signature binds everything it should. Two Sig_structures are the same bytes only if the
  timestamps, the key fingerprints, the domains, the additional data and the payloads agree, so a
  signature for one context is never one for another; likewise the additional data of an
  encryption determines the recipient and the application's data.\<close>

theorem signed_bytes_bind:
  assumes "primitives_ok P" and "go_slice p" and "go_slice p'"
    and "go_slice (sig_aad_wire (DomainPrefix @ d) a)" and "go_slice (sig_aad_wire (DomainPrefix @ d') a')"
    and "go_slice b" and "go_slice b'"
  shows "(to_be_signed d a (sig_header_wire (cose_header P pk ts)) p = to_be_signed d' a' (sig_header_wire (cose_header P pk' ts')) p' \<longleftrightarrow>
      d = d' \<and> a = a' \<and> p = p' \<and> ts = ts' \<and> xdsa_Fingerprint P pk = xdsa_Fingerprint P pk') \<and>
    (sealed_aad (enc_header_wire (enc_cose_header P hk)) b = sealed_aad (enc_header_wire (enc_cose_header P hk')) b' \<longleftrightarrow>
      xhpke_Fingerprint P hk = xhpke_Fingerprint P hk' \<and> b = b')"
proof -
  have ok: "sig_header_ok (cose_header P k t)" "enc_header_ok (enc_cose_header P h)" for k t h
    by (simp_all add: sig_header_ok_def cose_header_def enc_header_ok_def enc_cose_header_def length_fingerprint [OF assms(1)])
  then have go: "go_slice (sig_header_wire (cose_header P k t))" "go_slice (enc_header_wire (enc_cose_header P h))" for k t h
    by (simp_all add: header_go sig_header_ok_def enc_header_ok_def)
  show ?thesis
    using sig_structure_inject [OF go(1) go(1) assms(4,5,2,3)] enc_structure_inject [OF go(2) go(2) assms(6,7)]
      sig_header_wire_inject [OF ok(1) ok(1)] enc_header_wire_inject [OF ok(2) ok(2)]
      sig_aad_inject [OF assms(4,5) [THEN go_aad_info], of a a']
    by (auto simp: to_be_signed_def sealed_aad_def cose_header_def enc_cose_header_def)
qed

lemma signed_bytes_bind_witness:
  "to_be_signed [1] [2] (sig_header_wire (cose_header sample_primitives (sg_public sample_signer) 7)) [3] \<noteq>
   to_be_signed [1, 2] [] (sig_header_wire (cose_header sample_primitives (sg_public sample_signer) 7)) [3]"
proof -
  have "go_slice (sig_aad_wire (DomainPrefix @ [1]) [2])" "go_slice (sig_aad_wire (DomainPrefix @ [1, 2]) [])"
    using length_wire_bytes [of "DomainPrefix @ [1]"] length_wire_bytes [of "DomainPrefix @ [1, 2]"] length_enc_head [of majorArray 2]
    by (simp_all add: go_slice_def max_int_def sig_aad_wire_def wire_array_def DomainPrefix_def ascii_def)
  then show ?thesis
    using signed_bytes_bind [OF sample_primitives_ok, of "[3]" "[3]" "[1]" "[2]" "[1, 2]" "[]" "[]" "[]"]
    by (auto simp: go_slice_def max_int_def)
qed

text \<open>C33: when the drift check is exact. With a non-negative current time, the 64-bit drift check
  rejects exactly the timestamps further than the maximum from now if and only if the maximum is
  below \<open>2\<^sup>6\<^sup>3\<close> minus now, or at least \<open>2\<^sup>6\<^sup>3\<close> plus now (then nothing is rejected). Between the two,
  the subtraction wraps and some timestamp too far in the past is accepted. Without a maximum
  nothing is stale.\<close>

theorem drift_check_exact:
  assumes "0 \<le> sint now"
  shows "((\<forall>ts. stale (Some m) now ts \<longleftrightarrow> uint m < \<bar>sint now - sint ts\<bar>) \<longleftrightarrow>
      uint m < 2 ^ 63 - sint now \<or> 2 ^ 63 + sint now \<le> uint m) \<and>
    \<not> stale None now ts'"
  using stale_exact_iff [OF assms] by (simp add: stale_def)

lemma drift_check_exact_witness:
  "stale (Some 60) 1000 900 \<and> \<not> stale (Some 60) 1000 1060"
  using drift_check_exact [of 1000 60 0] by (auto dest!: spec [of _ 900] spec [of _ 1060])

text \<open>C34: opening inverts sealing, and a message can be passed on. What \<^verbatim>\<open>SealAt\<close> writes to a recipient is
  opened by the recipient's key to the sealed value; \<^verbatim>\<open>Recipient\<close> names that key; \<^verbatim>\<open>Decrypt\<close> gives
  exactly the signed message of \<^verbatim>\<open>SignAt\<close>, which \<^verbatim>\<open>Encrypt\<close> seals again to any other recipient who
  can then open it and verify the original signer.\<close>

theorem seal_round_trip:
  assumes "primitives_ok P" and "signer_ok P signer" and "hooks_ok hk cok cw"
    and "val_ok hk cok (TPtr ty) (VPtr (Some v)) False" and "Marshal hk (TPtr ty) (VPtr (Some v)) = Inr emb"
    and "length emb + 5000 \<le> max_int" and "marshal_any hk auth = Inr a" and "\<not> stale maxDrift now ts"
  shows "\<exists>msg inner msg'. SealAt hk P rnd (TPtr ty, VPtr (Some v)) auth signer (xhpke_SecretKey_PublicKey P k) domain ts = Inr msg \<and>
    OpenAt hk P ty msg auth k (sg_public signer) domain maxDrift now = Inr v \<and>
    Recipient msg = Inr (xhpke_SecretKey_Fingerprint P k) \<and>
    SignAt hk P (TPtr ty, VPtr (Some v)) auth signer domain ts = Inr inner \<and> Decrypt hk P msg auth k domain = Inr inner \<and>
    Encrypt hk P rnd' inner auth (xhpke_SecretKey_PublicKey P k') domain = Inr msg' \<and>
    OpenAt hk P ty msg' auth k' (sg_public signer) domain maxDrift now = Inr v"
proof -
  let ?pk = "sg_public signer"
  have go: "go_slice emb" using assms(6) by (simp add: go_slice_def)
  obtain s where s: "length s = 3373" "signAt P emb a signer domain ts = Inr (cose_message P ?pk ts (Some emb) s)"
    "verify P (cose_message P ?pk ts (Some emb) s) a ?pk domain maxDrift now = Inr emb"
    by (rule verify_signAt [OF assms(1,2) go assms(8)])
  let ?inner = "cose_message P ?pk ts (Some emb) s"
  have len: "length ?inner + 16 \<le> max_int" using length_cose_message [OF assms(1) s(1), of ?pk ts emb] assms(6) by linarith
  have m: "marshal_any hk (TPtr ty, VPtr (Some v)) = Inr emb" by (simp add: marshal_any_def assms(5))
  have V: "VerifyAt hk P ty ?inner auth ?pk domain maxDrift now = Inr v"
    by (simp add: VerifyAt_def assms(7) s(3) unmarshal_marshalled [OF assms(3-5)])
  obtain msg where msg: "Encrypt hk P rnd ?inner auth (xhpke_SecretKey_PublicKey P k) domain = Inr msg"
    "Decrypt hk P msg auth k domain = Inr ?inner" "Recipient msg = Inr (xhpke_Fingerprint P (xhpke_SecretKey_PublicKey P k))"
    by (rule Decrypt_Encrypt [OF assms(1,7) len])
  obtain msg' where msg': "Encrypt hk P rnd' ?inner auth (xhpke_SecretKey_PublicKey P k') domain = Inr msg'"
    "Decrypt hk P msg' auth k' domain = Inr ?inner"
    by (rule Decrypt_Encrypt [OF assms(1,7) len])
  have "Encrypt hk P rnd ?inner (TRaw, VBytes (Some a)) (xhpke_SecretKey_PublicKey P k) domain =
      Encrypt hk P rnd ?inner auth (xhpke_SecretKey_PublicKey P k) domain"
    by (simp add: Encrypt_def marshal_raw assms(7))
  then show ?thesis
    using msg msg' s V
    by (intro exI [of _ msg] exI [of _ ?inner] exI [of _ msg'])
      (simp add: SealAt_def SignAt_def OpenAt_def m assms(7) xhpke_SecretKey_Fingerprint_def)
qed

lemma seal_round_trip_witness:
  "\<exists>msg. SealAt byte_hooks sample_primitives [3] (TPtr (TInt 64), VPtr (Some (VInt 5))) (TRaw, VBytes (Some [0])) sample_signer
      (xhpke_SecretKey_PublicKey sample_primitives \<lparr>hs_seed = replicate 32 1\<rparr>) [1, 2] 990 = Inr msg \<and>
    OpenAt byte_hooks sample_primitives (TInt 64) msg (TRaw, VBytes (Some [0])) \<lparr>hs_seed = replicate 32 1\<rparr>
      (sg_public sample_signer) [1, 2] (Some 60) 1000 = Inr (VInt 5)"
proof -
  have "length (wire_int 5) + 5000 \<le> max_int" using length_wire_int [of 5] by (simp add: max_int_def)
  from seal_round_trip [OF sample_primitives_ok sample_message(1-4) this sample_message(6,7), of "[3]" _ _ _ "\<lparr>hs_seed = replicate 32 1\<rparr>"]
  show ?thesis by blast
qed

text \<open>C35: the comment "cannot fail, be loud if it does" is true of the marshalling: once the caller's
  messages are marshalled, signing can end in one error only, the panic, and that happens exactly
  if the signer refuses, whose error is dropped and whose nil signature is dereferenced. Encrypting
  never panics.\<close>

theorem signing_panics_with_signer:
  assumes "marshal_any hk msg = Inr emb" and "marshal_any hk auth = Inr a"
  shows "(SignAt hk P msg auth signer domain ts = Inl e \<longleftrightarrow> e = Panic \<and>
      (\<exists>e'. sg_sign signer (to_be_signed domain a (sig_header_wire (cose_header P (sg_public signer) ts)) emb) = Inl e')) \<and>
    (SignDetachedAt hk P auth signer domain ts = Inl e \<longleftrightarrow> e = Panic \<and>
      (\<exists>e'. sg_sign signer (to_be_signed domain a (sig_header_wire (cose_header P (sg_public signer) ts)) []) = Inl e')) \<and>
    Encrypt hk P rnd inner auth pk domain \<noteq> Inl Panic"
  using assms
  by (auto simp: SignAt_def SignDetachedAt_def signAt_eq signDetachedAt_eq Encrypt_eq Let_def split: sum.splits prod.splits)

lemma signing_panics_with_signer_witness:
  "SignAt byte_hooks sample_primitives (TRaw, VBytes (Some [0])) (TRaw, VBytes (Some [0]))
     \<lparr>sg_sign = (\<lambda>m. Inl (SignerError 1)), sg_public = sg_public sample_signer\<rparr> [1] 0 = Inl Panic"
  using signing_panics_with_signer [OF sample_message(6,6), of sample_primitives
      "\<lparr>sg_sign = (\<lambda>m. Inl (SignerError 1)), sg_public = sg_public sample_signer\<rparr>" "[1]" 0 Panic] by simp

end
