(* ===== verification/X509.thy ===== *)
theory X509
  imports Keys "HOL-Library.List_Lexorder" "HOL-Library.Product_Lexorder"
begin

unbundle bit_operations_syntax

text \<open>
  Certificates: the types of \<^verbatim>\<open>src/x509/x509.go\<close> and the issuing of
  \<^verbatim>\<open>src/internal/x509ext/x509ext.go\<close>, with the DER that \<^verbatim>\<open>encoding/asn1\<close> and \<^verbatim>\<open>crypto/x509/pkix\<close>
  write for it. SHA-1, the random bytes of the serial number and the signer are arguments. A panic
  is \<open>None\<close>.

  A \<^verbatim>\<open>time.Time\<close> is the calendar reading of its instant in UTC; \<^verbatim>\<open>Before\<close> and \<^verbatim>\<open>After\<close> compare
  instants, which is the lexicographic order of that reading, and \<^verbatim>\<open>UTC()\<close> changes nothing. An
  object identifier is its list of arcs, so that the dotted strings the code compares are equal, or
  start with \<^verbatim>\<open>2.5.29.\<close>, as the lists do.
\<close>

section \<open>Times\<close>

datatype go_time = Time (t_year: int) (t_month: nat) (t_day: nat) (t_hour: nat) (t_minute: nat) (t_second: nat) (t_nano: nat)

definition time_key :: "go_time \<Rightarrow> int \<times> nat \<times> nat \<times> nat \<times> nat \<times> nat \<times> nat" where
  "time_key t = (t_year t, t_month t, t_day t, t_hour t, t_minute t, t_second t, t_nano t)"

lemma time_key_inject [simp]: "time_key t = time_key u \<longleftrightarrow> t = u"
  by (cases t; cases u) (auto simp: time_key_def)

instantiation go_time :: linorder
begin

definition less_eq_go_time :: "go_time \<Rightarrow> go_time \<Rightarrow> bool" where
  "t \<le> u \<longleftrightarrow> time_key t \<le> time_key u"

definition less_go_time :: "go_time \<Rightarrow> go_time \<Rightarrow> bool" where
  "t < u \<longleftrightarrow> time_key t < time_key u"

instance
  by standard (auto simp: less_eq_go_time_def less_go_time_def less_le)

end

definition Before :: "go_time \<Rightarrow> go_time \<Rightarrow> bool" where "Before t u \<longleftrightarrow> t < u"

definition After :: "go_time \<Rightarrow> go_time \<Rightarrow> bool" where "After t u \<longleftrightarrow> u < t"

definition whole_second :: "go_time \<Rightarrow> go_time" where
  "whole_second t = Time (t_year t) (t_month t) (t_day t) (t_hour t) (t_minute t) (t_second t) 0"

section \<open>The types of \<^verbatim>\<open>x509.go\<close>\<close>

text \<open>
  The value of a name's attribute is a string, or anything else with what \<^verbatim>\<open>asn1.Marshal\<close> makes
  of it (\<open>None\<close> is an error).
\<close>

datatype attr_value = AString bytes | AOther "bytes option"

record attribute =
  at_type :: oid
  at_value :: attr_value

record pkix_name =
  n_Country :: "bytes list"
  n_Organization :: "bytes list"
  n_OrganizationalUnit :: "bytes list"
  n_Locality :: "bytes list"
  n_Province :: "bytes list"
  n_StreetAddress :: "bytes list"
  n_PostalCode :: "bytes list"
  n_SerialNumber :: bytes
  n_CommonName :: bytes
  n_Names :: "attribute list"
  n_ExtraNames :: "attribute list"

record role =
  r_isCA :: bool
  r_pathLen :: "byte option"

definition RoleLeaf :: role where
  "RoleLeaf = \<lparr>r_isCA = False, r_pathLen = None\<rparr>"

definition RoleAuthority :: "byte option \<Rightarrow> role" where
  "RoleAuthority pathLen = \<lparr>r_isCA = True, r_pathLen = pathLen\<rparr>"

definition IsCA :: "role \<Rightarrow> bool" where [simp]: "IsCA r = r_isCA r"

definition PathLen :: "role \<Rightarrow> byte \<times> bool" where
  "PathLen r = (case r_pathLen r of None \<Rightarrow> (0, False) | Some n \<Rightarrow> (n, True))"

lemma PathLen_pointer [simp]: "(case PathLen r of (v, ok) \<Rightarrow> if ok then Some v else None) = r_pathLen r"
  by (auto simp: PathLen_def split: option.splits)

record extension =
  ex_OID :: oid
  ex_Critical :: bool
  ex_Value :: bytes

record template =
  tp_Subject :: pkix_name
  tp_Issuer :: pkix_name
  tp_NotBefore :: go_time
  tp_NotAfter :: go_time
  tp_Role :: role
  tp_Extensions :: "extension list"

datatype validity_mode = ModeNow | ModeAt | ModeDisabled

record validity_check =
  vc_mode :: validity_mode
  vc_at :: go_time

definition zero_time :: go_time where "zero_time = Time 1 1 1 0 0 0 0"

definition ValidityNow :: validity_check where
  "ValidityNow = \<lparr>vc_mode = ModeNow, vc_at = zero_time\<rparr>"

definition ValidityAt :: "go_time \<Rightarrow> validity_check" where
  "ValidityAt t = \<lparr>vc_mode = ModeAt, vc_at = t\<rparr>"

definition ValidityDisabled :: validity_check where
  "ValidityDisabled = \<lparr>vc_mode = ModeDisabled, vc_at = zero_time\<rparr>"

text \<open>\<open>now\<close> is what \<^verbatim>\<open>time.Now()\<close> returns.\<close>

definition Timestamp :: "go_time \<Rightarrow> validity_check \<Rightarrow> go_time option" where
  "Timestamp now v =
     (case vc_mode v of ModeNow \<Rightarrow> Some now | ModeAt \<Rightarrow> Some (vc_at v) | ModeDisabled \<Rightarrow> None)"

datatype cert_error =
    ErrEmptySubject
  | ErrEmptyIssuer
  | ErrInvalidValidity
  | ErrReservedExtensionOID
  | ErrDuplicateExtensionOID
  | ErrMustBeLeaf
  | ErrInvalidKeyUsage
  | ErrExpiredCertificate
  | ErrIssuerNotCA
  | ErrIssuerKeyUsage
  | ErrIssuerPathLen
  | ErrIssuerDNMismatch
  | MalformedCertificate \<comment> \<open>\<^verbatim>\<open>ParseCertificate\<close> failed\<close>
  | InvalidSignatureLength
  | CertKeyError key_error

section \<open>Names\<close>

definition oidCountry :: oid where "oidCountry = [2, 5, 4, 6]"
definition oidOrganization :: oid where "oidOrganization = [2, 5, 4, 10]"
definition oidOrganizationalUnit :: oid where "oidOrganizationalUnit = [2, 5, 4, 11]"
definition oidCommonName :: oid where "oidCommonName = [2, 5, 4, 3]"
definition oidSerialNumber :: oid where "oidSerialNumber = [2, 5, 4, 5]"
definition oidLocality :: oid where "oidLocality = [2, 5, 4, 7]"
definition oidProvince :: oid where "oidProvince = [2, 5, 4, 8]"
definition oidStreetAddress :: oid where "oidStreetAddress = [2, 5, 4, 9]"
definition oidPostalCode :: oid where "oidPostalCode = [2, 5, 4, 17]"

definition appendRDNs :: "pkix_name \<Rightarrow> attribute list list \<Rightarrow> bytes list \<Rightarrow> oid \<Rightarrow> attribute list list" where
  "appendRDNs n rdns values oid =
     (if values = [] \<or> oid \<in> at_type ` set (n_ExtraNames n) then rdns
      else rdns @ [map (\<lambda>v. \<lparr>at_type = oid, at_value = AString v\<rparr>) values])"

text \<open>\<^verbatim>\<open>pkix.Name.ToRDNSequence\<close>: \<^verbatim>\<open>Names\<close> is not looked at.\<close>

definition ToRDNSequence :: "pkix_name \<Rightarrow> attribute list list" where
  "ToRDNSequence n =
     (let r = appendRDNs n [] (n_Country n) oidCountry;
          r = appendRDNs n r (n_Organization n) oidOrganization;
          r = appendRDNs n r (n_OrganizationalUnit n) oidOrganizationalUnit;
          r = appendRDNs n r (n_Locality n) oidLocality;
          r = appendRDNs n r (n_Province n) oidProvince;
          r = appendRDNs n r (n_StreetAddress n) oidStreetAddress;
          r = appendRDNs n r (n_PostalCode n) oidPostalCode;
          r = (if n_CommonName n \<noteq> [] then appendRDNs n r [n_CommonName n] oidCommonName else r);
          r = (if n_SerialNumber n \<noteq> [] then appendRDNs n r [n_SerialNumber n] oidSerialNumber else r)
      in r @ map (\<lambda>a. [a]) (n_ExtraNames n))"

definition oid_ok :: "oid \<Rightarrow> bool" where
  "oid_ok oid \<longleftrightarrow> 2 \<le> length oid \<and> oid ! 0 \<le> 2 \<and> (oid ! 0 < 2 \<longrightarrow> oid ! 1 < 40)"

definition marshal_oid :: "oid \<Rightarrow> bytes option" where
  "marshal_oid oid = (if oid_ok oid then Some (oid_der oid) else None)"

text \<open>Letters, digits, space and \<^verbatim>\<open>'()+,-./:=?\<close>\<close>

definition printable :: "byte \<Rightarrow> bool" where
  "printable b \<longleftrightarrow> 97 \<le> b \<and> b \<le> 122 \<or> 65 \<le> b \<and> b \<le> 90 \<or> 48 \<le> b \<and> b \<le> 57 \<or> 39 \<le> b \<and> b \<le> 41 \<or> 43 \<le> b \<and> b \<le> 47 \<or>
     b = 32 \<or> b = 58 \<or> b = 61 \<or> b = 63"

definition UTF8_STRING :: byte where "UTF8_STRING = 12"
definition PRINTABLE_STRING :: byte where "PRINTABLE_STRING = 19"
definition UTC_TIME :: byte where "UTC_TIME = 23"
definition GENERALIZED_TIME :: byte where "GENERALIZED_TIME = 24"
definition SET :: byte where "SET = 0x31"
definition BOOLEAN :: byte where "BOOLEAN = 1"

definition marshal_string :: "bytes \<Rightarrow> bytes option" where
  "marshal_string s =
     (if list_all printable s then Some (tlv PRINTABLE_STRING s)
      else if utf8_valid s then Some (tlv UTF8_STRING s) else None)"

fun marshal_value :: "attr_value \<Rightarrow> bytes option" where
  "marshal_value (AString s) = marshal_string s"
| "marshal_value (AOther d) = d"

definition marshal_attribute :: "attribute \<Rightarrow> bytes option" where
  "marshal_attribute a =
     (case (marshal_oid (at_type a), marshal_value (at_value a)) of
        (Some t, Some v) \<Rightarrow> Some (tlv SEQUENCE (t @ v))
      | _ \<Rightarrow> None)"

text \<open>A relative name is a SET OF, which DER writes in the order of the encodings.\<close>

definition marshal_rdn :: "attribute list \<Rightarrow> bytes option" where
  "marshal_rdn as = map_option (\<lambda>ds. tlv SET (concat (sort ds))) (those (map marshal_attribute as))"

definition marshal_rdns :: "attribute list list \<Rightarrow> bytes option" where
  "marshal_rdns rs = map_option (\<lambda>ds. tlv SEQUENCE (concat ds)) (those (map marshal_rdn rs))"

section \<open>Extensions and times in DER\<close>

definition two_digits :: "nat \<Rightarrow> bytes" where
  "two_digits v = [of_nat (48 + v div 10 mod 10), of_nat (48 + v mod 10)]"

definition four_digits :: "nat \<Rightarrow> bytes" where
  "four_digits v = two_digits (v div 100) @ two_digits v"

definition time_common :: "go_time \<Rightarrow> bytes" where
  "time_common t = two_digits (t_month t) @ two_digits (t_day t) @ two_digits (t_hour t) @
     two_digits (t_minute t) @ two_digits (t_second t) @ [90]"

definition marshal_time :: "go_time \<Rightarrow> bytes option" where
  "marshal_time t =
     (if t_year t < 1950 \<or> 2050 \<le> t_year t then
        if t_year t < 0 \<or> 9999 < t_year t then None
        else Some (tlv GENERALIZED_TIME (four_digits (nat (t_year t)) @ time_common t))
      else Some (tlv UTC_TIME (two_digits (nat (t_year t mod 100)) @ time_common t)))"

text \<open>A non-negative INTEGER.\<close>

definition der_nat :: "nat \<Rightarrow> bytes" where
  "der_nat n = (let b = be_min n in if b = [] then [0] else if 128 \<le> hd b then 0 # b else b)"

text \<open>A BIT STRING of one byte of which \<open>n\<close> bits are used.\<close>

definition bit_byte :: "byte \<Rightarrow> nat \<Rightarrow> bytes" where
  "bit_byte b n = tlv BIT_STRING [of_nat ((8 - n mod 8) mod 8), b]"

definition marshal_extension :: "extension \<Rightarrow> bytes option" where
  "marshal_extension e = map_option
     (\<lambda>oid. tlv SEQUENCE (oid @ (if ex_Critical e then tlv BOOLEAN [0xFF] else []) @ tlv OCTET_STRING (ex_Value e)))
     (marshal_oid (ex_OID e))"

definition makeSKIExt :: "(bytes \<Rightarrow> bytes) \<Rightarrow> bytes \<Rightarrow> extension" where
  "makeSKIExt sha1 publicKey =
     \<lparr>ex_OID = [2, 5, 29, 14], ex_Critical = False, ex_Value = tlv OCTET_STRING (sha1 publicKey)\<rparr>"

definition makeAKIExt :: "(bytes \<Rightarrow> bytes) \<Rightarrow> bytes \<Rightarrow> extension" where
  "makeAKIExt sha1 publicKey =
     \<lparr>ex_OID = [2, 5, 29, 35], ex_Critical = False, ex_Value = tlv SEQUENCE (tlv 0x80 (sha1 publicKey))\<rparr>"

definition basic_constraints :: "bool \<Rightarrow> int \<Rightarrow> bytes" where
  "basic_constraints isCA maxPathLen =
     tlv SEQUENCE ((if isCA then tlv BOOLEAN [0xFF] else []) @
       (if maxPathLen = -1 then [] else tlv INTEGER (der_nat (nat maxPathLen))))"

definition makeBasicConstraintsExt :: "bool \<Rightarrow> byte option \<Rightarrow> extension" where
  "makeBasicConstraintsExt isCA pathLen =
     \<lparr>ex_OID = [2, 5, 29, 19], ex_Critical = True,
      ex_Value = basic_constraints isCA (case pathLen of None \<Rightarrow> -1 | Some n \<Rightarrow> int (unat n))\<rparr>"

definition oidXDSA :: oid where "oidXDSA = [1, 3, 6, 1, 5, 5, 7, 6, 48]"
definition oidXWing :: oid where "oidXWing = [1, 3, 6, 1, 4, 1, 62253, 25722]"

definition makeKeyUsageExt :: "bool \<Rightarrow> oid \<Rightarrow> extension" where
  "makeKeyUsageExt isCA subjectOID =
     \<lparr>ex_OID = [2, 5, 29, 15], ex_Critical = True,
      ex_Value = (if isCA then bit_byte 0x06 7
                  else if subjectOID = oidXWing then bit_byte 0x08 5
                  else bit_byte 0x80 1)\<rparr>"

section \<open>Issuing\<close>

definition validateTemplate :: "template \<Rightarrow> cert_error option" where
  "validateTemplate t =
     (if length (n_Names (tp_Subject t)) = 0 \<and> length (n_ExtraNames (tp_Subject t)) = 0 \<and> n_CommonName (tp_Subject t) = []
      then Some ErrEmptySubject
      else if length (n_Names (tp_Issuer t)) = 0 \<and> length (n_ExtraNames (tp_Issuer t)) = 0 \<and> n_CommonName (tp_Issuer t) = []
      then Some ErrEmptyIssuer
      else if \<not> Before (tp_NotBefore t) (tp_NotAfter t) then Some ErrInvalidValidity
      else None)"

text \<open>\<open>rnd\<close> are the 16 bytes of \<^verbatim>\<open>rand.Read\<close>.\<close>

definition makeSerial :: "bytes \<Rightarrow> nat" where
  "makeSerial rnd = be_val (rnd[0 := (rnd ! 0 AND 0x7F) OR 0x01])"

record tbs_certificate =
  tbs_SerialNumber :: nat
  tbs_Issuer :: bytes
  tbs_NotBefore :: go_time
  tbs_NotAfter :: go_time
  tbs_Subject :: bytes
  tbs_KeyOID :: oid
  tbs_Key :: bytes
  tbs_Extensions :: "extension list"

definition marshal_tbs :: "tbs_certificate \<Rightarrow> bytes option" where
  "marshal_tbs tbs =
     (case (marshal_time (tbs_NotBefore tbs), marshal_time (tbs_NotAfter tbs), marshal_oid (tbs_KeyOID tbs),
            those (map marshal_extension (tbs_Extensions tbs))) of
        (Some nb, Some na, Some _, Some exts) \<Rightarrow>
          Some (tlv SEQUENCE (tlv 0xA0 (tlv INTEGER [2]) @ tlv INTEGER (der_nat (tbs_SerialNumber tbs)) @
            tlv SEQUENCE (oid_der oidXDSA) @ tbs_Issuer tbs @ tlv SEQUENCE (nb @ na) @ tbs_Subject tbs @
            spki_der (tbs_KeyOID tbs) (tbs_Key tbs) @ tlv 0xA3 (tlv SEQUENCE (concat exts))))
      | _ \<Rightarrow> None)"

definition marshal_certificate :: "bytes \<Rightarrow> bytes \<Rightarrow> bytes" where
  "marshal_certificate tbsDER sig =
     tlv SEQUENCE (tbsDER @ tlv SEQUENCE (oid_der oidXDSA) @ tlv BIT_STRING (0 # sig))"

text \<open>The loop over the custom extensions; \<open>seen\<close> is the map of the identifiers so far.\<close>

fun inject_extensions :: "oid list \<Rightarrow> extension list \<Rightarrow> extension list \<Rightarrow> cert_error + extension list" where
  "inject_extensions seen extensions [] = Inr extensions"
| "inject_extensions seen extensions (ext # exts) =
     (if take 3 (ex_OID ext) = [2, 5, 29] \<and> 3 < length (ex_OID ext) then Inl ErrReservedExtensionOID
      else if ex_OID ext \<in> set seen then Inl ErrDuplicateExtensionOID
      else inject_extensions (ex_OID ext # seen) (extensions @ [ext]) exts)"

definition subject_oid :: "bytes \<Rightarrow> oid" where
  "subject_oid key = (if length key = 1984 then oidXDSA else if length key = 1216 then oidXWing else [])"

definition standard_extensions :: "(bytes \<Rightarrow> bytes) \<Rightarrow> role \<Rightarrow> bytes \<Rightarrow> bytes \<Rightarrow> extension list" where
  "standard_extensions sha1 role subjectBytes pk =
     [makeBasicConstraintsExt (IsCA role) (case PathLen role of (v, ok) \<Rightarrow> if ok then Some v else None),
      makeKeyUsageExt (IsCA role) (subject_oid subjectBytes),
      makeSKIExt sha1 subjectBytes, makeAKIExt sha1 pk]"

text \<open>
  \<open>subject\<close> is what \<^verbatim>\<open>subject.Marshal()\<close> returns; the signer is its public key and its signing
  method.
\<close>

definition New :: "(bytes \<Rightarrow> bytes) \<Rightarrow> bytes \<Rightarrow> bytes \<Rightarrow> bytes \<Rightarrow> (bytes \<Rightarrow> key_error + bytes) \<Rightarrow> template \<Rightarrow>
    (cert_error + bytes) option" where
  "New sha1 rnd subject pk sign template =
     (case validateTemplate template of
        Some e \<Rightarrow> Some (Inl e)
      | None \<Rightarrow>
          (case marshal_rdns (ToRDNSequence (tp_Issuer template)) of
             None \<Rightarrow> None
           | Some issuerRDN \<Rightarrow>
               (case marshal_rdns (ToRDNSequence (tp_Subject template)) of
                  None \<Rightarrow> None
                | Some subjectRDN \<Rightarrow>
                    (case inject_extensions [[2, 5, 29, 19], [2, 5, 29, 15], [2, 5, 29, 14], [2, 5, 29, 35]]
                        (standard_extensions sha1 (tp_Role template) subject pk) (tp_Extensions template) of
                       Inl e \<Rightarrow> Some (Inl e)
                     | Inr extensions \<Rightarrow>
                         (case marshal_tbs \<lparr>tbs_SerialNumber = makeSerial rnd, tbs_Issuer = issuerRDN,
                             tbs_NotBefore = tp_NotBefore template, tbs_NotAfter = tp_NotAfter template,
                             tbs_Subject = subjectRDN, tbs_KeyOID = subject_oid subject, tbs_Key = subject,
                             tbs_Extensions = extensions\<rparr> of
                            None \<Rightarrow> None
                          | Some tbsDER \<Rightarrow>
                              (case sign tbsDER of
                                 Inl e \<Rightarrow> Some (Inl (CertKeyError e))
                               | Inr sig \<Rightarrow> Some (Inr (marshal_certificate tbsDER sig))))))))"

section \<open>Inverting DER\<close>

lemma der_nat_value: "be_val (der_nat n) = n"
proof -
  have "be_val (0 # b) = be_val b" for b :: bytes by (simp add: be_val_def)
  then show ?thesis using be_val_be_min [of n] by (auto simp: der_nat_def Let_def)
qed

lemma der_nat_inject: "der_nat m = der_nat n \<longleftrightarrow> m = n"
  by (metis der_nat_value)

text \<open>The readers of the two extensions that \<^verbatim>\<open>ParseCertificate\<close> reports, for what New writes.\<close>

definition bc_read :: "bytes \<Rightarrow> bool \<times> int" where
  "bc_read v =
     (case read_tlv SEQUENCE v of
        None \<Rightarrow> (False, -1)
      | Some (c, _) \<Rightarrow>
          let (ca, r) = (case read_tlv BOOLEAN c of None \<Rightarrow> (False, c) | Some (_, r) \<Rightarrow> (True, r))
          in (ca, case read_tlv INTEGER r of None \<Rightarrow> -1 | Some (n, _) \<Rightarrow> int (be_val n)))"

definition named_bits :: "byte \<Rightarrow> int" where
  "named_bits b = (\<Sum>i<8. if bit b (7 - i) then 2 ^ i else 0)"

definition ku_read :: "bytes \<Rightarrow> int" where
  "ku_read v = (case read_tlv BIT_STRING v of Some ([_, b], _) \<Rightarrow> named_bits b | _ \<Rightarrow> 0)"

lemma read_tlv_end: "length c < 2 ^ 31 \<Longrightarrow> read_tlv t (tlv t c) = Some (c, [])"
  using read_tlv_tlv [of c t "[]"] by simp

lemma read_tlv_Nil [simp]: "read_tlv t [] = None"
  by (simp add: read_tlv_def)

lemma read_tlv_other: "t \<noteq> t' \<Longrightarrow> read_tlv t (tlv t' c @ r) = None"
  by (auto simp: read_tlv_def tlv_def Let_def split: list.splits)

lemma der_nat_length: "n < 256 \<Longrightarrow> length (der_nat n) \<le> 2"
  using length_be_min [of n 1] by (simp add: der_nat_def Let_def)

lemma bc_read_constraints: "-1 \<le> n \<Longrightarrow> n < 256 \<Longrightarrow> bc_read (basic_constraints ca n) = (ca, n)"
proof -
  assume n: "-1 \<le> n" "n < 256"
  let ?i = "if n = -1 then [] else tlv INTEGER (der_nat (nat n))"
  let ?c = "(if ca then tlv BOOLEAN [0xFF] else []) @ ?i"
  have d: "length (der_nat (nat n)) \<le> 2" using n by (intro der_nat_length) linarith
  then have l: "length ?c < 2 ^ 31" by (simp add: length_tlv der_length_def)
  have i: "(case read_tlv INTEGER ?i of None \<Rightarrow> -1 | Some (n, _) \<Rightarrow> int (be_val n)) = n"
    using n d by (simp add: read_tlv_end der_nat_value)
  have b: "(case read_tlv BOOLEAN ?c of None \<Rightarrow> (False, ?c) | Some (_, r) \<Rightarrow> (True, r)) = (ca, ?i)"
    using read_tlv_tlv [of "[0xFF]" BOOLEAN ?i] read_tlv_other [of BOOLEAN INTEGER "der_nat (nat n)" "[]"]
    by (auto simp: BOOLEAN_def INTEGER_def)
  show ?thesis
    unfolding basic_constraints_def bc_read_def read_tlv_end [OF l] option.case prod.case b Let_def i by simp
qed

lemma ku_read_bits: "ku_read (bit_byte b n) = named_bits b"
  by (simp add: ku_read_def bit_byte_def read_tlv_end)

lemma named_bits_used: "named_bits 0x06 = 96" "named_bits 0x08 = 16" "named_bits 0x80 = 1"
  by (simp_all add: named_bits_def lessThan_nat_numeral lessThan_Suc)

section \<open>Serial numbers\<close>

lemma byte_masks: "(0x7F :: byte) = mask 7" "(0x7E :: byte) = mask 7 AND NOT (mask 1)"
  by (simp_all add: mask_eq_exp_minus_1)

lemma serial_byte: "(b AND 0x7F) OR 1 = take_bit 7 (b OR 1)" for b :: byte
  unfolding byte_masks by (rule bit_eqI) (auto simp: bit_simps)

lemma serial_byte_eq: "(b AND 0x7F) OR 1 = (c AND 0x7F) OR 1 \<longleftrightarrow> b AND 0x7E = c AND 0x7E" for b c :: byte
proof -
  have "(b AND 0x7F) OR 1 = (b AND 0x7E) + 1" for b :: byte
  proof -
    have "(b AND 0x7F) OR 1 = (b AND 0x7E) OR 1"
      unfolding byte_masks by (rule bit_eqI) (auto simp: bit_simps)
    also have "\<dots> = (b AND 0x7E) + 1"
      unfolding byte_masks by (rule disjunctive_add [symmetric]) (auto simp: bit_simps)
    finally show ?thesis .
  qed
  then show ?thesis by simp
qed

lemma serial_byte_bounds: "0 < unat ((b AND 0x7F) OR 1)" "unat ((b AND 0x7F) OR 1) < 128" for b :: byte
proof -
  have "bit ((b AND 0x7F) OR 1) 0" by (simp add: bit_simps)
  then have "(b AND 0x7F) OR 1 \<noteq> 0" by (metis bit_0_eq bot_apply bot_bool_def)
  then show "0 < unat ((b AND 0x7F) OR 1)" by (simp add: unat_gt_0)
  show "unat ((b AND 0x7F) OR 1) < 128"
    unfolding serial_byte unsigned_take_bit_eq by (simp only: take_bit_eq_mod) simp
qed

lemma makeSerial_Cons: "makeSerial (b # bs) = be_val (((b AND 0x7F) OR 1) # bs)"
  by (simp add: makeSerial_def)

lemma der_nat_be_val: "bs \<noteq> [] \<Longrightarrow> 0 < unat (hd bs) \<Longrightarrow> unat (hd bs) < 128 \<Longrightarrow> der_nat (be_val bs) = bs"
proof -
  assume a: "bs \<noteq> []" "0 < unat (hd bs)" "unat (hd bs) < 128"
  then have "hd bs \<noteq> 0" by auto
  with a show ?thesis by (simp add: der_nat_def be_min_be_val word_le_nat_alt)
qed

lemma makeSerial_length:
  assumes "length rnd = 16"
  shows "length (der_nat (makeSerial rnd)) = 16"
proof -
  obtain b bs where r: "rnd = b # bs" using assms by (cases rnd) auto
  then have "der_nat (makeSerial rnd) = ((b AND 0x7F) OR 1) # bs" using serial_byte_bounds [of b] by (simp add: makeSerial_Cons der_nat_be_val)
  then show ?thesis using assms r by simp
qed

section \<open>What New does\<close>

definition reserved_oid :: "oid \<Rightarrow> bool" where
  "reserved_oid oid \<longleftrightarrow> take 3 oid = [2, 5, 29] \<and> 3 < length oid"

text \<open>Custom extensions: none of them standard, no two alike.\<close>

definition extensions_ok :: "extension list \<Rightarrow> bool" where
  "extensions_ok exts \<longleftrightarrow> distinct (map ex_OID exts) \<and> (\<forall>e\<in>set exts. \<not> reserved_oid (ex_OID e))"

lemma inject_extensions_iff:
  "inject_extensions seen acc exts = Inr r \<longleftrightarrow> r = acc @ exts \<and> extensions_ok exts \<and> set (map ex_OID exts) \<inter> set seen = {}"
  by (induction seen acc exts rule: inject_extensions.induct) (auto simp: extensions_ok_def reserved_oid_def)

lemma inject_extensions_error:
  "inject_extensions seen acc exts = Inl e \<Longrightarrow> e = ErrReservedExtensionOID \<or> e = ErrDuplicateExtensionOID"
  by (induction seen acc exts rule: inject_extensions.induct) (auto split: if_splits)

lemma inject_standard_iff:
  "inject_extensions [[2, 5, 29, 19], [2, 5, 29, 15], [2, 5, 29, 14], [2, 5, 29, 35]] acc exts = Inr r \<longleftrightarrow>
     r = acc @ exts \<and> extensions_ok exts"
proof -
  have "set (map ex_OID exts) \<inter> set [[2, 5, 29, 19], [2, 5, 29, 15], [2, 5, 29, 14], [2, 5, 29, 35]] = {}" if "extensions_ok exts"
    using that by (fastforce simp: extensions_ok_def reserved_oid_def)
  then show ?thesis by (auto simp only: inject_extensions_iff)
qed

text \<open>The certificate that a template asks for.\<close>

definition template_tbs :: "(bytes \<Rightarrow> bytes) \<Rightarrow> bytes \<Rightarrow> bytes \<Rightarrow> bytes \<Rightarrow> template \<Rightarrow> bytes \<Rightarrow> bytes \<Rightarrow> tbs_certificate" where
  "template_tbs sha1 rnd subject pk t issuerRDN subjectRDN =
     \<lparr>tbs_SerialNumber = makeSerial rnd, tbs_Issuer = issuerRDN, tbs_NotBefore = tp_NotBefore t,
      tbs_NotAfter = tp_NotAfter t, tbs_Subject = subjectRDN, tbs_KeyOID = subject_oid subject, tbs_Key = subject,
      tbs_Extensions = standard_extensions sha1 (tp_Role t) subject pk @ tp_Extensions t\<rparr>"

lemma New_Inr:
  "New sha1 rnd subject pk sign t = Some (Inr der) \<longleftrightarrow>
     (\<exists>i s raw sig. validateTemplate t = None \<and> extensions_ok (tp_Extensions t) \<and>
        marshal_rdns (ToRDNSequence (tp_Issuer t)) = Some i \<and> marshal_rdns (ToRDNSequence (tp_Subject t)) = Some s \<and>
        marshal_tbs (template_tbs sha1 rnd subject pk t i s) = Some raw \<and> sign raw = Inr sig \<and>
        der = marshal_certificate raw sig)"
  (is "?l \<longleftrightarrow> ?r")
proof
  assume ?l
  then show ?r
    by (auto simp: New_def inject_standard_iff template_tbs_def split: option.splits sum.splits)
next
  assume ?r
  then obtain i s raw sig where a: "validateTemplate t = None" "extensions_ok (tp_Extensions t)"
    "marshal_rdns (ToRDNSequence (tp_Issuer t)) = Some i" "marshal_rdns (ToRDNSequence (tp_Subject t)) = Some s"
    "marshal_tbs (template_tbs sha1 rnd subject pk t i s) = Some raw" "sign raw = Inr sig" "der = marshal_certificate raw sig"
    by blast
  then show ?l
    using inject_standard_iff [of "standard_extensions sha1 (tp_Role t) subject pk" "tp_Extensions t"
        "standard_extensions sha1 (tp_Role t) subject pk @ tp_Extensions t"]
    by (simp add: New_def template_tbs_def)
qed

text \<open>What can be written in DER.\<close>

lemma those_map_None: "those (map f xs) = None \<longleftrightarrow> (\<exists>x\<in>set xs. f x = None)"
proof (induction xs)
  case (Cons x xs)
  then show ?case by (cases "f x") auto
qed simp

lemma printable_utf8: "list_all printable s \<Longrightarrow> utf8_valid s"
proof (induction s)
  case (Cons b s)
  then have "b < 128" by (auto simp: printable_def word_le_nat_alt word_less_nat_alt)
  with Cons show ?case by simp
qed simp

lemma marshal_string_None: "marshal_string s = None \<longleftrightarrow> \<not> utf8_valid s"
  using printable_utf8 [of s] by (auto simp: marshal_string_def)

definition encodable :: "attribute \<Rightarrow> bool" where
  "encodable a \<longleftrightarrow> oid_ok (at_type a) \<and> (case at_value a of AString s \<Rightarrow> utf8_valid s | AOther d \<Rightarrow> d \<noteq> None)"

lemma marshal_value_None: "marshal_value v = None \<longleftrightarrow> \<not> (case v of AString s \<Rightarrow> utf8_valid s | AOther d \<Rightarrow> d \<noteq> None)"
  by (cases v) (simp_all add: marshal_string_None)

lemma marshal_attribute_None: "marshal_attribute a = None \<longleftrightarrow> \<not> encodable a"
  unfolding encodable_def using marshal_value_None [of "at_value a"]
  by (cases "marshal_value (at_value a)") (simp_all add: marshal_attribute_def marshal_oid_def)

lemma marshal_rdns_None: "marshal_rdns rs = None \<longleftrightarrow> (\<exists>r\<in>set rs. \<exists>a\<in>set r. \<not> encodable a)"
  by (simp add: marshal_rdns_def marshal_rdn_def those_map_None marshal_attribute_None)

text \<open>The strings of a name that an extra name does not override are valid UTF-8.\<close>

definition name_parts :: "pkix_name \<Rightarrow> (oid \<times> bytes list) list" where
  "name_parts n = [(oidCountry, n_Country n), (oidOrganization, n_Organization n), (oidOrganizationalUnit, n_OrganizationalUnit n),
     (oidLocality, n_Locality n), (oidProvince, n_Province n), (oidStreetAddress, n_StreetAddress n), (oidPostalCode, n_PostalCode n),
     (oidCommonName, [n_CommonName n]), (oidSerialNumber, [n_SerialNumber n])]"

lemmas name_oids = oidCountry_def oidOrganization_def oidOrganizationalUnit_def oidLocality_def oidProvince_def
  oidStreetAddress_def oidPostalCode_def oidCommonName_def oidSerialNumber_def

definition encodable_name :: "pkix_name \<Rightarrow> bool" where
  "encodable_name n \<longleftrightarrow> list_all (\<lambda>(oid, vs). oid \<in> at_type ` set (n_ExtraNames n) \<or> list_all utf8_valid vs) (name_parts n) \<and>
     list_all encodable (n_ExtraNames n)"

lemma appendRDNs_all:
  "oid_ok oid \<Longrightarrow> (\<forall>r\<in>set (appendRDNs n rdns vs oid). \<forall>a\<in>set r. encodable a) \<longleftrightarrow>
     (\<forall>r\<in>set rdns. \<forall>a\<in>set r. encodable a) \<and> (oid \<in> at_type ` set (n_ExtraNames n) \<or> list_all utf8_valid vs)"
  by (auto simp: appendRDNs_def encodable_def list_all_iff)

lemma appendRDNs_one:
  "oid_ok oid \<Longrightarrow> (\<forall>r\<in>set (if v \<noteq> [] then appendRDNs n rdns [v] oid else rdns). \<forall>a\<in>set r. encodable a) \<longleftrightarrow>
     (\<forall>r\<in>set rdns. \<forall>a\<in>set r. encodable a) \<and> (oid \<in> at_type ` set (n_ExtraNames n) \<or> list_all utf8_valid [v])"
  by (cases "v = []") (simp_all add: appendRDNs_all)

lemma encodable_name_iff: "marshal_rdns (ToRDNSequence n) = None \<longleftrightarrow> \<not> encodable_name n"
proof -
  have ok: "oid_ok oidCountry" "oid_ok oidOrganization" "oid_ok oidOrganizationalUnit" "oid_ok oidLocality" "oid_ok oidProvince"
    "oid_ok oidStreetAddress" "oid_ok oidPostalCode" "oid_ok oidCommonName" "oid_ok oidSerialNumber"
    by (simp_all add: oid_ok_def name_oids)
  have "(\<forall>r\<in>set (ToRDNSequence n). \<forall>a\<in>set r. encodable a) \<longleftrightarrow> encodable_name n"
    unfolding ToRDNSequence_def Let_def set_append ball_Un appendRDNs_one [OF ok(9)] appendRDNs_one [OF ok(8)]
      appendRDNs_all [OF ok(7)] appendRDNs_all [OF ok(6)] appendRDNs_all [OF ok(5)] appendRDNs_all [OF ok(4)]
      appendRDNs_all [OF ok(3)] appendRDNs_all [OF ok(2)] appendRDNs_all [OF ok(1)]
    by (simp add: encodable_name_def name_parts_def list_all_iff conj_assoc)
  then show ?thesis unfolding marshal_rdns_None by blast
qed

definition encodable_time :: "go_time \<Rightarrow> bool" where
  "encodable_time t \<longleftrightarrow> 0 \<le> t_year t \<and> t_year t \<le> 9999"

lemma marshal_time_None: "marshal_time t = None \<longleftrightarrow> \<not> encodable_time t"
  by (auto simp: marshal_time_def encodable_time_def)

lemma marshal_extension_None: "marshal_extension e = None \<longleftrightarrow> \<not> oid_ok (ex_OID e)"
  by (simp add: marshal_extension_def marshal_oid_def)

lemma marshal_tbs_None:
  "marshal_tbs tbs = None \<longleftrightarrow> \<not> (encodable_time (tbs_NotBefore tbs) \<and> encodable_time (tbs_NotAfter tbs) \<and> oid_ok (tbs_KeyOID tbs) \<and>
     list_all (\<lambda>e. oid_ok (ex_OID e)) (tbs_Extensions tbs))"
proof -
  have "those (map marshal_extension (tbs_Extensions tbs)) = None \<longleftrightarrow> \<not> list_all (\<lambda>e. oid_ok (ex_OID e)) (tbs_Extensions tbs)"
    by (simp add: those_map_None marshal_extension_None list_all_iff)
  then show ?thesis
    using marshal_time_None [of "tbs_NotBefore tbs"] marshal_time_None [of "tbs_NotAfter tbs"]
    by (auto simp: marshal_tbs_def marshal_oid_def split: option.splits)
qed

lemma standard_extensions_oids: "list_all (\<lambda>e. oid_ok (ex_OID e)) (standard_extensions sha1 role subject pk)"
  by (simp add: standard_extensions_def makeBasicConstraintsExt_def makeKeyUsageExt_def makeSKIExt_def makeAKIExt_def oid_ok_def)

lemma subject_oid_ok: "length subject = 1984 \<or> length subject = 1216 \<Longrightarrow> oid_ok (subject_oid subject)"
  by (auto simp: subject_oid_def oid_ok_def oidXDSA_def oidXWing_def)

lemma marshal_template_None:
  assumes "length subject = 1984 \<or> length subject = 1216"
  shows "marshal_tbs (template_tbs sha1 rnd subject pk t i s) = None \<longleftrightarrow>
    \<not> (encodable_time (tp_NotBefore t) \<and> encodable_time (tp_NotAfter t) \<and> list_all (\<lambda>e. oid_ok (ex_OID e)) (tp_Extensions t))"
  using subject_oid_ok [OF assms] standard_extensions_oids [of sha1 "tp_Role t" subject pk]
  by (simp add: marshal_tbs_None template_tbs_def)


text \<open>Everything else of a template that DER can express.\<close>

definition writable :: "template \<Rightarrow> bool" where
  "writable t \<longleftrightarrow> encodable_time (tp_NotBefore t) \<and> encodable_time (tp_NotAfter t) \<and> list_all (\<lambda>e. oid_ok (ex_OID e)) (tp_Extensions t)"

lemma New_cases:
  assumes "length subject = 1984 \<or> length subject = 1216"
  obtains (invalid) e where "validateTemplate t = Some e" "New sha1 rnd subject pk sign t = Some (Inl e)"
  | (names) "validateTemplate t = None" "\<not> (encodable_name (tp_Issuer t) \<and> encodable_name (tp_Subject t))"
      "New sha1 rnd subject pk sign t = None"
  | (extensions) e where "validateTemplate t = None" "encodable_name (tp_Issuer t)" "encodable_name (tp_Subject t)"
      "\<not> extensions_ok (tp_Extensions t)" "e = ErrReservedExtensionOID \<or> e = ErrDuplicateExtensionOID"
      "New sha1 rnd subject pk sign t = Some (Inl e)"
  | (unwritable) "validateTemplate t = None" "encodable_name (tp_Issuer t)" "encodable_name (tp_Subject t)"
      "extensions_ok (tp_Extensions t)" "\<not> writable t" "New sha1 rnd subject pk sign t = None"
  | (signing) raw where "validateTemplate t = None" "encodable_name (tp_Issuer t)" "encodable_name (tp_Subject t)"
      "extensions_ok (tp_Extensions t)" "writable t"
      "New sha1 rnd subject pk sign t =
        (case sign raw of Inl e \<Rightarrow> Some (Inl (CertKeyError e)) | Inr sig \<Rightarrow> Some (Inr (marshal_certificate raw sig)))"
proof (cases "validateTemplate t")
  case v: None
  show thesis
  proof (cases "encodable_name (tp_Issuer t) \<and> encodable_name (tp_Subject t)")
    case False
    have "New sha1 rnd subject pk sign t = None"
      using v False encodable_name_iff [of "tp_Issuer t"] encodable_name_iff [of "tp_Subject t"]
      by (cases "marshal_rdns (ToRDNSequence (tp_Issuer t))"; cases "marshal_rdns (ToRDNSequence (tp_Subject t))") (simp_all add: New_def)
    then show thesis using v False names by blast
  next
    case True
    then obtain i s where n: "marshal_rdns (ToRDNSequence (tp_Issuer t)) = Some i" "marshal_rdns (ToRDNSequence (tp_Subject t)) = Some s"
      using encodable_name_iff by (metis option.exhaust)
    let ?std = "standard_extensions sha1 (tp_Role t) subject pk"
    let ?x = "inject_extensions [[2, 5, 29, 19], [2, 5, 29, 15], [2, 5, 29, 14], [2, 5, 29, 35]] ?std (tp_Extensions t)"
    show thesis
    proof (cases ?x)
      case (Inl e)
      then have "\<not> extensions_ok (tp_Extensions t)" using inject_standard_iff [of ?std "tp_Extensions t"] by (metis Inl_Inr_False)
      then show thesis using v True n Inl inject_extensions_error [OF Inl] extensions [of e] by (auto simp: New_def)
    next
      case (Inr r)
      then have r: "extensions_ok (tp_Extensions t)" "r = ?std @ tp_Extensions t" by (auto simp: inject_standard_iff)
      have N: "New sha1 rnd subject pk sign t = (case marshal_tbs (template_tbs sha1 rnd subject pk t i s) of None \<Rightarrow> None
          | Some raw \<Rightarrow> (case sign raw of Inl e \<Rightarrow> Some (Inl (CertKeyError e)) | Inr sig \<Rightarrow> Some (Inr (marshal_certificate raw sig))))"
        using v n Inr r(2) by (simp add: New_def template_tbs_def)
      show thesis
      proof (cases "marshal_tbs (template_tbs sha1 rnd subject pk t i s)")
        case None
        then have "\<not> writable t" by (simp add: marshal_template_None [OF assms] writable_def)
        then show thesis using N v True r(1) unwritable None by simp
      next
        case (Some raw)
        then have "writable t" using marshal_template_None [OF assms, of sha1 rnd pk t i s] by (simp add: writable_def)
        then show thesis using N v True r(1) signing [of raw] Some by simp
      qed
    qed
  qed
next
  case (Some e)
  then show thesis using invalid by (simp add: New_def)
qed

text \<open>A template, for the witnesses.\<close>

definition sample_name :: "bytes \<Rightarrow> pkix_name" where
  "sample_name cn = \<lparr>n_Country = [], n_Organization = [[79, 42]], n_OrganizationalUnit = [], n_Locality = [], n_Province = [],
     n_StreetAddress = [], n_PostalCode = [], n_SerialNumber = [], n_CommonName = cn, n_Names = [], n_ExtraNames = []\<rparr>"

definition sample_template :: "role \<Rightarrow> template" where
  "sample_template r = \<lparr>tp_Subject = sample_name [97], tp_Issuer = sample_name [97], tp_NotBefore = Time 2025 1 2 3 4 5 6,
     tp_NotAfter = Time 2060 1 2 3 4 5 6, tp_Role = r, tp_Extensions = [\<lparr>ex_OID = [1, 2, 840], ex_Critical = True, ex_Value = [5, 0]\<rparr>]\<rparr>"

lemma sample_template_ok:
  "validateTemplate (sample_template r) = None" "encodable_name (tp_Issuer (sample_template r))"
  "encodable_name (tp_Subject (sample_template r))" "extensions_ok (tp_Extensions (sample_template r))" "writable (sample_template r)"
  by (simp_all add: sample_template_def sample_name_def validateTemplate_def Before_def less_go_time_def time_key_def
      encodable_name_def name_parts_def encodable_def oid_ok_def extensions_ok_def reserved_oid_def writable_def encodable_time_def)

section \<open>Properties\<close>

text \<open>C36: what issuing a certificate can end in, for a public key of one of the two sizes and a signer
  that works. It panics exactly for a template that passes the validation but cannot be written: a
  name with a string that is not UTF-8 or with a malformed extra attribute, or (behind the check of
  the extensions) a year outside 0 to 9999 or a malformed extension identifier. It issues a
  certificate exactly if the template is valid, can be written, and no custom extension is reserved
  or a duplicate. Every error is one of the validation, or of the custom extensions.\<close>

theorem New_outcomes:
  assumes "length subject = 1984 \<or> length subject = 1216" and "\<And>m. \<exists>sig. sign m = Inr sig"
  shows "(New sha1 rnd subject pk sign t = None \<longleftrightarrow> validateTemplate t = None \<and>
      (\<not> encodable_name (tp_Issuer t) \<or> \<not> encodable_name (tp_Subject t) \<or> extensions_ok (tp_Extensions t) \<and> \<not> writable t)) \<and>
    ((\<exists>der. New sha1 rnd subject pk sign t = Some (Inr der)) \<longleftrightarrow> validateTemplate t = None \<and>
      encodable_name (tp_Issuer t) \<and> encodable_name (tp_Subject t) \<and> extensions_ok (tp_Extensions t) \<and> writable t) \<and>
    (New sha1 rnd subject pk sign t = Some (Inl e) \<longrightarrow> validateTemplate t = Some e \<or>
      \<not> extensions_ok (tp_Extensions t) \<and> e \<in> {ErrReservedExtensionOID, ErrDuplicateExtensionOID})"
proof -
  have signed: "sign m \<noteq> Inl x" for m x using assms(2) [of m] by auto
  show ?thesis
    by (rule New_cases [OF assms(1), of t sha1 rnd pk sign]) (auto simp: signed split: sum.splits)
qed

lemma New_outcomes_witness:
  "(\<exists>der. New (\<lambda>_. replicate 20 0) (replicate 16 0) (replicate 1984 0) [] (\<lambda>m. Inr [1]) (sample_template RoleLeaf) = Some (Inr der)) \<and>
    New (\<lambda>_. replicate 20 0) (replicate 16 0) (replicate 1984 0) [] (\<lambda>m. Inr [1])
      (sample_template RoleLeaf\<lparr>tp_NotAfter := Time 10000 1 1 0 0 0 0\<rparr>) = None"
proof -
  let ?late = "sample_template RoleLeaf\<lparr>tp_NotAfter := Time 10000 1 1 0 0 0 0\<rparr>"
  have k: "length (replicate 1984 0 :: bytes) = 1984 \<or> length (replicate 1984 0 :: bytes) = 1216" by simp
  have "validateTemplate ?late = None" "extensions_ok (tp_Extensions ?late)" "\<not> writable ?late"
    by (simp_all add: sample_template_def sample_name_def validateTemplate_def Before_def less_go_time_def time_key_def
        oid_ok_def extensions_ok_def reserved_oid_def writable_def encodable_time_def)
  then show ?thesis
    using New_outcomes [OF k, of "\<lambda>m. Inr [1]" "\<lambda>_. replicate 20 0" "replicate 16 0" "[]" "sample_template RoleLeaf" ErrEmptySubject]
      New_outcomes [OF k, of "\<lambda>m. Inr [1]" "\<lambda>_. replicate 20 0" "replicate 16 0" "[]" ?late ErrEmptySubject]
    by (simp add: sample_template_ok)
qed

text \<open>A serial number, made from 16 random bytes, is positive and takes 16 bytes in DER, less than
  the 20 that the standard allows. It carries 126 bits of the randomness: two draws give the same
  number exactly if they agree apart from the highest and the lowest bit of the first byte.\<close>

theorem makeSerial_bounds:
  assumes "length rnd = 16" and "length rnd' = 16"
  shows "2 ^ 120 \<le> makeSerial rnd \<and> makeSerial rnd < 2 ^ 127 \<and> length (der_nat (makeSerial rnd)) = 16 \<and>
    (makeSerial rnd = makeSerial rnd' \<longleftrightarrow> hd rnd AND 0x7E = hd rnd' AND 0x7E \<and> tl rnd = tl rnd')"
proof -
  obtain b bs c cs where r: "rnd = b # bs" "length bs = 15" "rnd' = c # cs" "length cs = 15"
    using assms by (auto simp: length_Suc_conv eval_nat_numeral)
  let ?b = "(b AND 0x7F) OR 1" and ?c = "(c AND 0x7F) OR 1"
  note byte = serial_byte_bounds [of b]
  have v: "makeSerial rnd = unat ?b * 256 ^ 15 + be_val bs" by (simp add: r makeSerial_Cons be_val_Cons)
  have low: "be_val bs < 256 ^ 15" using be_val_less [of bs] by (simp add: r)
  have "1 * 256 ^ 15 \<le> unat ?b * 256 ^ 15" "unat ?b * 256 ^ 15 \<le> 127 * 256 ^ 15" using byte by (simp_all only: mult_le_mono1)
  then have "256 ^ 15 \<le> makeSerial rnd" "makeSerial rnd < 128 * 256 ^ 15" using v low by linarith+
  moreover have "der_nat (makeSerial rnd) = ?b # bs" using byte by (simp add: r makeSerial_Cons der_nat_be_val)
  moreover have "der_nat (makeSerial rnd') = ?c # cs" using serial_byte_bounds [of c] by (simp add: r makeSerial_Cons der_nat_be_val)
  ultimately show ?thesis
    using serial_byte_eq [of b c] der_nat_inject [of "makeSerial rnd" "makeSerial rnd'"] by (simp add: r)
qed

lemma makeSerial_bounds_witness:
  "makeSerial (replicate 16 255) < 2 ^ 127 \<and> makeSerial (replicate 16 0) = makeSerial (0x81 # replicate 15 0)"
  using makeSerial_bounds [of "replicate 16 255" "replicate 16 0"] makeSerial_bounds [of "replicate 16 0" "0x81 # replicate 15 0"]
  by simp

end
