(* ===== verification/X509_Binding.thy ===== *)
theory X509_Binding
  imports X509
begin

text \<open>
  What a certificate of \<^verbatim>\<open>x509ext.New\<close> says: its DER encoding determines every field, so the
  signature over it binds the key, the names, the period, the role and the extensions.
\<close>

section \<open>Object identifiers\<close>

lemma oid_content_inject:
  assumes "oid_ok x" and "oid_ok y" and "oid_content x = oid_content y"
  shows "x = y"
proof -
  obtain a b as where x: "x = a # b # as" using assms(1) by (cases x rule: oid_content.cases) (auto simp: oid_ok_def)
  obtain c d cs where y: "y = c # d # cs" using assms(2) by (cases y rule: oid_content.cases) (auto simp: oid_ok_def)
  have o: "a \<le> 2" "a < 2 \<Longrightarrow> b < 40" "c \<le> 2" "c < 2 \<Longrightarrow> d < 40" using assms(1,2) by (simp_all add: x y oid_ok_def)
  have q: "40 * a + b = 40 * c + d" "as = cs" using assms(3) by (simp_all only: x y oid_content.simps base128_inject arcs_inject)
  have "a = c"
  proof (rule ccontr)
    assume "a \<noteq> c"
    then consider "a < c" | "c < a" by linarith
    then show False using o q(1) by cases linarith+
  qed
  then show ?thesis using q by (simp add: x y)
qed

section \<open>Times\<close>

definition calendar :: "go_time \<Rightarrow> bool" where
  "calendar t \<longleftrightarrow> t_month t \<le> 12 \<and> t_day t \<le> 31 \<and> t_hour t < 24 \<and> t_minute t < 60 \<and> t_second t < 60 \<and> t_nano t < 10 ^ 9"

lemma unat_digit: "m < 10 \<Longrightarrow> unat (of_nat (48 + m) :: byte) = 48 + m"
  by (simp add: unat_of_nat del: of_nat_add)

lemma digit_inject: "m < 10 \<Longrightarrow> n < 10 \<Longrightarrow> (of_nat (48 + m) :: byte) = of_nat (48 + n) \<longleftrightarrow> m = n"
  using unat_digit [of m] unat_digit [of n] by (metis add_left_cancel)

lemma two_digits_inject: 
  assumes "m < 100" and "n < 100"
  shows "two_digits m = two_digits n \<longleftrightarrow> m = n"
proof -
  have "m div 10 mod 10 = m div 10" "n div 10 mod 10 = n div 10" using assms by simp_all
  then have "two_digits m = two_digits n \<longleftrightarrow> m div 10 = n div 10 \<and> m mod 10 = n mod 10"
    using assms digit_inject [of "m div 10" "n div 10"] digit_inject [of "m mod 10" "n mod 10"]
    by (simp add: two_digits_def del: of_nat_add)
  then show ?thesis by (metis div_mult_mod_eq)
qed

lemma length_two_digits [simp]: "length (two_digits v) = 2"
  by (simp add: two_digits_def)

lemma time_common_inject:
  assumes "calendar t" and "calendar u"
  shows "time_common t = time_common u \<longleftrightarrow>
    t_month t = t_month u \<and> t_day t = t_day u \<and> t_hour t = t_hour u \<and> t_minute t = t_minute u \<and> t_second t = t_second u"
  using assms by (auto simp: time_common_def two_digits_inject calendar_def)

lemma four_digits_inject: "m < 10000 \<Longrightarrow> n < 10000 \<Longrightarrow> four_digits m = four_digits n \<longleftrightarrow> m = n"
proof -
  assume a: "m < 10000" "n < 10000"
  have two: "two_digits (v mod 100) = two_digits v" for v
  proof -
    have "v mod 100 = 10 * (v div 10 mod 10) + v mod 10" using mod_mult2_eq [of v 10 10] by simp
    then have "v mod 100 div 10 mod 10 = v div 10 mod 10" "v mod 100 mod 10 = v mod 10" by simp_all
    then show ?thesis by (simp add: two_digits_def)
  qed
  have "four_digits m = four_digits n \<longleftrightarrow> two_digits (m div 100) = two_digits (n div 100) \<and> two_digits (m mod 100) = two_digits (n mod 100)"
    by (simp add: four_digits_def two)
  also have "\<dots> \<longleftrightarrow> m div 100 = n div 100 \<and> m mod 100 = n mod 100" using a by (simp add: two_digits_inject)
  finally show ?thesis by (metis div_mult_mod_eq)
qed

lemma length_four_digits: "length (four_digits v) = 4"
  by (simp add: four_digits_def)

lemma length_time_common [simp]: "length (time_common t) = 11"
  by (simp add: time_common_def)

lemma time_tlv_inject:
  assumes "length x = length y" and "length y \<le> 4"
  shows "tlv g (x @ time_common t) = tlv g (y @ time_common u) \<longleftrightarrow> x = y \<and> time_common t = time_common u"
  using tlv_inject_end [of "x @ time_common t" "y @ time_common u" g g] assms by simp

lemma century_inject:
  fixes a b :: int
  assumes "1950 \<le> a" "a < 2050" "1950 \<le> b" "b < 2050" "a mod 100 = b mod 100"
  shows "a = b"
proof -
  obtain p q r where "a = 100 * p + r" "b = 100 * q + r"
    using assms(5) mult_div_mod_eq [of 100 a] mult_div_mod_eq [of 100 b] by metis
  moreover from this assms have "p - q < 1" "q - p < 1" by linarith+
  ultimately show ?thesis by simp
qed

text \<open>A time in a certificate has whole seconds.\<close>

lemma marshal_time_inject:
  assumes "calendar t" and "calendar u" and "marshal_time t = Some d" and "marshal_time u = Some d"
  shows "whole_second t = whole_second u"
proof -
  let ?g = "\<lambda>v. t_year v < 1950 \<or> 2050 \<le> t_year v"
  have y: "t_year t = t_year u \<and> time_common t = time_common u"
  proof (cases "?g t"; cases "?g u")
    assume g: "?g t" "?g u"
    then have r: "0 \<le> t_year t" "t_year t \<le> 9999" "0 \<le> t_year u" "t_year u \<le> 9999"
      using assms(3,4) by (auto simp: marshal_time_def split: if_splits)
    with g assms(3,4) have "tlv GENERALIZED_TIME (four_digits (nat (t_year t)) @ time_common t) =
        tlv GENERALIZED_TIME (four_digits (nat (t_year u)) @ time_common u)"
      by (auto simp: marshal_time_def)
    then have "four_digits (nat (t_year t)) = four_digits (nat (t_year u))" "time_common t = time_common u"
      by (simp_all add: time_tlv_inject length_four_digits)
    then show ?thesis using r by (simp add: four_digits_inject)
  next
    assume g: "\<not> ?g t" "\<not> ?g u"
    with assms(3,4) have "tlv UTC_TIME (two_digits (nat (t_year t mod 100)) @ time_common t) =
        tlv UTC_TIME (two_digits (nat (t_year u mod 100)) @ time_common u)"
      by (auto simp: marshal_time_def)
    then have "two_digits (nat (t_year t mod 100)) = two_digits (nat (t_year u mod 100))" "time_common t = time_common u"
      by (simp_all add: time_tlv_inject)
    moreover from this(1) have m: "t_year t mod 100 = t_year u mod 100" by (simp add: two_digits_inject nat_less_iff)
    moreover have "t_year t = t_year u"
      by (rule century_inject [OF _ _ _ _ m]) (use g in \<open>simp_all add: not_less not_le\<close>)
    ultimately show ?thesis by simp
  qed (use assms(3,4) in \<open>auto simp: marshal_time_def tlv_def GENERALIZED_TIME_def UTC_TIME_def split: if_splits\<close>)
  then show ?thesis using time_common_inject [OF assms(1,2)] by (simp add: whole_second_def)
qed

lemma marshal_time_length: "marshal_time t = Some d \<Longrightarrow> length d \<le> 32"
  using tlv_le [of GENERALIZED_TIME "four_digits (nat (t_year t)) @ time_common t"]
    tlv_le [of UTC_TIME "two_digits (nat (t_year t mod 100)) @ time_common t"]
  by (auto simp: marshal_time_def length_four_digits split: if_splits)

section \<open>What is signed\<close>

definition extension_content :: "extension \<Rightarrow> bytes" where
  "extension_content e = oid_der (ex_OID e) @ (if ex_Critical e then tlv BOOLEAN [0xFF] else []) @ tlv OCTET_STRING (ex_Value e)"

lemma marshal_extensions:
  "those (map marshal_extension es) =
     (if list_all (\<lambda>e. oid_ok (ex_OID e)) es then Some (map (\<lambda>e. tlv SEQUENCE (extension_content e)) es) else None)"
  by (induction es) (simp_all add: marshal_extension_def marshal_oid_def extension_content_def)

lemma extension_content_inject:
  assumes "oid_ok (ex_OID e)" "oid_ok (ex_OID e')" "length (extension_content e) < 2 ^ 31" "extension_content e = extension_content e'"
  shows "e = e'"
proof -
  have l: "length (extension_content e') < 2 ^ 31" using assms(3,4) by simp
  have "length (oid_content (ex_OID e)) < 2 ^ 31" "length (oid_content (ex_OID e')) < 2 ^ 31"
    "length (ex_Value e) < 2 ^ 31" "length (ex_Value e') < 2 ^ 31"
    using assms(3) l by (simp_all add: extension_content_def oid_der_def length_tlv)
  note inj = tlv_inject [OF this(1,2)] tlv_inject_end [OF this(3,4)]
  from assms(4) have o: "oid_content (ex_OID e) = oid_content (ex_OID e')"
    and r: "(if ex_Critical e then tlv BOOLEAN [0xFF] else []) @ tlv OCTET_STRING (ex_Value e) =
       (if ex_Critical e' then tlv BOOLEAN [0xFF] else []) @ tlv OCTET_STRING (ex_Value e')"
    by (simp_all only: extension_content_def oid_der_def inj)
  have "ex_Critical e = ex_Critical e'"
    using r by (auto simp: tlv_def BOOLEAN_def OCTET_STRING_def split: if_splits)
  with r have "ex_Value e = ex_Value e'" by (simp add: inj split: if_splits)
  with oid_content_inject [OF assms(1,2) o] \<open>ex_Critical e = ex_Critical e'\<close> show ?thesis by simp
qed

lemma extensions_inject:
  assumes "list_all (\<lambda>e. oid_ok (ex_OID e)) es" "list_all (\<lambda>e. oid_ok (ex_OID e)) es'"
    and "length (concat (map (\<lambda>e. tlv SEQUENCE (extension_content e)) es)) < 2 ^ 31"
    and "concat (map (\<lambda>e. tlv SEQUENCE (extension_content e)) es) = concat (map (\<lambda>e. tlv SEQUENCE (extension_content e)) es')"
  shows "es = es'"
  using assms
proof (induction es arbitrary: es')
  case Nil
  then show ?case by (cases es') (simp_all add: tlv_def)
next
  case (Cons e es)
  show ?case
  proof (cases es')
    case Nil
    with Cons.prems(4) show ?thesis by (simp add: tlv_def)
  next
    case (Cons e' es'')
    let ?r = "concat (map (\<lambda>e. tlv SEQUENCE (extension_content e)) es)"
    have eq: "tlv SEQUENCE (extension_content e) @ ?r =
        tlv SEQUENCE (extension_content e') @ concat (map (\<lambda>e. tlv SEQUENCE (extension_content e)) es'')"
      using Cons.prems(4) by (simp add: Cons)
    have l: "length (extension_content e) < 2 ^ 31" "length ?r < 2 ^ 31" using Cons.prems(3) by (simp_all add: length_tlv)
    have "length (tlv SEQUENCE (extension_content e')) \<le> length (tlv SEQUENCE (extension_content e) @ ?r)" by (simp only: eq) simp
    also have "\<dots> < 2 ^ 31" using Cons.prems(3) by simp
    finally have l': "length (extension_content e') < 2 ^ 31" by (simp add: length_tlv)
    from eq have x: "extension_content e = extension_content e'"
      and r: "?r = concat (map (\<lambda>e. tlv SEQUENCE (extension_content e)) es'')" by (simp_all only: tlv_inject [OF l(1) l'])
    have "e = e'" using extension_content_inject [OF _ _ l(1) x] Cons.prems(1,2) by (simp add: Cons)
    moreover have "es = es''" using Cons.IH [OF _ _ l(2) r] Cons.prems(1,2) by (simp add: Cons)
    ultimately show ?thesis by (simp add: Cons)
  qed
qed

lemma marshal_time_tlv: "marshal_time t = Some d \<Longrightarrow> \<exists>g c. d = tlv g c"
  by (auto simp: marshal_time_def split: if_splits)

lemma marshal_tbs_Some:
  "marshal_tbs tbs = Some raw \<longleftrightarrow> oid_ok (tbs_KeyOID tbs) \<and> list_all (\<lambda>e. oid_ok (ex_OID e)) (tbs_Extensions tbs) \<and>
     (\<exists>nb na. marshal_time (tbs_NotBefore tbs) = Some nb \<and> marshal_time (tbs_NotAfter tbs) = Some na \<and>
        raw = tlv SEQUENCE (tlv 0xA0 (tlv INTEGER [2]) @ tlv INTEGER (der_nat (tbs_SerialNumber tbs)) @
            tlv SEQUENCE (oid_der oidXDSA) @ tbs_Issuer tbs @ tlv SEQUENCE (nb @ na) @ tbs_Subject tbs @
            spki_der (tbs_KeyOID tbs) (tbs_Key tbs) @
            tlv 0xA3 (tlv SEQUENCE (concat (map (\<lambda>e. tlv SEQUENCE (extension_content e)) (tbs_Extensions tbs))))))"
  by (auto simp: marshal_tbs_def marshal_oid_def marshal_extensions split: option.splits)

lemma spki_der_inject:
  assumes "spki_der x k = spki_der y l" and "length (spki_der x k) < 2 ^ 31" and "oid_ok x" and "oid_ok y"
  shows "x = y \<and> k = l"
proof -
  from tlv_split_end [OF assms(1) [unfolded spki_der_def spki_with_def append_Nil2] assms(2) [unfolded spki_der_def spki_with_def append_Nil2]]
  have e: "tlv SEQUENCE (oid_der x) @ tlv BIT_STRING (0 # k) = tlv SEQUENCE (oid_der y) @ tlv BIT_STRING (0 # l)" by simp
  have n: "length (tlv SEQUENCE (oid_der x) @ tlv BIT_STRING (0 # k)) < 2 ^ 31"
    using assms(2) by (simp add: spki_der_def spki_with_def length_tlv)
  from tlv_split [OF e n] have o: "oid_der x = oid_der y" and b: "tlv BIT_STRING (0 # k) = tlv BIT_STRING (0 # l)" by simp_all
  have "length (oid_der x) < 2 ^ 31" "length (tlv BIT_STRING (0 # k)) < 2 ^ 31" using n by (simp_all add: length_tlv)
  from tlv_split_end [OF o [unfolded oid_der_def] this(1) [unfolded oid_der_def]] tlv_split_end [OF b this(2)]
  show ?thesis using oid_content_inject [OF assms(3,4)] by simp
qed

text \<open>What a signed certificate says.\<close>

definition same_tbs :: "tbs_certificate \<Rightarrow> tbs_certificate \<Rightarrow> bool" where
  "same_tbs a b \<longleftrightarrow> tbs_SerialNumber a = tbs_SerialNumber b \<and> tbs_Issuer a = tbs_Issuer b \<and> tbs_Subject a = tbs_Subject b \<and>
     whole_second (tbs_NotBefore a) = whole_second (tbs_NotBefore b) \<and> whole_second (tbs_NotAfter a) = whole_second (tbs_NotAfter b) \<and>
     tbs_KeyOID a = tbs_KeyOID b \<and> tbs_Key a = tbs_Key b \<and> tbs_Extensions a = tbs_Extensions b"

lemma marshal_tbs_inject:
  assumes "marshal_tbs a = Some raw" and "marshal_tbs b = Some raw" and "length raw < 2 ^ 31"
    and "tbs_Issuer a = tlv SEQUENCE ia" "tbs_Issuer b = tlv SEQUENCE ib" "tbs_Subject a = tlv SEQUENCE sa" "tbs_Subject b = tlv SEQUENCE sb"
    and cal: "calendar (tbs_NotBefore a)" "calendar (tbs_NotAfter a)" "calendar (tbs_NotBefore b)" "calendar (tbs_NotAfter b)"
  shows "same_tbs a b"
proof -
  let ?x = "\<lambda>t. tlv 0xA3 (tlv SEQUENCE (concat (map (\<lambda>e. tlv SEQUENCE (extension_content e)) (tbs_Extensions t))))"
  let ?k = "\<lambda>t. spki_der (tbs_KeyOID t) (tbs_Key t)"
  from assms(1) obtain nb na where a: "oid_ok (tbs_KeyOID a)" "list_all (\<lambda>e. oid_ok (ex_OID e)) (tbs_Extensions a)"
    "marshal_time (tbs_NotBefore a) = Some nb" "marshal_time (tbs_NotAfter a) = Some na"
    and ra: "raw = tlv SEQUENCE (tlv 0xA0 (tlv INTEGER [2]) @ tlv INTEGER (der_nat (tbs_SerialNumber a)) @
            tlv SEQUENCE (oid_der oidXDSA) @ tlv SEQUENCE ia @ tlv SEQUENCE (nb @ na) @ tlv SEQUENCE sa @ ?k a @ ?x a)"
    unfolding marshal_tbs_Some assms(4,6) by blast
  from assms(2) obtain nb' na' where b: "oid_ok (tbs_KeyOID b)" "list_all (\<lambda>e. oid_ok (ex_OID e)) (tbs_Extensions b)"
    "marshal_time (tbs_NotBefore b) = Some nb'" "marshal_time (tbs_NotAfter b) = Some na'"
    and rb: "raw = tlv SEQUENCE (tlv 0xA0 (tlv INTEGER [2]) @ tlv INTEGER (der_nat (tbs_SerialNumber b)) @
            tlv SEQUENCE (oid_der oidXDSA) @ tlv SEQUENCE ib @ tlv SEQUENCE (nb' @ na') @ tlv SEQUENCE sb @ ?k b @ ?x b)"
    unfolding marshal_tbs_Some assms(5,7) by blast
  note len = assms(3) [unfolded ra]
  have e1: "tlv INTEGER (der_nat (tbs_SerialNumber a)) @ tlv SEQUENCE (oid_der oidXDSA) @ tlv SEQUENCE ia @ tlv SEQUENCE (nb @ na) @
        tlv SEQUENCE sa @ ?k a @ ?x a =
      tlv INTEGER (der_nat (tbs_SerialNumber b)) @ tlv SEQUENCE (oid_der oidXDSA) @ tlv SEQUENCE ib @ tlv SEQUENCE (nb' @ na') @
        tlv SEQUENCE sb @ ?k b @ ?x b"
    using tlv_split_end [OF _ len, unfolded ra [symmetric], OF rb] by simp
  have l1: "length (tlv INTEGER (der_nat (tbs_SerialNumber a)) @ tlv SEQUENCE (oid_der oidXDSA) @ tlv SEQUENCE ia @ tlv SEQUENCE (nb @ na) @
        tlv SEQUENCE sa @ ?k a @ ?x a) < 2 ^ 31" using len by (simp add: length_tlv)
  from tlv_split [OF e1 l1] have serial: "tbs_SerialNumber a = tbs_SerialNumber b"
    and e2: "tlv SEQUENCE ia @ tlv SEQUENCE (nb @ na) @ tlv SEQUENCE sa @ ?k a @ ?x a =
      tlv SEQUENCE ib @ tlv SEQUENCE (nb' @ na') @ tlv SEQUENCE sb @ ?k b @ ?x b" by (simp_all add: der_nat_inject)
  have l2: "length (tlv SEQUENCE ia @ tlv SEQUENCE (nb @ na) @ tlv SEQUENCE sa @ ?k a @ ?x a) < 2 ^ 31" using l1 by simp
  from tlv_split [OF e2 l2] have issuer: "ia = ib"
    and e3: "tlv SEQUENCE (nb @ na) @ tlv SEQUENCE sa @ ?k a @ ?x a = tlv SEQUENCE (nb' @ na') @ tlv SEQUENCE sb @ ?k b @ ?x b"
    by simp_all
  have l3: "length (tlv SEQUENCE (nb @ na) @ tlv SEQUENCE sa @ ?k a @ ?x a) < 2 ^ 31" using l2 by simp
  from tlv_split [OF e3 l3] have time: "nb @ na = nb' @ na'"
    and e4: "tlv SEQUENCE sa @ ?k a @ ?x a = tlv SEQUENCE sb @ ?k b @ ?x b" by simp_all
  have l4: "length (tlv SEQUENCE sa @ ?k a @ ?x a) < 2 ^ 31" using l3 by simp
  from tlv_split [OF e4 l4] have subject: "sa = sb" and e5: "?k a @ ?x a = ?k b @ ?x b" by simp_all
  have l5: "length (?k a @ ?x a) < 2 ^ 31" using l4 by simp
  from tlv_split [OF e5 [unfolded spki_der_def spki_with_def] l5 [unfolded spki_der_def spki_with_def]]
  have k: "?k a = ?k b" and x: "?x a = ?x b" by (simp_all add: spki_der_def spki_with_def)
  have l6: "length (?k a) < 2 ^ 31" "length (?x a) < 2 ^ 31" using l5 by simp_all
  note key = spki_der_inject [OF k l6(1) a(1) b(1)]
  from tlv_split_end [OF x l6(2)] have w: "tlv SEQUENCE (concat (map (\<lambda>e. tlv SEQUENCE (extension_content e)) (tbs_Extensions a))) =
      tlv SEQUENCE (concat (map (\<lambda>e. tlv SEQUENCE (extension_content e)) (tbs_Extensions b)))" by simp
  have "length (tlv SEQUENCE (concat (map (\<lambda>e. tlv SEQUENCE (extension_content e)) (tbs_Extensions a)))) < 2 ^ 31"
    using l6(2) length_content_less less_trans by blast
  from tlv_split_end [OF w this]
  have exts: "concat (map (\<lambda>e. tlv SEQUENCE (extension_content e)) (tbs_Extensions a)) =
      concat (map (\<lambda>e. tlv SEQUENCE (extension_content e)) (tbs_Extensions b))" by simp
  have "length (concat (map (\<lambda>e. tlv SEQUENCE (extension_content e)) (tbs_Extensions a))) < 2 ^ 31" using l5 by (simp add: length_tlv)
  note exts = extensions_inject [OF a(2) b(2) this exts]
  obtain g c g' c' where t: "nb = tlv g c" "nb' = tlv g' c'" using marshal_time_tlv a(3) b(3) by blast
  have "length (nb @ na) < 2 ^ 31" using l3 by (simp add: length_tlv)
  from tlv_split [OF time [unfolded t] this [unfolded t]] have "nb = nb'" "na = na'" by (simp_all add: t)
  with a b have "whole_second (tbs_NotBefore a) = whole_second (tbs_NotBefore b)" "whole_second (tbs_NotAfter a) = whole_second (tbs_NotAfter b)"
    using marshal_time_inject cal by blast+
  then show ?thesis using serial issuer subject key exts by (simp add: same_tbs_def assms(4-7))
qed

lemma marshal_rdns_tlv: "marshal_rdns rs = Some d \<Longrightarrow> \<exists>c. d = tlv SEQUENCE c"
  by (auto simp: marshal_rdns_def)

lemma certificate_tbs:
  assumes "marshal_certificate raw sig = marshal_certificate raw' sig'" and "length (marshal_certificate raw sig) < 2 ^ 31"
    and "marshal_tbs a = Some raw" and "marshal_tbs b = Some raw'"
  shows "raw = raw'"
proof -
  obtain c c' where c: "raw = tlv SEQUENCE c" "raw' = tlv SEQUENCE c'"
    using assms(3,4) unfolding marshal_tbs_Some by blast
  let ?r = "\<lambda>s. tlv SEQUENCE (oid_der oidXDSA) @ tlv BIT_STRING (0 # s)"
  have e: "tlv SEQUENCE c @ ?r sig = tlv SEQUENCE c' @ ?r sig'"
    using tlv_split_end [OF assms(1,2) [unfolded marshal_certificate_def]] by (simp add: c)
  have "length (tlv SEQUENCE c @ ?r sig) < 2 ^ 31" using assms(2) by (simp add: marshal_certificate_def c length_tlv)
  from tlv_split [OF e this] show ?thesis by (simp add: c)
qed

lemma constraints_inject:
  assumes "makeBasicConstraintsExt ca pl = makeBasicConstraintsExt ca' pl'"
  shows "ca = ca' \<and> pl = pl'"
proof -
  let ?n = "\<lambda>pl :: byte option. case pl of None \<Rightarrow> -1 | Some n \<Rightarrow> int (unat n)"
  have r: "-1 \<le> ?n pl" "?n pl < 256" for pl :: "byte option" 
    by (cases pl; simp del: of_nat_unat)+
  from assms have "bc_read (basic_constraints ca (?n pl)) = bc_read (basic_constraints ca' (?n pl'))"
    by (simp add: makeBasicConstraintsExt_def)
  then have "ca = ca'" "?n pl = ?n pl'" by (simp_all only: bc_read_constraints [OF r] prod.inject)
  moreover have "- 1 \<noteq> int n" for n by linarith
  moreover have "int n \<noteq> - 1" for n by linarith
  ultimately show ?thesis by (cases pl; cases pl') (simp_all add: word_unat_eq_iff del: of_nat_unat)
qed

lemma New_same:
  assumes "New sha1 rnd subject pk sign t = Some (Inr der)" and "New sha1 rnd' subject' pk' sign' t' = Some (Inr der)"
    and "length der < 2 ^ 31" and "\<And>k. length (sha1 k) = 20"
    and "calendar (tp_NotBefore t)" "calendar (tp_NotAfter t)" "calendar (tp_NotBefore t')" "calendar (tp_NotAfter t')"
  shows "subject = subject' \<and> makeSerial rnd = makeSerial rnd' \<and> sha1 pk = sha1 pk' \<and> tp_Role t = tp_Role t' \<and>
    marshal_rdns (ToRDNSequence (tp_Issuer t)) = marshal_rdns (ToRDNSequence (tp_Issuer t')) \<and>
    marshal_rdns (ToRDNSequence (tp_Subject t)) = marshal_rdns (ToRDNSequence (tp_Subject t')) \<and>
    whole_second (tp_NotBefore t) = whole_second (tp_NotBefore t') \<and> whole_second (tp_NotAfter t) = whole_second (tp_NotAfter t') \<and>
    tp_Extensions t = tp_Extensions t'"
proof -
  from assms(1) obtain i s raw sig where a: "marshal_rdns (ToRDNSequence (tp_Issuer t)) = Some i"
    "marshal_rdns (ToRDNSequence (tp_Subject t)) = Some s" "marshal_tbs (template_tbs sha1 rnd subject pk t i s) = Some raw"
    "der = marshal_certificate raw sig" unfolding New_Inr by blast
  from assms(2) obtain i' s' raw' sig' where b: "marshal_rdns (ToRDNSequence (tp_Issuer t')) = Some i'"
    "marshal_rdns (ToRDNSequence (tp_Subject t')) = Some s'" "marshal_tbs (template_tbs sha1 rnd' subject' pk' t' i' s') = Some raw'"
    "der = marshal_certificate raw' sig'" unfolding New_Inr by blast
  have raw: "raw = raw'" using certificate_tbs [OF _ _ a(3) b(3)] a(4) b(4) assms(3) by metis
  have "length raw < length der" by (simp add: a(4) marshal_certificate_def length_tlv)
  then have l: "length raw < 2 ^ 31" using assms(3) by linarith
  obtain ci cs ci' cs' where n: "i = tlv SEQUENCE ci" "s = tlv SEQUENCE cs" "i' = tlv SEQUENCE ci'" "s' = tlv SEQUENCE cs'"
    using a(1,2) b(1,2) marshal_rdns_tlv by metis
  have same: "same_tbs (template_tbs sha1 rnd subject pk t i s) (template_tbs sha1 rnd' subject' pk' t' i' s')"
    by (rule marshal_tbs_inject [OF a(3) b(3) [folded raw] l]) (simp_all add: template_tbs_def n assms(5-8))
  then have e: "standard_extensions sha1 (tp_Role t) subject pk @ tp_Extensions t =
      standard_extensions sha1 (tp_Role t') subject' pk' @ tp_Extensions t'"
    unfolding same_tbs_def template_tbs_def tbs_certificate.simps by blast
  then have "makeBasicConstraintsExt (r_isCA (tp_Role t)) (r_pathLen (tp_Role t)) =
      makeBasicConstraintsExt (r_isCA (tp_Role t')) (r_pathLen (tp_Role t'))" "makeAKIExt sha1 pk = makeAKIExt sha1 pk'"
    "tp_Extensions t = tp_Extensions t'" by (simp_all add: standard_extensions_def)
  moreover from this(1) have "tp_Role t = tp_Role t'" using constraints_inject by (cases "tp_Role t"; cases "tp_Role t'") fastforce
  moreover have "sha1 pk = sha1 pk'"
    using calculation(2) assms(4) by (simp add: makeAKIExt_def tlv_def)
  ultimately show ?thesis using same a(1,2) b(1,2) by (simp add: same_tbs_def template_tbs_def)
qed

section \<open>The sample certificate is small\<close>

lemma sample_extensions:
  "length (concat (map (\<lambda>e. tlv SEQUENCE (extension_content e)) (tp_Extensions (sample_template r)))) \<le> 100"
  by (simp add: sample_template_def extension_content_def length_tlv oid_der_def der_length_def base128_def base128_high.simps)

lemma bc_length: "length (basic_constraints ca (case pl of None \<Rightarrow> -1 | Some n \<Rightarrow> int (unat n))) \<le> 30" for pl :: "byte option"
proof -
  let ?n = "case pl of None \<Rightarrow> -1 | Some n \<Rightarrow> int (unat n)"
  have "nat ?n < 256" by (cases pl) (simp_all del: of_nat_unat)
  then have "length (der_nat (nat ?n)) \<le> 2" by (rule der_nat_length)
  then show ?thesis by (simp add: basic_constraints_def length_tlv der_length_def)
qed

lemma standard_extensions_length:
  assumes "\<And>k. length (sha1 k) = 20"
  shows "length (concat (map (\<lambda>e. tlv SEQUENCE (extension_content e)) (standard_extensions sha1 role subject pk))) \<le> 1000"
proof -
  have e: "length (tlv SEQUENCE (extension_content e)) \<le> 4 * length (ex_Value e) + 50" if "ex_OID e = [2, 5, 29, n]" "n < 128" for e n
  proof -
    have "length (extension_content e) \<le> 10 + length (tlv OCTET_STRING (ex_Value e))"
      using that by (simp add: extension_content_def length_tlv [of OBJECT_IDENTIFIER] length_tlv [of BOOLEAN] oid_der_def
          der_length_def base128_def base128_high.simps)
    then show ?thesis using tlv_le [of SEQUENCE "extension_content e"] tlv_le [of OCTET_STRING "ex_Value e"] by linarith
  qed
  have "length (ex_Value (makeBasicConstraintsExt (r_isCA role) (r_pathLen role))) \<le> 30" by (simp only: makeBasicConstraintsExt_def extension.simps bc_length)
  moreover have "length (ex_Value (makeKeyUsageExt (r_isCA role) (subject_oid subject))) \<le> 30"
    by (simp add: makeKeyUsageExt_def bit_byte_def length_tlv der_length_def)
  moreover have "length (ex_Value (makeSKIExt sha1 subject)) \<le> 30" "length (ex_Value (makeAKIExt sha1 pk)) \<le> 30"
    by (simp_all add: makeSKIExt_def makeAKIExt_def length_tlv der_length_def assms)
  moreover note e [of "makeBasicConstraintsExt (r_isCA role) (r_pathLen role)" 19] e [of "makeKeyUsageExt (r_isCA role) (subject_oid subject)" 15]
    e [of "makeSKIExt sha1 subject" 14] e [of "makeAKIExt sha1 pk" 35]
  ultimately show ?thesis
    by (simp add: standard_extensions_def makeBasicConstraintsExt_def makeKeyUsageExt_def makeSKIExt_def makeAKIExt_def)
qed

lemma sample_name_length:
  "marshal_rdns (ToRDNSequence (tp_Issuer (sample_template r))) = Some i \<Longrightarrow> length i \<le> 100"
  "marshal_rdns (ToRDNSequence (tp_Subject (sample_template r))) = Some i \<Longrightarrow> length i \<le> 100"
  by (auto simp: sample_template_def sample_name_def ToRDNSequence_def appendRDNs_def name_oids marshal_rdns_def marshal_rdn_def
      marshal_attribute_def marshal_oid_def oid_ok_def marshal_string_def printable_def length_tlv der_length_def oid_der_def base128_def base128_high.simps)

lemma sample_certificate_length:
  assumes "New sha1 rnd subject pk sign (sample_template r) = Some (Inr der)"
    and "\<And>k. length (sha1 k) = 20" "length rnd = 16" "length subject \<le> 2000" "\<And>m s. sign m = Inr s \<Longrightarrow> length s \<le> 4000"
  shows "length der < 2 ^ 31"
proof -
  let ?t = "sample_template r"
  from assms(1) obtain i s raw sig where n: "marshal_rdns (ToRDNSequence (tp_Issuer ?t)) = Some i"
    "marshal_rdns (ToRDNSequence (tp_Subject ?t)) = Some s" and raw: "marshal_tbs (template_tbs sha1 rnd subject pk ?t i s) = Some raw"
    and sig: "sign raw = Inr sig" and der: "der = marshal_certificate raw sig" unfolding New_Inr by blast
  let ?exts = "concat (map (\<lambda>e. tlv SEQUENCE (extension_content e)) (standard_extensions sha1 (tp_Role ?t) subject pk @ tp_Extensions ?t))"
  let ?k = "spki_der (subject_oid subject) subject"
  from raw obtain nb na where d: "length nb \<le> 32" "length na \<le> 32"
    and r: "raw = tlv SEQUENCE (tlv 0xA0 (tlv INTEGER [2]) @ tlv INTEGER (der_nat (makeSerial rnd)) @
            tlv SEQUENCE (oid_der oidXDSA) @ i @ tlv SEQUENCE (nb @ na) @ s @ ?k @ tlv 0xA3 (tlv SEQUENCE ?exts))"
    unfolding marshal_tbs_Some template_tbs_def tbs_certificate.simps using marshal_time_length by blast
  have x: "length ?exts \<le> 1100" using standard_extensions_length [where ?sha1.0 = sha1 and role = "tp_Role ?t" and subject = subject and pk = pk, OF assms(2)] sample_extensions [of r]
    unfolding map_append concat_append length_append by linarith
  have ser: "length (der_nat (makeSerial rnd)) = 16" by (rule makeSerial_length [OF assms(3)])
  have oid: "length (oid_der oidXDSA) \<le> 20" "length (oid_der (subject_oid subject)) \<le> 20"
    by (simp_all add: oid_der_def oidXDSA_def oidXWing_def subject_oid_def length_tlv der_length_def base128_def base128_high.simps)
  have k: "length ?k \<le> 20000"
    using oid assms(4) tlv_le [of SEQUENCE "oid_der (subject_oid subject)"] tlv_le [of BIT_STRING "0 # subject"]
      tlv_le [of SEQUENCE "tlv SEQUENCE (oid_der (subject_oid subject)) @ tlv BIT_STRING (0 # subject)"]
    by (simp add: spki_der_def spki_with_def)
  have "length raw \<le> 100000"
    unfolding r
    using k x ser oid(1) d sample_name_length(1) [OF n(1)] sample_name_length(2) [OF n(2)]
      tlv_le [of INTEGER "[2]"] tlv_le [of "0xA0" "tlv INTEGER [2]"] tlv_le [of INTEGER "der_nat (makeSerial rnd)"]
      tlv_le [of SEQUENCE "oid_der oidXDSA"] tlv_le [of SEQUENCE "nb @ na"] tlv_le [of SEQUENCE ?exts] tlv_le [of "0xA3" "tlv SEQUENCE ?exts"]
    by (intro order_trans [OF tlv_le]) (simp del: map_append concat_append)
  then show ?thesis
    using oid(1) assms(5) [OF sig] tlv_le [of SEQUENCE "oid_der oidXDSA"] tlv_le [of BIT_STRING "0 # sig"]
      tlv_le [of SEQUENCE "raw @ tlv SEQUENCE (oid_der oidXDSA) @ tlv BIT_STRING (0 # sig)"]
    by (simp add: der marshal_certificate_def)
qed

section \<open>Properties\<close>

text \<open>C37: an issued certificate says everything its issuer was asked for. If two requests end in the
  same certificate, they were for the same public key with the same serial number, the same names,
  the same period up to parts of a second, the same role and path length and the same custom
  extensions, and the issuers' keys have the same hash.\<close>

theorem certificate_binds:
  assumes "New sha1 rnd subject pk sign t = Some (Inr der)" and "New sha1 rnd' subject' pk' sign' t' = Some (Inr der)"
    and "length der < 2 ^ 31" and "\<And>k. length (sha1 k) = 20"
    and "calendar (tp_NotBefore t)" "calendar (tp_NotAfter t)" "calendar (tp_NotBefore t')" "calendar (tp_NotAfter t')"
  shows "subject = subject' \<and> makeSerial rnd = makeSerial rnd' \<and> sha1 pk = sha1 pk' \<and> tp_Role t = tp_Role t' \<and>
    marshal_rdns (ToRDNSequence (tp_Issuer t)) = marshal_rdns (ToRDNSequence (tp_Issuer t')) \<and>
    marshal_rdns (ToRDNSequence (tp_Subject t)) = marshal_rdns (ToRDNSequence (tp_Subject t')) \<and>
    whole_second (tp_NotBefore t) = whole_second (tp_NotBefore t') \<and> whole_second (tp_NotAfter t) = whole_second (tp_NotAfter t') \<and>
    tp_Extensions t = tp_Extensions t'"
  by (rule New_same [OF assms])

lemma certificate_binds_witness:
  "\<exists>der. New (fixed 20) (replicate 16 0) (replicate 1984 0) [2] (\<lambda>m. Inr [1]) (sample_template RoleLeaf) = Some (Inr der) \<and>
    New (fixed 20) (0x81 # replicate 15 0) (replicate 1984 0) (2 # replicate 30 0) (\<lambda>m. Inr [1]) (sample_template RoleLeaf) = Some (Inr der) \<and>
    makeSerial (replicate 16 0) = makeSerial (0x81 # replicate 15 0)"
proof -
  let ?k = "replicate 1984 0 :: bytes" and ?t = "sample_template RoleLeaf" and ?s = "\<lambda>m. Inr [1]"
  have k: "length ?k = 1984 \<or> length ?k = 1216" by simp
  have serial: "makeSerial (replicate 16 0) = makeSerial (0x81 # replicate 15 0)" 
  proof -
    have "replicate 16 0 = (0 :: byte) # replicate 15 0" by (simp add: numeral_eq_Suc)
    then show ?thesis by (simp add: makeSerial_Cons)
  qed
  have pk: "fixed 20 (2 # replicate 30 0) = fixed 20 [2]" by (simp add: fixed_def)
  obtain der where d: "New (fixed 20) (replicate 16 0) ?k [2] ?s ?t = Some (Inr der)"
    by (rule New_cases [OF k, of ?t "fixed 20" "replicate 16 0" "[2]" ?s]) (simp_all add: sample_template_ok)
  then have e: "New (fixed 20) (0x81 # replicate 15 0) ?k (2 # replicate 30 0) ?s ?t = Some (Inr der)"
    unfolding New_def standard_extensions_def makeAKIExt_def pk serial .
  have "length der < 2 ^ 31" by (rule sample_certificate_length [OF d]) auto
  from certificate_binds [OF d e this] show ?thesis using d e
    by (simp add: sample_template_def calendar_def)
qed

end
