(* ===== verification/Certs.thy ===== *)
theory Certs
  imports X509_Binding Xhpke
begin

text \<open>
  The certificates of the key packages, \<^verbatim>\<open>src/xdsa/cert.go\<close> and \<^verbatim>\<open>src/xhpke/cert.go\<close>. Reading uses
  \<^verbatim>\<open>crypto/x509\<close>: its \<^verbatim>\<open>ParseCertificate\<close> is a parameter, and a \<open>certificate\<close> holds what the code
  reads of its result, distinguished names as what their \<^verbatim>\<open>String\<close> method returns. The time of
  \<^verbatim>\<open>time.Now()\<close> is an argument.
\<close>

record certificate =
  ct_RawTBSCertificate :: bytes
  ct_RawSubjectPublicKeyInfo :: bytes
  ct_Signature :: bytes
  ct_NotBefore :: go_time
  ct_NotAfter :: go_time
  ct_IsCA :: bool
  ct_KeyUsage :: int
  ct_MaxPathLen :: int
  ct_MaxPathLenZero :: bool
  ct_Issuer :: bytes
  ct_Subject :: bytes

type_synonym parse_certificate = "bytes \<Rightarrow> certificate option"

definition KeyUsageDigitalSignature :: int where "KeyUsageDigitalSignature = 1"
definition KeyUsageKeyAgreement :: int where "KeyUsageKeyAgreement = 16"
definition KeyUsageCertSign :: int where "KeyUsageCertSign = 32"
definition KeyUsageCRLSign :: int where "KeyUsageCRLSign = 64"

lemmas key_usages = KeyUsageDigitalSignature_def KeyUsageKeyAgreement_def KeyUsageCertSign_def KeyUsageCRLSign_def

record 'k verified =
  vf_PublicKey :: 'k
  vf_Certificate :: certificate

text \<open>\<^verbatim>\<open>pem.Decode\<close> and the check of the block type in front of a \<^verbatim>\<open>VerifyCertDER\<close>.\<close>

definition cert_pem :: "(bytes \<Rightarrow> cert_error + 'a) \<Rightarrow> bytes \<Rightarrow> cert_error + 'a" where
  "cert_pem verify s =
     (case Decode s of
        Inl e \<Rightarrow> Inl (CertKeyError (PemError e))
      | Inr (kind, blob) \<Rightarrow> if kind \<noteq> ascii ''CERTIFICATE'' then Inl (CertKeyError InvalidPEMType) else verify blob)"

section \<open>\<^verbatim>\<open>xdsa/cert.go\<close>\<close>

definition xdsa_xdsaSigner_Sign :: "xdsa_signer \<Rightarrow> bytes \<Rightarrow> key_error + bytes" where
  "xdsa_xdsaSigner_Sign s message = (case sg_sign s message of Inl e \<Rightarrow> Inl e | Inr sig \<Rightarrow> Inr sig)"

definition xdsa_xdsaSigner_PublicKey :: "xdsa_signer \<Rightarrow> bytes" where
  "xdsa_xdsaSigner_PublicKey s = xdsa_PublicKey_Marshal (sg_public s)"

definition xdsa_IssueCertDER :: "(bytes \<Rightarrow> bytes) \<Rightarrow> bytes \<Rightarrow> xdsa_public \<Rightarrow> xdsa_signer \<Rightarrow> template \<Rightarrow> (cert_error + bytes) option" where
  "xdsa_IssueCertDER sha1 rnd subject issuer template =
     New sha1 rnd (xdsa_PublicKey_Marshal subject) (xdsa_xdsaSigner_PublicKey issuer) (xdsa_xdsaSigner_Sign issuer) template"

definition xdsa_IssueCertPEM :: "(bytes \<Rightarrow> bytes) \<Rightarrow> bytes \<Rightarrow> xdsa_public \<Rightarrow> xdsa_signer \<Rightarrow> template \<Rightarrow> (cert_error + bytes) option" where
  "xdsa_IssueCertPEM sha1 rnd subject issuer template =
     (case xdsa_IssueCertDER sha1 rnd subject issuer template of
        None \<Rightarrow> None
      | Some (Inl e) \<Rightarrow> Some (Inl e)
      | Some (Inr der) \<Rightarrow> Some (Inr (Encode (ascii ''CERTIFICATE'') der)))"

definition xdsa_VerifyCertDER :: "'r primitives \<Rightarrow> cryptobyte \<Rightarrow> parse_certificate \<Rightarrow> go_time \<Rightarrow>
    bytes \<Rightarrow> xdsa_public \<Rightarrow> validity_check \<Rightarrow> cert_error + xdsa_public verified" where
  "xdsa_VerifyCertDER P cb pc now der issuer validity =
     (case pc der of
        None \<Rightarrow> Inl MalformedCertificate
      | Some cert \<Rightarrow>
          if length (ct_Signature cert) \<noteq> xdsa_SignatureSize then Inl InvalidSignatureLength
          else case xdsa_Verify P issuer (ct_RawTBSCertificate cert) (ct_Signature cert) of
            Inl e \<Rightarrow> Inl (CertKeyError e)
          | Inr _ \<Rightarrow>
              if (case Timestamp now validity of None \<Rightarrow> False
                  | Some t \<Rightarrow> Before t (ct_NotBefore cert) \<or> After t (ct_NotAfter cert))
              then Inl ErrExpiredCertificate
              else if ct_IsCA cert \<and> ct_KeyUsage cert \<noteq> (KeyUsageCertSign OR KeyUsageCRLSign) then Inl ErrInvalidKeyUsage
              else if \<not> ct_IsCA cert \<and> ct_KeyUsage cert \<noteq> KeyUsageDigitalSignature then Inl ErrInvalidKeyUsage
              else case ParseSubjectPublicKeyInfo cb (ct_RawSubjectPublicKeyInfo cert) of
                Inl e \<Rightarrow> Inl (CertKeyError (AsnError e))
              | Inr spki \<Rightarrow>
                  if sp_bitlen spki mod 8 \<noteq> 0 then Inl (CertKeyError NotByteAligned)
                  else if length (sp_bytes spki) \<noteq> xdsa_PublicKeySize then Inl (CertKeyError InvalidLength)
                  else case xdsa_ParsePublicKey P (sp_bytes spki) of
                    Inl e \<Rightarrow> Inl (CertKeyError e)
                  | Inr key \<Rightarrow> Inr \<lparr>vf_PublicKey = key, vf_Certificate = cert\<rparr>)"

definition xdsa_VerifyCertPEM :: "'r primitives \<Rightarrow> cryptobyte \<Rightarrow> parse_certificate \<Rightarrow> go_time \<Rightarrow>
    bytes \<Rightarrow> xdsa_public \<Rightarrow> validity_check \<Rightarrow> cert_error + xdsa_public verified" where
  "xdsa_VerifyCertPEM P cb pc now s issuer validity = cert_pem (\<lambda>blob. xdsa_VerifyCertDER P cb pc now blob issuer validity) s"

definition xdsa_enforceIssuerChaining :: "certificate \<Rightarrow> certificate \<Rightarrow> cert_error + unit" where
  "xdsa_enforceIssuerChaining child issuer =
     (if \<not> ct_IsCA issuer then Inl ErrIssuerNotCA
      else if ct_KeyUsage issuer \<noteq> (KeyUsageCertSign OR KeyUsageCRLSign) then Inl ErrIssuerKeyUsage
      else if (ct_MaxPathLenZero issuer \<or> ct_MaxPathLen issuer > 0) \<and>
          (ct_IsCA child \<and> ct_MaxPathLen issuer = 0 \<and> ct_MaxPathLenZero issuer) then Inl ErrIssuerPathLen
      else if ct_Issuer child \<noteq> ct_Subject issuer then Inl ErrIssuerDNMismatch
      else Inr ())"

definition xdsa_VerifyCertDERWithIssuer :: "'r primitives \<Rightarrow> cryptobyte \<Rightarrow> parse_certificate \<Rightarrow> go_time \<Rightarrow>
    bytes \<Rightarrow> xdsa_public verified \<Rightarrow> validity_check \<Rightarrow> cert_error + xdsa_public verified" where
  "xdsa_VerifyCertDERWithIssuer P cb pc now der issuerCert validity =
     (case xdsa_VerifyCertDER P cb pc now der (vf_PublicKey issuerCert) validity of
        Inl e \<Rightarrow> Inl e
      | Inr cert \<Rightarrow>
          (case xdsa_enforceIssuerChaining (vf_Certificate cert) (vf_Certificate issuerCert) of
             Inl e \<Rightarrow> Inl e
           | Inr _ \<Rightarrow> Inr cert))"

definition xdsa_VerifyCertPEMWithIssuer :: "'r primitives \<Rightarrow> cryptobyte \<Rightarrow> parse_certificate \<Rightarrow> go_time \<Rightarrow>
    bytes \<Rightarrow> xdsa_public verified \<Rightarrow> validity_check \<Rightarrow> cert_error + xdsa_public verified" where
  "xdsa_VerifyCertPEMWithIssuer P cb pc now s issuerCert validity =
     (case xdsa_VerifyCertPEM P cb pc now s (vf_PublicKey issuerCert) validity of
        Inl e \<Rightarrow> Inl e
      | Inr cert \<Rightarrow>
          (case xdsa_enforceIssuerChaining (vf_Certificate cert) (vf_Certificate issuerCert) of
             Inl e \<Rightarrow> Inl e
           | Inr _ \<Rightarrow> Inr cert))"

definition xdsa_MustVerifyCertDER :: "'r primitives \<Rightarrow> cryptobyte \<Rightarrow> parse_certificate \<Rightarrow> go_time \<Rightarrow>
    bytes \<Rightarrow> xdsa_public \<Rightarrow> validity_check \<Rightarrow> xdsa_public verified option" where
  "xdsa_MustVerifyCertDER P cb pc now der issuer validity = must (xdsa_VerifyCertDER P cb pc now der issuer validity)"

definition xdsa_MustVerifyCertPEM :: "'r primitives \<Rightarrow> cryptobyte \<Rightarrow> parse_certificate \<Rightarrow> go_time \<Rightarrow>
    bytes \<Rightarrow> xdsa_public \<Rightarrow> validity_check \<Rightarrow> xdsa_public verified option" where
  "xdsa_MustVerifyCertPEM P cb pc now s issuer validity = must (xdsa_VerifyCertPEM P cb pc now s issuer validity)"

section \<open>\<^verbatim>\<open>xhpke/cert.go\<close>\<close>

definition xhpke_xdsaSigner_Sign :: "xdsa_signer \<Rightarrow> bytes \<Rightarrow> key_error + bytes" where
  "xhpke_xdsaSigner_Sign s message = (case sg_sign s message of Inl e \<Rightarrow> Inl e | Inr sig \<Rightarrow> Inr sig)"

definition xhpke_xdsaSigner_PublicKey :: "xdsa_signer \<Rightarrow> bytes" where
  "xhpke_xdsaSigner_PublicKey s = xdsa_PublicKey_Marshal (sg_public s)"

definition xhpke_IssueCertDER :: "(bytes \<Rightarrow> bytes) \<Rightarrow> bytes \<Rightarrow> xhpke_public \<Rightarrow> xdsa_signer \<Rightarrow> template \<Rightarrow> (cert_error + bytes) option" where
  "xhpke_IssueCertDER sha1 rnd subject issuer template =
     (if IsCA (tp_Role template) then Some (Inl ErrMustBeLeaf)
      else New sha1 rnd (xhpke_PublicKey_Marshal subject) (xhpke_xdsaSigner_PublicKey issuer) (xhpke_xdsaSigner_Sign issuer) template)"

definition xhpke_IssueCertPEM :: "(bytes \<Rightarrow> bytes) \<Rightarrow> bytes \<Rightarrow> xhpke_public \<Rightarrow> xdsa_signer \<Rightarrow> template \<Rightarrow> (cert_error + bytes) option" where
  "xhpke_IssueCertPEM sha1 rnd subject issuer template =
     (case xhpke_IssueCertDER sha1 rnd subject issuer template of
        None \<Rightarrow> None
      | Some (Inl e) \<Rightarrow> Some (Inl e)
      | Some (Inr der) \<Rightarrow> Some (Inr (Encode (ascii ''CERTIFICATE'') der)))"

definition xhpke_VerifyCertDER :: "'r primitives \<Rightarrow> cryptobyte \<Rightarrow> parse_certificate \<Rightarrow> go_time \<Rightarrow>
    bytes \<Rightarrow> xdsa_public \<Rightarrow> validity_check \<Rightarrow> cert_error + xhpke_public verified" where
  "xhpke_VerifyCertDER P cb pc now der issuer validity =
     (case pc der of
        None \<Rightarrow> Inl MalformedCertificate
      | Some cert \<Rightarrow>
          if length (ct_Signature cert) \<noteq> xdsa_SignatureSize then Inl InvalidSignatureLength
          else case xdsa_Verify P issuer (ct_RawTBSCertificate cert) (ct_Signature cert) of
            Inl e \<Rightarrow> Inl (CertKeyError e)
          | Inr _ \<Rightarrow>
              if (case Timestamp now validity of None \<Rightarrow> False
                  | Some t \<Rightarrow> Before t (ct_NotBefore cert) \<or> After t (ct_NotAfter cert))
              then Inl ErrExpiredCertificate
              else if ct_KeyUsage cert \<noteq> KeyUsageKeyAgreement then Inl ErrInvalidKeyUsage
              else if ct_IsCA cert then Inl ErrMustBeLeaf
              else case ParseSubjectPublicKeyInfo cb (ct_RawSubjectPublicKeyInfo cert) of
                Inl e \<Rightarrow> Inl (CertKeyError (AsnError e))
              | Inr spki \<Rightarrow>
                  if sp_bitlen spki mod 8 \<noteq> 0 then Inl (CertKeyError NotByteAligned)
                  else if length (sp_bytes spki) \<noteq> xhpke_PublicKeySize then Inl (CertKeyError InvalidLength)
                  else case xhpke_ParsePublicKey P (sp_bytes spki) of
                    Inl e \<Rightarrow> Inl (CertKeyError e)
                  | Inr key \<Rightarrow> Inr \<lparr>vf_PublicKey = key, vf_Certificate = cert\<rparr>)"

definition xhpke_VerifyCertPEM :: "'r primitives \<Rightarrow> cryptobyte \<Rightarrow> parse_certificate \<Rightarrow> go_time \<Rightarrow>
    bytes \<Rightarrow> xdsa_public \<Rightarrow> validity_check \<Rightarrow> cert_error + xhpke_public verified" where
  "xhpke_VerifyCertPEM P cb pc now s issuer validity = cert_pem (\<lambda>blob. xhpke_VerifyCertDER P cb pc now blob issuer validity) s"

definition xhpke_enforceIssuerChaining :: "certificate \<Rightarrow> certificate \<Rightarrow> cert_error + unit" where
  "xhpke_enforceIssuerChaining child issuer =
     (if \<not> ct_IsCA issuer then Inl ErrIssuerNotCA
      else if ct_KeyUsage issuer \<noteq> (KeyUsageCertSign OR KeyUsageCRLSign) then Inl ErrIssuerKeyUsage
      else if ct_Issuer child \<noteq> ct_Subject issuer then Inl ErrIssuerDNMismatch
      else Inr ())"

definition xhpke_VerifyCertDERWithIssuer :: "'r primitives \<Rightarrow> cryptobyte \<Rightarrow> parse_certificate \<Rightarrow> go_time \<Rightarrow>
    bytes \<Rightarrow> xdsa_public verified \<Rightarrow> validity_check \<Rightarrow> cert_error + xhpke_public verified" where
  "xhpke_VerifyCertDERWithIssuer P cb pc now der issuerCert validity =
     (case xhpke_VerifyCertDER P cb pc now der (vf_PublicKey issuerCert) validity of
        Inl e \<Rightarrow> Inl e
      | Inr cert \<Rightarrow>
          (case xhpke_enforceIssuerChaining (vf_Certificate cert) (vf_Certificate issuerCert) of
             Inl e \<Rightarrow> Inl e
           | Inr _ \<Rightarrow> Inr cert))"

definition xhpke_VerifyCertPEMWithIssuer :: "'r primitives \<Rightarrow> cryptobyte \<Rightarrow> parse_certificate \<Rightarrow> go_time \<Rightarrow>
    bytes \<Rightarrow> xdsa_public verified \<Rightarrow> validity_check \<Rightarrow> cert_error + xhpke_public verified" where
  "xhpke_VerifyCertPEMWithIssuer P cb pc now s issuerCert validity =
     (case xhpke_VerifyCertPEM P cb pc now s (vf_PublicKey issuerCert) validity of
        Inl e \<Rightarrow> Inl e
      | Inr cert \<Rightarrow>
          (case xhpke_enforceIssuerChaining (vf_Certificate cert) (vf_Certificate issuerCert) of
             Inl e \<Rightarrow> Inl e
           | Inr _ \<Rightarrow> Inr cert))"

definition xhpke_MustVerifyCertDER :: "'r primitives \<Rightarrow> cryptobyte \<Rightarrow> parse_certificate \<Rightarrow> go_time \<Rightarrow>
    bytes \<Rightarrow> xdsa_public \<Rightarrow> validity_check \<Rightarrow> xhpke_public verified option" where
  "xhpke_MustVerifyCertDER P cb pc now der issuer validity = must (xhpke_VerifyCertDER P cb pc now der issuer validity)"

definition xhpke_MustVerifyCertPEM :: "'r primitives \<Rightarrow> cryptobyte \<Rightarrow> parse_certificate \<Rightarrow> go_time \<Rightarrow>
    bytes \<Rightarrow> xdsa_public \<Rightarrow> validity_check \<Rightarrow> xhpke_public verified option" where
  "xhpke_MustVerifyCertPEM P cb pc now s issuer validity = must (xhpke_VerifyCertPEM P cb pc now s issuer validity)"

section \<open>Verifying, for both kinds of keys\<close>

text \<open>The verification time, if there is one, lies in the period of the certificate.\<close>

definition in_period :: "go_time \<Rightarrow> validity_check \<Rightarrow> go_time \<Rightarrow> go_time \<Rightarrow> bool" where
  "in_period now validity nb na \<longleftrightarrow> (case Timestamp now validity of None \<Rightarrow> True | Some t \<Rightarrow> nb \<le> t \<and> t \<le> na)"

lemma not_in_period:
  "(case Timestamp now validity of None \<Rightarrow> False | Some t \<Rightarrow> Before t nb \<or> After t na) \<longleftrightarrow> \<not> in_period now validity nb na"
  by (auto simp: in_period_def Before_def After_def split: option.splits)

lemma pad_aligned: "(8 * int l - int p) mod 8 = 0 \<longleftrightarrow> 8 dvd p"
proof -
  have "8 dvd (8 * a - b) \<longleftrightarrow> 8 dvd b" for a b :: int by presburger
  then show ?thesis using int_dvd_int_iff [of 8 p] by (simp add: dvd_eq_mod_eq_0)
qed

text \<open>
  The interface of a certified key: its raw encoding, and a verification that checks, in any order,
  the signature of the issuer, the period, a profile of role and key usage, and the key.
\<close>

locale certified_key = spki_key +
  fixes P :: "'r primitives"
    and pc :: parse_certificate
    and profile :: "certificate \<Rightarrow> bool"
    and verify_der :: "go_time \<Rightarrow> bytes \<Rightarrow> xdsa_public \<Rightarrow> validity_check \<Rightarrow> cert_error + 'a verified"
  assumes verify_der: "verify_der now der issuer validity = Inr \<lparr>vf_PublicKey = k, vf_Certificate = c\<rparr> \<longleftrightarrow>
      pc der = Some c \<and> length (ct_Signature c) = 3373 \<and> xdsa_Verify P issuer (ct_RawTBSCertificate c) (ct_Signature c) = Inr () \<and>
      in_period now validity (ct_NotBefore c) (ct_NotAfter c) \<and> profile c \<and>
      (\<exists>info. ParseSubjectPublicKeyInfo cb (ct_RawSubjectPublicKeyInfo c) = Inr info \<and> sp_bitlen info mod 8 = 0 \<and>
         length (sp_bytes info) = n \<and> parse (sp_bytes info) = Inr k)"
begin

lemma verify_exact:
  assumes "der_reader cb" and "length (ct_RawSubjectPublicKeyInfo c) < 2 ^ 31"
  shows "verify_der now der issuer validity = Inr \<lparr>vf_PublicKey = k, vf_Certificate = c\<rparr> \<longleftrightarrow>
    pc der = Some c \<and> length (ct_Signature c) = 3373 \<and> xdsa_Verify P issuer (ct_RawTBSCertificate c) (ct_Signature c) = Inr () \<and>
    in_period now validity (ct_NotBefore c) (ct_NotAfter c) \<and> profile c \<and> ok k \<and>
    (\<exists>oid params pad. ct_RawSubjectPublicKeyInfo c = spki_with params oid pad (raw k) \<and> 8 dvd unat pad \<and>
       readOID cb (oid_der oid @ params) = Some (oid, params))"
proof -
  let ?spki = "ct_RawSubjectPublicKeyInfo c"
  have key: "(\<exists>info. ParseSubjectPublicKeyInfo cb ?spki = Inr info \<and> sp_bitlen info mod 8 = 0 \<and> length (sp_bytes info) = n \<and>
      parse (sp_bytes info) = Inr k) \<longleftrightarrow>
    ok k \<and> (\<exists>oid params pad. ?spki = spki_with params oid pad (raw k) \<and> 8 dvd unat pad \<and> readOID cb (oid_der oid @ params) = Some (oid, params))"
    (is "?l \<longleftrightarrow> ?r")
  proof
    assume ?l
    then obtain info where i: "ParseSubjectPublicKeyInfo cb ?spki = Inr info" "sp_bitlen info mod 8 = 0" "length (sp_bytes info) = n"
      "parse (sp_bytes info) = Inr k" by (elim exE conjE)
    from ParseSPKI_only_any [OF assms(1) i(1)] obtain params pad where s: "?spki = spki_with params (sp_algorithm info) pad (sp_bytes info)"
      "readOID cb (oid_der (sp_algorithm info) @ params) = Some (sp_algorithm info, params)"
      "sp_bitlen info = 8 * int (length (sp_bytes info)) - int (unat pad)" by blast
    have "8 dvd unat pad" using i(2) by (simp only: s(3) pad_aligned)
    then show ?r using s(1,2) i(4) parse_iff [OF i(3), of k] by metis
  next
    assume ?r
    then obtain oid params pad where r: "ok k" "?spki = spki_with params oid pad (raw k)" "8 dvd unat pad"
      "readOID cb (oid_der oid @ params) = Some (oid, params)" by (elim exE conjE)
    have l: "length (spki_with params oid pad (raw k)) < 2 ^ 31" using assms(2) by (simp only: r(2))
    let ?info = "\<lparr>sp_algorithm = oid, sp_bytes = raw k, sp_bitlen = 8 * int (length (raw k)) - int (unat pad)\<rparr>"
    have p: "ParseSubjectPublicKeyInfo cb ?spki = Inr ?info"
      unfolding r(2) by (rule ParseSPKI_parses_any [OF assms(1) r(4) l])
    have b: "sp_bitlen ?info mod 8 = 0"
      unfolding subject_public_key_info.simps by (rule iffD2 [OF pad_aligned r(3)])
    have "length (sp_bytes ?info) = n" "parse (sp_bytes ?info) = Inr k"
      unfolding subject_public_key_info.simps by (rule length_raw, rule parse_raw [OF r(1)])
    with p b show ?l by (intro exI [of _ ?info] conjI)
  qed
  show ?thesis unfolding verify_der key by (rule refl)
qed

text \<open>A verification that passes at one time passes at every other time of the period.\<close>

lemma verify_later:
  assumes "verify_der now der issuer validity = Inr v"
    and "in_period now' validity' (ct_NotBefore (vf_Certificate v)) (ct_NotAfter (vf_Certificate v))"
  shows "verify_der now' der issuer validity' = Inr v"
proof -
  obtain k c where v: "v = \<lparr>vf_PublicKey = k, vf_Certificate = c\<rparr>" by (cases v)
  show ?thesis using assms unfolding v verify_der by simp
qed

lemma verify_issued:
  assumes "der_reader cb" and "ok k" and "ct_RawSubjectPublicKeyInfo c = spki_der oid (raw k)" and "profile c"
    and "length (ct_Signature c) = 3373" "xdsa_Verify P issuer (ct_RawTBSCertificate c) (ct_Signature c) = Inr ()" "pc der = Some c"
  shows "verify_der now der issuer validity = Inr v \<longleftrightarrow>
    v = \<lparr>vf_PublicKey = k, vf_Certificate = c\<rparr> \<and> in_period now validity (ct_NotBefore c) (ct_NotAfter c)"
proof -
  have l: "length (spki_with [] oid 0 (raw k)) < 2 ^ 31" using to_der_small [OF assms(2)] by (simp add: to_der [OF assms(2)] spki_der_def)
  have i: "ParseSubjectPublicKeyInfo cb (ct_RawSubjectPublicKeyInfo c) = Inr \<lparr>sp_algorithm = oid, sp_bytes = raw k, sp_bitlen = 8 * int n\<rparr>"
    using ParseSPKI_parses [OF assms(1) oid_known l] by (simp add: assms(3) spki_der_def length_raw)
  obtain k' c' where v: "v = \<lparr>vf_PublicKey = k', vf_Certificate = c'\<rparr>" by (cases v)
  have key: "(\<exists>info. ParseSubjectPublicKeyInfo cb (ct_RawSubjectPublicKeyInfo c) = Inr info \<and> sp_bitlen info mod 8 = 0 \<and>
      length (sp_bytes info) = n \<and> parse (sp_bytes info) = Inr k') \<longleftrightarrow> k' = k"
    unfolding i by (auto simp: length_raw parse_raw [OF assms(2)])
  show ?thesis
  proof (cases "c' = c")
    case True
    show ?thesis unfolding v verify_der True key using assms(4-7) by auto
  next
    case False
    then have "pc der \<noteq> Some c'" using assms(7) by simp
    then show ?thesis unfolding v verify_der using False by simp
  qed
qed

end

definition xdsa_profile :: "certificate \<Rightarrow> bool" where
  "xdsa_profile c \<longleftrightarrow> ct_KeyUsage c = (if ct_IsCA c then KeyUsageCertSign OR KeyUsageCRLSign else KeyUsageDigitalSignature)"

definition xhpke_profile :: "certificate \<Rightarrow> bool" where
  "xhpke_profile c \<longleftrightarrow> ct_KeyUsage c = KeyUsageKeyAgreement \<and> \<not> ct_IsCA c"

interpretation xdsa_cert: certified_key xdsa_PublicKey_Marshal "xdsa_ParsePublicKey (strict_points P)" "xdsa_public_ok P" 1984
  cb xdsa_OID "xdsa_ParsePublicKeyDER (strict_points P) cb" xdsa_PublicKey_MarshalDER "strict_points P" pc xdsa_profile
  "xdsa_VerifyCertDER (strict_points P) cb pc" for P cb pc
proof unfold_locales
  fix now der issuer validity k c
  show "xdsa_VerifyCertDER (strict_points P) cb pc now der issuer validity = Inr \<lparr>vf_PublicKey = k, vf_Certificate = c\<rparr> \<longleftrightarrow>
      pc der = Some c \<and> length (ct_Signature c) = 3373 \<and>
      xdsa_Verify (strict_points P) issuer (ct_RawTBSCertificate c) (ct_Signature c) = Inr () \<and>
      in_period now validity (ct_NotBefore c) (ct_NotAfter c) \<and> xdsa_profile c \<and>
      (\<exists>info. ParseSubjectPublicKeyInfo cb (ct_RawSubjectPublicKeyInfo c) = Inr info \<and> sp_bitlen info mod 8 = 0 \<and>
         length (sp_bytes info) = 1984 \<and> xdsa_ParsePublicKey (strict_points P) (sp_bytes info) = Inr k)"
    unfolding xdsa_VerifyCertDER_def not_in_period
    by (auto simp: xdsa_profile_def key_consts split: option.splits sum.splits)
qed

interpretation xhpke_cert: certified_key xhpke_PublicKey_Marshal "xhpke_ParsePublicKey P" "xhpke_public_ok P" 1216
  cb xhpke_OID "xhpke_ParsePublicKeyDER P cb" xhpke_PublicKey_MarshalDER P pc xhpke_profile
  "xhpke_VerifyCertDER P cb pc" for P cb pc
proof unfold_locales
  fix now der issuer validity k c
  show "xhpke_VerifyCertDER P cb pc now der issuer validity = Inr \<lparr>vf_PublicKey = k, vf_Certificate = c\<rparr> \<longleftrightarrow>
      pc der = Some c \<and> length (ct_Signature c) = 3373 \<and> xdsa_Verify P issuer (ct_RawTBSCertificate c) (ct_Signature c) = Inr () \<and>
      in_period now validity (ct_NotBefore c) (ct_NotAfter c) \<and> xhpke_profile c \<and>
      (\<exists>info. ParseSubjectPublicKeyInfo cb (ct_RawSubjectPublicKeyInfo c) = Inr info \<and> sp_bitlen info mod 8 = 0 \<and>
         length (sp_bytes info) = 1216 \<and> xhpke_ParsePublicKey P (sp_bytes info) = Inr k)"
    unfolding xhpke_VerifyCertDER_def not_in_period
    by (auto simp: xhpke_profile_def key_consts split: option.splits sum.splits)
qed

section \<open>What ParseCertificate reads\<close>

text \<open>
  The fields of a certificate written by \<open>New\<close>, as the standard library reports them: times in
  whole seconds, the basic constraints and the key usage from their extensions, a missing path length
  as -1, and the names through some function \<open>dns\<close> of their encodings.
\<close>

definition ext_value :: "tbs_certificate \<Rightarrow> oid \<Rightarrow> bytes option" where
  "ext_value tbs oid = map_option ex_Value (find (\<lambda>e. ex_OID e = oid) (tbs_Extensions tbs))"

definition parsed_certificate :: "(bytes \<Rightarrow> bytes) \<Rightarrow> tbs_certificate \<Rightarrow> bytes \<Rightarrow> bytes \<Rightarrow> certificate" where
  "parsed_certificate dns tbs raw sig =
     (let bc = map_option bc_read (ext_value tbs [2, 5, 29, 19]) in
      \<lparr>ct_RawTBSCertificate = raw, ct_RawSubjectPublicKeyInfo = spki_der (tbs_KeyOID tbs) (tbs_Key tbs), ct_Signature = sig,
       ct_NotBefore = whole_second (tbs_NotBefore tbs), ct_NotAfter = whole_second (tbs_NotAfter tbs),
       ct_IsCA = (case bc of None \<Rightarrow> False | Some (ca, _) \<Rightarrow> ca),
       ct_KeyUsage = (case ext_value tbs [2, 5, 29, 15] of None \<Rightarrow> 0 | Some v \<Rightarrow> ku_read v),
       ct_MaxPathLen = (case bc of None \<Rightarrow> 0 | Some (_, n) \<Rightarrow> n),
       ct_MaxPathLenZero = (case bc of None \<Rightarrow> False | Some (_, n) \<Rightarrow> n = 0),
       ct_Issuer = dns (tbs_Issuer tbs), ct_Subject = dns (tbs_Subject tbs)\<rparr>)"

text \<open>The hypothesis: \<^verbatim>\<open>ParseCertificate\<close> reads back this one certificate.\<close>

definition reads_back :: "parse_certificate \<Rightarrow> (bytes \<Rightarrow> bytes) \<Rightarrow> tbs_certificate \<Rightarrow> bytes \<Rightarrow> bool" where
  "reads_back pc dns tbs der \<longleftrightarrow>
     (\<forall>raw sig. marshal_tbs tbs = Some raw \<and> der = marshal_certificate raw sig \<longrightarrow> pc der = Some (parsed_certificate dns tbs raw sig))"

definition name_der :: "pkix_name \<Rightarrow> bytes" where
  "name_der n = the (marshal_rdns (ToRDNSequence n))"

definition issued_tbs :: "(bytes \<Rightarrow> bytes) \<Rightarrow> bytes \<Rightarrow> bytes \<Rightarrow> bytes \<Rightarrow> template \<Rightarrow> tbs_certificate" where
  "issued_tbs sha1 rnd subject pk t = template_tbs sha1 rnd subject pk t (name_der (tp_Issuer t)) (name_der (tp_Subject t))"

definition path_length :: "role \<Rightarrow> int" where
  "path_length r = (case r_pathLen r of None \<Rightarrow> -1 | Some n \<Rightarrow> int (unat n))"

lemma path_length_bounds: "-1 \<le> path_length r" "path_length r < 256"
  by (cases "r_pathLen r"; simp add: path_length_def del: of_nat_unat)+

lemma parsed_issued:
  fixes sha1 rnd subject pk t raw sig dns
  defines "c \<equiv> parsed_certificate dns (issued_tbs sha1 rnd subject pk t) raw sig"
  shows "ct_IsCA c = r_isCA (tp_Role t)" "ct_MaxPathLen c = path_length (tp_Role t)" "ct_MaxPathLenZero c \<longleftrightarrow> path_length (tp_Role t) = 0"
    "ct_KeyUsage c = (if r_isCA (tp_Role t) then 96 else if subject_oid subject = oidXWing then 16 else 1)"
    "ct_RawTBSCertificate c = raw" "ct_Signature c = sig" "ct_RawSubjectPublicKeyInfo c = spki_der (subject_oid subject) subject"
    "ct_NotBefore c = whole_second (tp_NotBefore t)" "ct_NotAfter c = whole_second (tp_NotAfter t)"
    "ct_Issuer c = dns (name_der (tp_Issuer t))" "ct_Subject c = dns (name_der (tp_Subject t))"
proof -
  let ?tbs = "issued_tbs sha1 rnd subject pk t"
  have b: "ext_value ?tbs [2, 5, 29, 19] = Some (basic_constraints (r_isCA (tp_Role t)) (path_length (tp_Role t)))"
    by (simp add: ext_value_def issued_tbs_def template_tbs_def standard_extensions_def makeBasicConstraintsExt_def path_length_def)
  have k: "ext_value ?tbs [2, 5, 29, 15] = Some (ex_Value (makeKeyUsageExt (r_isCA (tp_Role t)) (subject_oid subject)))"
    by (simp add: ext_value_def issued_tbs_def template_tbs_def standard_extensions_def makeBasicConstraintsExt_def makeKeyUsageExt_def)
  show "ct_IsCA c = r_isCA (tp_Role t)" "ct_MaxPathLen c = path_length (tp_Role t)" "ct_MaxPathLenZero c \<longleftrightarrow> path_length (tp_Role t) = 0"
    by (simp_all add: c_def parsed_certificate_def Let_def b bc_read_constraints [OF path_length_bounds])
  show "ct_KeyUsage c = (if r_isCA (tp_Role t) then 96 else if subject_oid subject = oidXWing then 16 else 1)"
    by (simp add: c_def parsed_certificate_def Let_def k makeKeyUsageExt_def ku_read_bits named_bits_used)
qed (simp_all add: c_def parsed_certificate_def Let_def issued_tbs_def template_tbs_def)

text \<open>Issuing succeeded: what was signed, and by the signer.\<close>

lemma New_issued:
  assumes "New sha1 rnd subject pk sign t = Some (Inr der)"
  obtains raw sig where "marshal_tbs (issued_tbs sha1 rnd subject pk t) = Some raw" "sign raw = Inr sig" "der = marshal_certificate raw sig"
  using assms unfolding New_Inr issued_tbs_def name_der_def by auto

lemma xdsa_xdsaSigner [simp]: "xdsa_xdsaSigner_Sign s = sg_sign s" "xhpke_xdsaSigner_Sign s = sg_sign s"
  by (auto simp: xdsa_xdsaSigner_Sign_def xhpke_xdsaSigner_Sign_def fun_eq_iff split: sum.splits)

lemma subject_oids: "subject_oid (xdsa_PublicKey_Marshal k) = xdsa_OID" "subject_oid (xhpke_PublicKey_Marshal h) = xhpke_OID"
  "xdsa_OID \<noteq> oidXWing" "xhpke_OID = oidXWing"
  by (simp_all add: subject_oid_def xdsa_public.length_raw xhpke_public.length_raw oidXDSA_def oidXWing_def key_consts)

text \<open>A verified certificate is exactly the issued one, in its period.\<close>

lemma xdsa_issued:
  assumes "primitives_ok P" and "der_reader cb" and "signer_ok P issuer" and "xdsa_public_ok P k"
    and "xdsa_IssueCertDER sha1 rnd k issuer t = Some (Inr der)"
    and "reads_back pc dns (issued_tbs sha1 rnd (xdsa_PublicKey_Marshal k) (xdsa_PublicKey_Marshal (sg_public issuer)) t) der"
  obtains c where "\<And>now validity v. xdsa_VerifyCertDER P cb pc now der (sg_public issuer) validity = Inr v \<longleftrightarrow>
      v = \<lparr>vf_PublicKey = k, vf_Certificate = c\<rparr> \<and> in_period now validity (whole_second (tp_NotBefore t)) (whole_second (tp_NotAfter t))"
    and "ct_IsCA c = r_isCA (tp_Role t)" "ct_KeyUsage c = (if r_isCA (tp_Role t) then 96 else 1)" "ct_MaxPathLen c = path_length (tp_Role t)"
    "ct_MaxPathLenZero c \<longleftrightarrow> path_length (tp_Role t) = 0" "ct_Issuer c = dns (name_der (tp_Issuer t))" "ct_Subject c = dns (name_der (tp_Subject t))"
proof -
  let ?tbs = "issued_tbs sha1 rnd (xdsa_PublicKey_Marshal k) (xdsa_PublicKey_Marshal (sg_public issuer)) t"
  obtain raw sig where r: "marshal_tbs ?tbs = Some raw" "sg_sign issuer raw = Inr sig" "der = marshal_certificate raw sig"
    using assms(5) New_issued unfolding xdsa_IssueCertDER_def xdsa_xdsaSigner_PublicKey_def xdsa_xdsaSigner by blast
  obtain sig' where "sg_sign issuer raw = Inr sig'" "length sig' = 3373" "xdsa_Verify P (sg_public issuer) raw sig' = Inr ()"
    by (rule signerE [OF assms(3)])
  with r(2) have s: "length sig = 3373" "xdsa_Verify P (sg_public issuer) raw sig = Inr ()" by simp_all
  let ?c = "parsed_certificate dns ?tbs raw sig"
  note f = parsed_issued [where dns = dns and ?sha1.0 = sha1 and rnd = rnd and subject = "xdsa_PublicKey_Marshal k"
      and pk = "xdsa_PublicKey_Marshal (sg_public issuer)" and t = t and raw = raw and sig = sig, unfolded subject_oids(1)]
  have pc: "pc der = Some ?c" using assms(6) r(1,3) unfolding reads_back_def by blast
  have "xdsa_profile ?c" by (simp add: xdsa_profile_def f subject_oids key_usages)
  then have "xdsa_VerifyCertDER P cb pc now der (sg_public issuer) validity = Inr v \<longleftrightarrow>
      v = \<lparr>vf_PublicKey = k, vf_Certificate = ?c\<rparr> \<and> in_period now validity (whole_second (tp_NotBefore t)) (whole_second (tp_NotAfter t))"
    for now validity v
    using xdsa_cert.verify_issued [where P = P and cb = cb and pc = pc and k = k and c = ?c and der = der and issuer = "sg_public issuer"]
      assms(1,2,4) pc s by (simp add: f strict_points_id)
  then show thesis by (rule that) (simp_all add: f subject_oids)
qed

lemma xhpke_issued:
  assumes "primitives_ok P" and "der_reader cb" and "signer_ok P issuer" and "xhpke_public_ok P k"
    and "xhpke_IssueCertDER sha1 rnd k issuer t = Some (Inr der)"
    and "reads_back pc dns (issued_tbs sha1 rnd (xhpke_PublicKey_Marshal k) (xdsa_PublicKey_Marshal (sg_public issuer)) t) der"
  obtains c where "\<And>now validity v. xhpke_VerifyCertDER P cb pc now der (sg_public issuer) validity = Inr v \<longleftrightarrow>
      v = \<lparr>vf_PublicKey = k, vf_Certificate = c\<rparr> \<and> in_period now validity (whole_second (tp_NotBefore t)) (whole_second (tp_NotAfter t))"
    and "\<not> ct_IsCA c" "ct_KeyUsage c = 16" "ct_Issuer c = dns (name_der (tp_Issuer t))" "ct_Subject c = dns (name_der (tp_Subject t))"
proof -
  let ?tbs = "issued_tbs sha1 rnd (xhpke_PublicKey_Marshal k) (xdsa_PublicKey_Marshal (sg_public issuer)) t"
  have leaf: "\<not> r_isCA (tp_Role t)" and "New sha1 rnd (xhpke_PublicKey_Marshal k) (xdsa_PublicKey_Marshal (sg_public issuer)) (sg_sign issuer) t = Some (Inr der)"
    using assms(5) by (auto simp: xhpke_IssueCertDER_def xhpke_xdsaSigner_PublicKey_def split: if_splits)
  then obtain raw sig where r: "marshal_tbs ?tbs = Some raw" "sg_sign issuer raw = Inr sig" "der = marshal_certificate raw sig"
    using New_issued by blast
  obtain sig' where "sg_sign issuer raw = Inr sig'" "length sig' = 3373" "xdsa_Verify P (sg_public issuer) raw sig' = Inr ()"
    by (rule signerE [OF assms(3)])
  with r(2) have s: "length sig = 3373" "xdsa_Verify P (sg_public issuer) raw sig = Inr ()" by simp_all
  let ?c = "parsed_certificate dns ?tbs raw sig"
  note f = parsed_issued [where dns = dns and ?sha1.0 = sha1 and rnd = rnd and subject = "xhpke_PublicKey_Marshal k"
      and pk = "xdsa_PublicKey_Marshal (sg_public issuer)" and t = t and raw = raw and sig = sig, unfolded subject_oids(2)]
  have pc: "pc der = Some ?c" using assms(6) r(1,3) unfolding reads_back_def by blast
  have "xhpke_profile ?c" by (simp add: xhpke_profile_def f leaf subject_oids key_usages)
  then have "xhpke_VerifyCertDER P cb pc now der (sg_public issuer) validity = Inr v \<longleftrightarrow>
      v = \<lparr>vf_PublicKey = k, vf_Certificate = ?c\<rparr> \<and> in_period now validity (whole_second (tp_NotBefore t)) (whole_second (tp_NotAfter t))"
    for now validity v
    using xhpke_cert.verify_issued [where P = P and cb = cb and pc = pc and k = k and c = ?c and der = der and issuer = "sg_public issuer"]
      assms(1,2,4) pc s by (simp add: f)
  then show thesis by (rule that) (simp_all add: f leaf subject_oids)
qed

section \<open>Properties\<close>

text \<open>A leaf and its authority, for the witness.\<close>

definition sample_key :: xdsa_public where
  "sample_key = xdsa_SecretKey_PublicKey sample_primitives (xdsa_ParseSecretKey (replicate 64 5))"

definition sample_leaf :: certificate where
  "sample_leaf = \<lparr>ct_RawTBSCertificate = [1, 2], ct_RawSubjectPublicKeyInfo = spki_der xdsa_OID (xdsa_PublicKey_Marshal sample_key),
     ct_Signature = xdsa_composite sample_primitives (xdsa_ParseSecretKey (replicate 64 5)) [1, 2], ct_NotBefore = zero_time,
     ct_NotAfter = zero_time, ct_IsCA = False, ct_KeyUsage = 1, ct_MaxPathLen = -1, ct_MaxPathLenZero = False, ct_Issuer = [7], ct_Subject = [8]\<rparr>"

definition sample_authority :: "xdsa_public verified" where
  "sample_authority = \<lparr>vf_PublicKey = sample_key, vf_Certificate = sample_leaf\<lparr>ct_IsCA := True, ct_KeyUsage := 96, ct_Subject := [7]\<rparr>\<rparr>"

text \<open>C38: certificates accepted under an issuer's certificate. \<^verbatim>\<open>VerifyCertDERWithIssuer\<close> of either package
  returns a key and a certificate exactly if the certificate parses; it carries a composite signature of the
  issuer's key over its to-be-signed part; the time, if one is asked for, lies in its period; its key usage is
  the one of its role; the key is a valid key of the package, encoded in whole bytes; and the issuer's
  certificate is of an authority with exactly the usages of an authority, whose subject is the issuer that the
  certificate names. An xDSA authority under an issuer of path length zero is refused, an xHPKE authority
  always. The object identifier of the key is not looked at.\<close>

theorem certificates_exact:
  assumes "primitives_ok P" and "der_reader cb" and "length (ct_RawSubjectPublicKeyInfo c) < 2 ^ 31"
  shows "(xdsa_VerifyCertDERWithIssuer P cb pc now der issuer validity = Inr \<lparr>vf_PublicKey = k, vf_Certificate = c\<rparr> \<longleftrightarrow>
      pc der = Some c \<and> length (ct_Signature c) = xdsa_SignatureSize \<and>
      xdsa_Verify P (vf_PublicKey issuer) (ct_RawTBSCertificate c) (ct_Signature c) = Inr () \<and>
      in_period now validity (ct_NotBefore c) (ct_NotAfter c) \<and>
      ct_KeyUsage c = (if ct_IsCA c then KeyUsageCertSign OR KeyUsageCRLSign else KeyUsageDigitalSignature) \<and>
      xdsa_public_ok P k \<and>
      (\<exists>oid params pad. ct_RawSubjectPublicKeyInfo c = spki_with params oid pad (xdsa_PublicKey_Marshal k) \<and> 8 dvd unat pad \<and>
         readOID cb (oid_der oid @ params) = Some (oid, params)) \<and>
      ct_IsCA (vf_Certificate issuer) \<and> ct_KeyUsage (vf_Certificate issuer) = (KeyUsageCertSign OR KeyUsageCRLSign) \<and>
      \<not> (ct_IsCA c \<and> ct_MaxPathLen (vf_Certificate issuer) = 0 \<and> ct_MaxPathLenZero (vf_Certificate issuer)) \<and>
      ct_Issuer c = ct_Subject (vf_Certificate issuer)) \<and>
    (xhpke_VerifyCertDERWithIssuer P cb pc now der issuer validity = Inr \<lparr>vf_PublicKey = h, vf_Certificate = c\<rparr> \<longleftrightarrow>
      pc der = Some c \<and> length (ct_Signature c) = xdsa_SignatureSize \<and>
      xdsa_Verify P (vf_PublicKey issuer) (ct_RawTBSCertificate c) (ct_Signature c) = Inr () \<and>
      in_period now validity (ct_NotBefore c) (ct_NotAfter c) \<and>
      ct_KeyUsage c = KeyUsageKeyAgreement \<and> \<not> ct_IsCA c \<and>
      xhpke_public_ok P h \<and>
      (\<exists>oid params pad. ct_RawSubjectPublicKeyInfo c = spki_with params oid pad (xhpke_PublicKey_Marshal h) \<and> 8 dvd unat pad \<and>
         readOID cb (oid_der oid @ params) = Some (oid, params)) \<and>
      ct_IsCA (vf_Certificate issuer) \<and> ct_KeyUsage (vf_Certificate issuer) = (KeyUsageCertSign OR KeyUsageCRLSign) \<and>
      ct_Issuer c = ct_Subject (vf_Certificate issuer))"
proof -
  have chain: "xdsa_VerifyCertDERWithIssuer P cb pc now der issuer validity = Inr \<lparr>vf_PublicKey = k, vf_Certificate = c\<rparr> \<longleftrightarrow>
      xdsa_VerifyCertDER P cb pc now der (vf_PublicKey issuer) validity = Inr \<lparr>vf_PublicKey = k, vf_Certificate = c\<rparr> \<and>
      xdsa_enforceIssuerChaining c (vf_Certificate issuer) = Inr ()"
    by (auto simp: xdsa_VerifyCertDERWithIssuer_def split: sum.splits)
  have chain': "xhpke_VerifyCertDERWithIssuer P cb pc now der issuer validity = Inr \<lparr>vf_PublicKey = h, vf_Certificate = c\<rparr> \<longleftrightarrow>
      xhpke_VerifyCertDER P cb pc now der (vf_PublicKey issuer) validity = Inr \<lparr>vf_PublicKey = h, vf_Certificate = c\<rparr> \<and>
      xhpke_enforceIssuerChaining c (vf_Certificate issuer) = Inr ()"
    by (auto simp: xhpke_VerifyCertDERWithIssuer_def split: sum.splits)
  have e: "xdsa_enforceIssuerChaining c i = Inr () \<longleftrightarrow> ct_IsCA i \<and> ct_KeyUsage i = (KeyUsageCertSign OR KeyUsageCRLSign) \<and>
      \<not> (ct_IsCA c \<and> ct_MaxPathLen i = 0 \<and> ct_MaxPathLenZero i) \<and> ct_Issuer c = ct_Subject i"
    "xhpke_enforceIssuerChaining c i = Inr () \<longleftrightarrow> ct_IsCA i \<and> ct_KeyUsage i = (KeyUsageCertSign OR KeyUsageCRLSign) \<and>
      ct_Issuer c = ct_Subject i" for i
    by (auto simp: xdsa_enforceIssuerChaining_def xhpke_enforceIssuerChaining_def)
  note ex = xdsa_cert.verify_exact [OF assms(2,3), of P, unfolded strict_points_id [OF assms(1)] xdsa_profile_def]
    xhpke_cert.verify_exact [OF assms(2,3), of P, unfolded xhpke_profile_def]
  show ?thesis unfolding chain chain' e ex key_consts by blast
qed

lemma certificates_exact_witness:
  "xdsa_VerifyCertDERWithIssuer sample_primitives sample_reader (\<lambda>d. Some sample_leaf) zero_time [0] sample_authority ValidityDisabled =
     Inr \<lparr>vf_PublicKey = sample_key, vf_Certificate = sample_leaf\<rparr>"
proof -
  have k: "xdsa_public_ok sample_primitives sample_key" by (simp add: sample_key_def xdsa_PublicKey_ok sample_primitives_ok)
  have "xdsa_public_ok sample_primitives sample_key \<Longrightarrow> length (xdsa_PublicKey_MarshalDER sample_key) < 2 ^ 31"
    by (rule xdsa_public.to_der_small)
  with k have l: "length (ct_RawSubjectPublicKeyInfo sample_leaf) < 2 ^ 31" by (simp add: sample_leaf_def xdsa_PublicKey_MarshalDER_def)
  have "xdsa_OID \<in> set known_oids" by (simp add: known_oids_def key_consts)
  then have o: "readOID sample_reader (oid_der xdsa_OID @ []) = Some (xdsa_OID, [])" by (rule readOID_known [OF sample_reader_ok])
  have "ct_RawSubjectPublicKeyInfo sample_leaf = spki_with [] xdsa_OID 0 (xdsa_PublicKey_Marshal sample_key) \<and> 8 dvd unat (0 :: byte) \<and>
      readOID sample_reader (oid_der xdsa_OID @ []) = Some (xdsa_OID, [])"
    unfolding o by (simp add: sample_leaf_def spki_der_def)
  then have spki: "\<exists>oid params pad. ct_RawSubjectPublicKeyInfo sample_leaf = spki_with params oid pad (xdsa_PublicKey_Marshal sample_key) \<and>
      8 dvd unat pad \<and> readOID sample_reader (oid_der oid @ params) = Some (oid, params)" by blast
  have sig: "xdsa_Verify sample_primitives sample_key [1, 2] (xdsa_composite sample_primitives (xdsa_ParseSecretKey (replicate 64 5)) [1, 2]) = Inr ()"
    unfolding sample_key_def by (rule xdsa_Verify_composite [OF sample_primitives_ok])
  show ?thesis
    by (subst certificates_exact [OF sample_primitives_ok sample_reader_ok l, THEN conjunct1], intro conjI spki k)
      (simp_all add: sig sample_leaf_def sample_authority_def xdsa_Sign_composite sample_primitives_ok in_period_def ValidityDisabled_def
        Timestamp_def key_usages key_consts)
qed

text \<open>C39: issuing and verifying fit together, over two steps. A root certifies the key of an authority,
  the authority certifies an xDSA key and an xHPKE key, each certificate naming the subject of the one
  before. Then the authority's certificate verifies under the root's key, and the other two under it,
  each exactly for the certified key and exactly in its period; an authority may certify another
  one unless its path length is zero. (The parser is assumed to read the three certificates.)\<close>

theorem certificate_chain:
  assumes "primitives_ok P" and "der_reader cb" and "signer_ok P root" and "signer_ok P authority"
    and "xdsa_public_ok P (sg_public authority)" and "xdsa_public_ok P k" and "xhpke_public_ok P h"
    and "xdsa_IssueCertDER sha1 rnd (sg_public authority) root t = Some (Inr der)" and "r_isCA (tp_Role t)"
    and "xdsa_IssueCertDER sha1 rnd' k authority t' = Some (Inr der')" and "tp_Issuer t' = tp_Subject t"
    and "xhpke_IssueCertDER sha1 rnd'' h authority t'' = Some (Inr der'')" and "tp_Issuer t'' = tp_Subject t"
    and "reads_back pc dns (issued_tbs sha1 rnd (xdsa_PublicKey_Marshal (sg_public authority)) (xdsa_PublicKey_Marshal (sg_public root)) t) der"
    and "reads_back pc dns (issued_tbs sha1 rnd' (xdsa_PublicKey_Marshal k) (xdsa_PublicKey_Marshal (sg_public authority)) t') der'"
    and "reads_back pc dns (issued_tbs sha1 rnd'' (xhpke_PublicKey_Marshal h) (xdsa_PublicKey_Marshal (sg_public authority)) t'') der''"
  shows "\<exists>c c' c''. let a = \<lparr>vf_PublicKey = sg_public authority, vf_Certificate = c\<rparr> in
    (\<forall>now validity v. xdsa_VerifyCertDER P cb pc now der (sg_public root) validity = Inr v \<longleftrightarrow>
       v = a \<and> in_period now validity (whole_second (tp_NotBefore t)) (whole_second (tp_NotAfter t))) \<and>
    (\<forall>now validity v. xdsa_VerifyCertDERWithIssuer P cb pc now der' a validity = Inr v \<longleftrightarrow>
       v = \<lparr>vf_PublicKey = k, vf_Certificate = c'\<rparr> \<and> \<not> (r_isCA (tp_Role t') \<and> r_pathLen (tp_Role t) = Some 0) \<and>
       in_period now validity (whole_second (tp_NotBefore t')) (whole_second (tp_NotAfter t'))) \<and>
    (\<forall>now validity v. xhpke_VerifyCertDERWithIssuer P cb pc now der'' a validity = Inr v \<longleftrightarrow>
       v = \<lparr>vf_PublicKey = h, vf_Certificate = c''\<rparr> \<and> in_period now validity (whole_second (tp_NotBefore t'')) (whole_second (tp_NotAfter t'')))"
proof -
  obtain c where c: "\<And>now validity v. xdsa_VerifyCertDER P cb pc now der (sg_public root) validity = Inr v \<longleftrightarrow>
      v = \<lparr>vf_PublicKey = sg_public authority, vf_Certificate = c\<rparr> \<and> in_period now validity (whole_second (tp_NotBefore t)) (whole_second (tp_NotAfter t))"
    and f: "ct_IsCA c" "ct_KeyUsage c = 96" "ct_MaxPathLen c = path_length (tp_Role t)" "ct_MaxPathLenZero c \<longleftrightarrow> path_length (tp_Role t) = 0"
      "ct_Subject c = dns (name_der (tp_Subject t))"
    by (rule xdsa_issued [OF assms(1,2,3,5,8,14)]) (use assms(9) in simp)
  obtain c' where c': "\<And>now validity v. xdsa_VerifyCertDER P cb pc now der' (sg_public authority) validity = Inr v \<longleftrightarrow>
      v = \<lparr>vf_PublicKey = k, vf_Certificate = c'\<rparr> \<and> in_period now validity (whole_second (tp_NotBefore t')) (whole_second (tp_NotAfter t'))"
    and f': "ct_IsCA c' = r_isCA (tp_Role t')" "ct_Issuer c' = dns (name_der (tp_Subject t))"
    by (rule xdsa_issued [OF assms(1,2,4,6,10,15)]) (use assms(11) in simp)
  obtain c'' where c'': "\<And>now validity v. xhpke_VerifyCertDER P cb pc now der'' (sg_public authority) validity = Inr v \<longleftrightarrow>
      v = \<lparr>vf_PublicKey = h, vf_Certificate = c''\<rparr> \<and> in_period now validity (whole_second (tp_NotBefore t'')) (whole_second (tp_NotAfter t''))"
    and f'': "ct_Issuer c'' = dns (name_der (tp_Subject t))"
    by (rule xhpke_issued [OF assms(1,2,4,7,12,16)]) (use assms(13) in simp)
  let ?a = "\<lparr>vf_PublicKey = sg_public authority, vf_Certificate = c\<rparr>"
  have z: "path_length (tp_Role t) = 0 \<longleftrightarrow> r_pathLen (tp_Role t) = Some 0"
    by (cases "r_pathLen (tp_Role t)") (simp_all add: path_length_def unat_eq_zero del: of_nat_unat)
  have e: "xdsa_enforceIssuerChaining c' c = Inr () \<longleftrightarrow> \<not> (r_isCA (tp_Role t') \<and> r_pathLen (tp_Role t) = Some 0)"
    "xhpke_enforceIssuerChaining c'' c = Inr ()"
    using f f' f'' z by (auto simp: xdsa_enforceIssuerChaining_def xhpke_enforceIssuerChaining_def key_usages)
  have "xdsa_VerifyCertDERWithIssuer P cb pc now der' ?a validity = Inr v \<longleftrightarrow>
      xdsa_VerifyCertDER P cb pc now der' (sg_public authority) validity = Inr v \<and>
      xdsa_enforceIssuerChaining (vf_Certificate v) c = Inr ()"
    "xhpke_VerifyCertDERWithIssuer P cb pc now der'' ?a validity = Inr w \<longleftrightarrow>
      xhpke_VerifyCertDER P cb pc now der'' (sg_public authority) validity = Inr w \<and>
      xhpke_enforceIssuerChaining (vf_Certificate w) c = Inr ()" for now validity v w
    by (auto simp: xdsa_VerifyCertDERWithIssuer_def xhpke_VerifyCertDERWithIssuer_def split: sum.splits)
  then show ?thesis
    unfolding Let_def using c c' c'' e by (intro exI [of _ c] exI [of _ c'] exI [of _ c''] conjI allI) auto
qed

text \<open>A parser that knows one certificate more than another one.\<close>

lemma reads_back_upd:
  assumes "New sha1 rnd subject pk sign t = Some (Inr der)" and "length der < 2 ^ 31"
  obtains c where "\<And>pc. reads_back (pc(der \<mapsto> c)) dns (issued_tbs sha1 rnd subject pk t) der"
proof -
  obtain raw sig where r: "marshal_tbs (issued_tbs sha1 rnd subject pk t) = Some raw" "der = marshal_certificate raw sig"
    using New_issued [OF assms(1)] by blast
  have "sig' = sig" if "der = marshal_certificate raw sig'" for sig'
  proof -
    have "tlv SEQUENCE (raw @ tlv SEQUENCE (oid_der oidXDSA) @ tlv BIT_STRING (0 # sig)) =
        tlv SEQUENCE (raw @ tlv SEQUENCE (oid_der oidXDSA) @ tlv BIT_STRING (0 # sig'))"
      using r(2) that by (simp add: marshal_certificate_def)
    then have e: "tlv BIT_STRING (0 # sig) = tlv BIT_STRING (0 # sig')"
      using tlv_split_end assms(2) unfolding r(2) marshal_certificate_def by (metis same_append_eq)
    have "length (tlv BIT_STRING (0 # sig)) < 2 ^ 31"
      using assms(2) unfolding r(2) marshal_certificate_def by (simp add: length_tlv [of SEQUENCE])
    from tlv_split_end [OF e this] show ?thesis by simp
  qed
  then have "reads_back (pc(der \<mapsto> parsed_certificate dns (issued_tbs sha1 rnd subject pk t) raw sig)) dns
      (issued_tbs sha1 rnd subject pk t) der" for pc
    using r by (auto simp: reads_back_def)
  then show thesis by (rule that)
qed

lemma reads_back_other: "reads_back pc dns tbs der \<Longrightarrow> d \<noteq> der \<Longrightarrow> reads_back (pc(d \<mapsto> c)) dns tbs der"
  by (simp add: reads_back_def)

lemma certificate_chain_witness:
  "\<exists>der der' pc v w. xdsa_VerifyCertDER sample_primitives sample_reader pc zero_time der sample_key (ValidityAt (Time 2030 1 1 0 0 0 0)) = Inr v \<and>
     xhpke_VerifyCertDERWithIssuer sample_primitives sample_reader pc zero_time der' v (ValidityAt (Time 2030 1 1 0 0 0 0)) = Inr w \<and>
     vf_PublicKey w = xhpke_SecretKey_PublicKey sample_primitives \<lparr>hs_seed = [3]\<rparr>"
proof -
  let ?s = "local_signer sample_primitives (xdsa_ParseSecretKey (replicate 64 5))"
  let ?h = "xhpke_SecretKey_PublicKey sample_primitives \<lparr>hs_seed = [3]\<rparr>"
  let ?t = "sample_template (RoleAuthority (Some 3))" and ?t' = "sample_template RoleLeaf"
  let ?raw = "xdsa_PublicKey_Marshal sample_key" and ?hraw = "xhpke_PublicKey_Marshal ?h"
  have s: "signer_ok sample_primitives ?s" by (rule local_signer_ok [OF sample_primitives_ok])
  have pub: "sg_public ?s = sample_key" by (simp add: local_signer_def sample_key_def)
  have k: "xdsa_public_ok sample_primitives sample_key" by (simp add: sample_key_def xdsa_PublicKey_ok sample_primitives_ok)
  have h: "xhpke_public_ok sample_primitives ?h" by (rule xhpke_PublicKey_ok [OF sample_primitives_ok])
  have len: "length ?raw = 1984" "length ?hraw = 1216" by (simp_all add: xdsa_public.length_raw xhpke_public.length_raw)
  have sg: "\<exists>x. sg_sign ?s m = Inr x \<and> length x = 3373" for m using s unfolding signer_ok_def by blast
  have short: "length x \<le> 4000" if "sg_sign ?s m = Inr x" for m x using sg [of m] that by auto
  have issued: "\<exists>der. New (fixed 20) (replicate 16 0) key ?raw (sg_sign ?s) (sample_template r) = Some (Inr der) \<and> length der < 2 ^ 31"
    if key: "length key = 1984 \<or> length key = 1216" for key r
  proof -
    obtain raw where "New (fixed 20) (replicate 16 0) key ?raw (sg_sign ?s) (sample_template r) =
        (case sg_sign ?s raw of Inl e \<Rightarrow> Some (Inl (CertKeyError e)) | Inr sig \<Rightarrow> Some (Inr (marshal_certificate raw sig)))"
      by (rule New_cases [OF key, of "sample_template r" "fixed 20" "replicate 16 0" ?raw "sg_sign ?s"]) (simp_all add: sample_template_ok)
    moreover obtain x where "sg_sign ?s raw = Inr x" using sg [of raw] by blast
    ultimately have n: "New (fixed 20) (replicate 16 0) key ?raw (sg_sign ?s) (sample_template r) = Some (Inr (marshal_certificate raw x))" by simp
    have "length (marshal_certificate raw x) < 2 ^ 31" by (rule sample_certificate_length [OF n]) (use key short in auto)
    then show ?thesis using n by blast
  qed
  from issued [of ?raw] obtain der where d: "New (fixed 20) (replicate 16 0) ?raw ?raw (sg_sign ?s) ?t = Some (Inr der)" "length der < 2 ^ 31"
    using len by blast
  from issued [of ?hraw] obtain der' where d': "New (fixed 20) (replicate 16 0) ?hraw ?raw (sg_sign ?s) ?t' = Some (Inr der')" "length der' < 2 ^ 31"
    using len by blast
  have ne: "der' \<noteq> der"
  proof
    assume "der' = der"
    then have "New (fixed 20) (replicate 16 0) ?hraw ?raw (sg_sign ?s) ?t' = Some (Inr der)" using d'(1) by simp
    from New_same [OF d(1) this d(2)] have "?raw = ?hraw" by (simp add: sample_template_def calendar_def)
    then show False using len by simp
  qed
  let ?tbs = "issued_tbs (fixed 20) (replicate 16 0) ?raw ?raw ?t" and ?tbs' = "issued_tbs (fixed 20) (replicate 16 0) ?hraw ?raw ?t'"
  obtain c where "\<And>pc. reads_back (pc(der \<mapsto> c)) id ?tbs der" by (rule reads_back_upd [OF d, where dns = id]) blast
  moreover obtain c' where "\<And>pc. reads_back (pc(der' \<mapsto> c')) id ?tbs' der'" by (rule reads_back_upd [OF d', where dns = id]) blast
  ultimately obtain pc where pc: "reads_back pc id ?tbs der" "reads_back pc id ?tbs' der'"
    using reads_back_other ne by metis
  have i: "xdsa_IssueCertDER (fixed 20) (replicate 16 0) (sg_public ?s) ?s ?t = Some (Inr der)"
    "xhpke_IssueCertDER (fixed 20) (replicate 16 0) ?h ?s ?t' = Some (Inr der')"
    using d(1) d'(1) by (simp_all add: xdsa_IssueCertDER_def xhpke_IssueCertDER_def xdsa_xdsaSigner_PublicKey_def
        xhpke_xdsaSigner_PublicKey_def pub sample_template_def RoleLeaf_def)
  have names: "r_isCA (tp_Role ?t)" "tp_Issuer ?t = tp_Subject ?t" "tp_Issuer ?t' = tp_Subject ?t"
    by (simp_all add: sample_template_def RoleAuthority_def)
  have period: "in_period zero_time (ValidityAt (Time 2030 1 1 0 0 0 0)) (whole_second (tp_NotBefore (sample_template r)))
      (whole_second (tp_NotAfter (sample_template r)))" for r
    by (simp add: in_period_def Timestamp_def ValidityAt_def sample_template_def whole_second_def less_eq_go_time_def time_key_def)
  from certificate_chain [OF sample_primitives_ok sample_reader_ok s s, unfolded pub, OF k k h i(1) [unfolded pub] names(1)
      i(1) [unfolded pub] names(2) i(2) names(3) pc(1,1,2)]
  show ?thesis unfolding Let_def using period [of "RoleAuthority (Some 3)"] period [of RoleLeaf] by (metis verified.select_convs(1))
qed

text \<open>A path length above zero has no effect. An issuer whose certificate limits the depth below it to any
  positive number certifies the same as one without a limit, for either kind of key, and the xHPKE
  verification ignores the limit altogether.\<close>

lemma positive_path_length_ignored:
  "xdsa_enforceIssuerChaining child (issuer\<lparr>ct_MaxPathLen := int (Suc m), ct_MaxPathLenZero := False\<rparr>) =
     xdsa_enforceIssuerChaining child (issuer\<lparr>ct_MaxPathLen := -1, ct_MaxPathLenZero := False\<rparr>) \<and>
   xhpke_enforceIssuerChaining child (issuer\<lparr>ct_MaxPathLen := n, ct_MaxPathLenZero := z\<rparr>) = xhpke_enforceIssuerChaining child issuer"
  by (simp add: xdsa_enforceIssuerChaining_def xhpke_enforceIssuerChaining_def)

end
