(* ===== verification/Rsa.thy ===== *)
theory Rsa
  imports Keys
begin

text \<open>
  RSA-2048 keys, \<^verbatim>\<open>src/rsa/rsa.go\<close>: every function and method, with the package's name in front.
  The keys of the standard library's \<^verbatim>\<open>crypto/rsa\<close> are records of the fields the code touches;
  what it computes with them, and the parsers and encoders of \<^verbatim>\<open>crypto/x509\<close>, are the parameter
  \<open>std_rsa\<close>. A run-time panic is \<open>None\<close>.
\<close>

section \<open>The standard library\<close>

text \<open>\<^verbatim>\<open>rsa.PublicKey\<close> and \<^verbatim>\<open>rsa.PrivateKey\<close>. A \<^verbatim>\<open>*big.Int\<close> is an integer of any sign and size.\<close>

record std_public =
  gr_N :: int
  gr_E :: i64

record std_private =
  gk_public :: std_public
  gk_D :: int
  gk_Primes :: "int list"

text \<open>
  The parsers give \<open>None\<close> for an error and \<open>Some None\<close> for a key of another algorithm. Signing takes
  the SHA-256 digest; the random source that \<^verbatim>\<open>rsa.SignPKCS1v15\<close> is given does not change its
  result.
\<close>

record std_rsa =
  rl_validate :: "std_private \<Rightarrow> bool" \<comment> \<open>\<^verbatim>\<open>key.Validate() == nil\<close>\<close>
  rl_parse_pkcs8 :: "bytes \<Rightarrow> std_private option option"
  rl_marshal_pkcs8 :: "std_private \<Rightarrow> bytes option"
  rl_parse_pkix :: "bytes \<Rightarrow> std_public option option"
  rl_marshal_pkix :: "std_public \<Rightarrow> bytes option"
  rl_sign :: "std_private \<Rightarrow> bytes \<Rightarrow> bytes option"
  rl_verify :: "std_public \<Rightarrow> bytes \<Rightarrow> bytes \<Rightarrow> bool"
  rl_sha256 :: "bytes \<Rightarrow> bytes"

text \<open>\<^verbatim>\<open>x.BitLen()\<close> and \<^verbatim>\<open>x.Bytes()\<close>, both of the absolute value.\<close>

fun nat_len :: "nat \<Rightarrow> nat" where
  "nat_len n = (if n = 0 then 0 else Suc (nat_len (n div 2)))"

declare nat_len.simps [simp del]

definition BitLen :: "int \<Rightarrow> nat" where
  "BitLen x = nat_len (nat \<bar>x\<bar>)"

definition big_Bytes :: "int \<Rightarrow> bytes" where
  "big_Bytes x = be_min (nat \<bar>x\<bar>)"

definition SetBytes :: "bytes \<Rightarrow> int" where
  "SetBytes b = int (be_val b)"

text \<open>\<^verbatim>\<open>copy(out[stop-len(b):stop], b)\<close>, which panics if \<open>b\<close> is longer than \<open>stop\<close>.\<close>

definition copy_ending :: "nat \<Rightarrow> bytes \<Rightarrow> bytes \<Rightarrow> bytes option" where
  "copy_ending stop b out =
     (if stop < length b then None else Some (take (stop - length b) out @ b @ drop stop out))"

section \<open>Secret keys\<close>

definition rsa_SecretKeySize :: nat where "rsa_SecretKeySize = 520"
definition rsa_PublicKeySize :: nat where "rsa_PublicKeySize = 264"
definition rsa_SignatureSize :: nat where "rsa_SignatureSize = 256"
definition rsa_FingerprintSize :: nat where "rsa_FingerprintSize = 32"

lemmas rsa_consts = rsa_SecretKeySize_def rsa_PublicKeySize_def rsa_SignatureSize_def rsa_FingerprintSize_def

record rsa_secret = rk_inner :: std_private
record rsa_public = rpk_inner :: std_public

text \<open>\<open>gen\<close> is what \<^verbatim>\<open>rsa.GenerateKey\<close> returns, \<open>None\<close> an error.\<close>

definition rsa_GenerateKey :: "std_private option \<Rightarrow> rsa_secret option" where
  "rsa_GenerateKey gen = (case gen of None \<Rightarrow> None | Some key \<Rightarrow> Some \<lparr>rk_inner = key\<rparr>)"

definition rsa_ParseSecretKey :: "std_rsa \<Rightarrow> bytes \<Rightarrow> key_error + rsa_secret" where
  "rsa_ParseSecretKey L b =
     (let p = SetBytes (take 128 b);
          q = SetBytes (take 128 (drop 128 b));
          d = SetBytes (take 256 (drop 256 b));
          e = SetBytes (take 8 (drop 512 b));
          n = p * q
      in if BitLen n \<noteq> 2048 then Inl WrongModulusSize
         else if e \<noteq> 65537 then Inl WrongExponent
         else let key = \<lparr>gk_public = \<lparr>gr_N = n, gr_E = of_int e\<rparr>, gk_D = d, gk_Primes = [p, q]\<rparr>
           in if \<not> rl_validate L key then Inl ValidationFailed
              else Inr \<lparr>rk_inner = key\<rparr>)"

definition rsa_MustParseSecretKey :: "std_rsa \<Rightarrow> bytes \<Rightarrow> rsa_secret option" where
  "rsa_MustParseSecretKey L b = must (rsa_ParseSecretKey L b)"

definition rsa_ParseSecretKeyDER :: "std_rsa \<Rightarrow> bytes \<Rightarrow> key_error + rsa_secret" where
  "rsa_ParseSecretKeyDER L der =
     (case rl_parse_pkcs8 L der of
        None \<Rightarrow> Inl ParserError
      | Some None \<Rightarrow> Inl NotRSAKey
      | Some (Some rsaKey) \<Rightarrow>
          if BitLen (gr_N (gk_public rsaKey)) \<noteq> 2048 then Inl WrongModulusSize
          else if even (gr_N (gk_public rsaKey)) then Inl EvenModulus
          else if gr_E (gk_public rsaKey) \<noteq> 65537 then Inl WrongExponent
          else (case rl_marshal_pkcs8 L rsaKey of
                  None \<Rightarrow> Inl EncoderError
                | Some recoded \<Rightarrow>
                    if recoded \<noteq> der then Inl NonCanonicalDER
                    else Inr \<lparr>rk_inner = rsaKey\<rparr>))"

definition rsa_MustParseSecretKeyDER :: "std_rsa \<Rightarrow> bytes \<Rightarrow> rsa_secret option" where
  "rsa_MustParseSecretKeyDER L der = must (rsa_ParseSecretKeyDER L der)"

definition rsa_ParseSecretKeyPEM :: "std_rsa \<Rightarrow> bytes \<Rightarrow> key_error + rsa_secret" where
  "rsa_ParseSecretKeyPEM L s = parse_pem ''PRIVATE KEY'' (rsa_ParseSecretKeyDER L) s"

definition rsa_MustParseSecretKeyPEM :: "std_rsa \<Rightarrow> bytes \<Rightarrow> rsa_secret option" where
  "rsa_MustParseSecretKeyPEM L s = must (rsa_ParseSecretKeyPEM L s)"

text \<open>The statements run in order; \<^verbatim>\<open>Primes[0]\<close> and \<^verbatim>\<open>Primes[1]\<close> panic on a shorter list.\<close>

definition rsa_SecretKey_Marshal :: "rsa_secret \<Rightarrow> bytes option" where
  "rsa_SecretKey_Marshal k =
     (case gk_Primes (rk_inner k) of
        p # q # _ \<Rightarrow>
          Option.bind (copy_ending 128 (big_Bytes p) (replicate rsa_SecretKeySize 0)) (\<lambda>out.
          Option.bind (copy_ending 256 (big_Bytes q) out) (\<lambda>out.
          Option.bind (copy_ending 512 (big_Bytes (gk_D (rk_inner k))) out) (\<lambda>out.
          copy_ending 520 (big_Bytes (sint (gr_E (gk_public (rk_inner k))))) out)))
      | _ \<Rightarrow> None)"

definition rsa_SecretKey_MarshalDER :: "std_rsa \<Rightarrow> rsa_secret \<Rightarrow> bytes option" where
  "rsa_SecretKey_MarshalDER L k = rl_marshal_pkcs8 L (rk_inner k)"

definition rsa_SecretKey_MarshalPEM :: "std_rsa \<Rightarrow> rsa_secret \<Rightarrow> bytes option" where
  "rsa_SecretKey_MarshalPEM L k = map_option (Encode (ascii ''PRIVATE KEY'')) (rsa_SecretKey_MarshalDER L k)"

definition rsa_SecretKey_PublicKey :: "rsa_secret \<Rightarrow> rsa_public" where
  "rsa_SecretKey_PublicKey k = \<lparr>rpk_inner = gk_public (rk_inner k)\<rparr>"

text \<open>The conversion \<^verbatim>\<open>(*Signature)(sig)\<close> of a slice panics if it is too short.\<close>

definition rsa_Sign :: "std_rsa \<Rightarrow> rsa_secret \<Rightarrow> bytes \<Rightarrow> (key_error + bytes) option" where
  "rsa_Sign L k message =
     (let hash = rl_sha256 L message
      in case rl_sign L (rk_inner k) hash of
           None \<Rightarrow> None
         | Some sig \<Rightarrow> if length sig < rsa_SignatureSize then None else Some (Inr (take rsa_SignatureSize sig)))"

section \<open>Public keys\<close>

definition rsa_ParsePublicKey :: "bytes \<Rightarrow> key_error + rsa_public" where
  "rsa_ParsePublicKey b =
     (let n = SetBytes (take 256 b);
          e = SetBytes (take 8 (drop 256 b))
      in if n \<le> 0 then Inl InvalidPublicKey
         else if BitLen n \<noteq> 2048 then Inl WrongModulusSize
         else if even n then Inl EvenModulus
         else if e \<noteq> 65537 then Inl WrongExponent
         else Inr \<lparr>rpk_inner = \<lparr>gr_N = n, gr_E = of_int e\<rparr>\<rparr>)"

definition rsa_MustParsePublicKey :: "bytes \<Rightarrow> rsa_public option" where
  "rsa_MustParsePublicKey b = must (rsa_ParsePublicKey b)"

definition rsa_ParsePublicKeyDER :: "std_rsa \<Rightarrow> bytes \<Rightarrow> key_error + rsa_public" where
  "rsa_ParsePublicKeyDER L der =
     (case rl_parse_pkix L der of
        None \<Rightarrow> Inl ParserError
      | Some None \<Rightarrow> Inl NotRSAKey
      | Some (Some rsaKey) \<Rightarrow>
          if BitLen (gr_N rsaKey) \<noteq> 2048 then Inl WrongModulusSize
          else if even (gr_N rsaKey) then Inl EvenModulus
          else if gr_E rsaKey \<noteq> 65537 then Inl WrongExponent
          else Inr \<lparr>rpk_inner = rsaKey\<rparr>)"

definition rsa_MustParsePublicKeyDER :: "std_rsa \<Rightarrow> bytes \<Rightarrow> rsa_public option" where
  "rsa_MustParsePublicKeyDER L der = must (rsa_ParsePublicKeyDER L der)"

definition rsa_ParsePublicKeyPEM :: "std_rsa \<Rightarrow> bytes \<Rightarrow> key_error + rsa_public" where
  "rsa_ParsePublicKeyPEM L s = parse_pem ''PUBLIC KEY'' (rsa_ParsePublicKeyDER L) s"

definition rsa_MustParsePublicKeyPEM :: "std_rsa \<Rightarrow> bytes \<Rightarrow> rsa_public option" where
  "rsa_MustParsePublicKeyPEM L s = must (rsa_ParsePublicKeyPEM L s)"

definition rsa_PublicKey_Marshal :: "rsa_public \<Rightarrow> bytes option" where
  "rsa_PublicKey_Marshal k =
     Option.bind (copy_ending 256 (big_Bytes (gr_N (rpk_inner k))) (replicate rsa_PublicKeySize 0)) (\<lambda>out.
     copy_ending 264 (big_Bytes (sint (gr_E (rpk_inner k)))) out)"

text \<open>The error of the encoder is dropped; its result then is a nil slice.\<close>

definition rsa_PublicKey_MarshalDER :: "std_rsa \<Rightarrow> rsa_public \<Rightarrow> bytes" where
  "rsa_PublicKey_MarshalDER L k = (case rl_marshal_pkix L (rpk_inner k) of None \<Rightarrow> [] | Some der \<Rightarrow> der)"

definition rsa_PublicKey_MarshalPEM :: "std_rsa \<Rightarrow> rsa_public \<Rightarrow> bytes" where
  "rsa_PublicKey_MarshalPEM L k = Encode (ascii ''PUBLIC KEY'') (rsa_PublicKey_MarshalDER L k)"

definition rsa_PublicKey_MarshalText :: "rsa_public \<Rightarrow> bytes option" where
  "rsa_PublicKey_MarshalText k = map_option b64_encode (rsa_PublicKey_Marshal k)"

definition rsa_PublicKey_UnmarshalText :: "bytes \<Rightarrow> key_error + rsa_public" where
  "rsa_PublicKey_UnmarshalText text =
     (case text_array rsa_PublicKeySize text of Inl e \<Rightarrow> Inl e | Inr raw \<Rightarrow> rsa_ParsePublicKey raw)"

definition rsa_reverseBytes :: "bytes \<Rightarrow> bytes" where
  "rsa_reverseBytes b = map (\<lambda>i. b ! (length b - 1 - i)) [0..<length b]"

definition rsa_Fingerprint :: "std_rsa \<Rightarrow> rsa_public \<Rightarrow> bytes" where
  "rsa_Fingerprint L k =
     (let modLE = rsa_reverseBytes (big_Bytes (gr_N (rpk_inner k)));
          modLE = modLE @ replicate (256 - length modLE) 0;
          expLE = rsa_reverseBytes (big_Bytes (sint (gr_E (rpk_inner k))));
          expLE = expLE @ replicate (8 - length expLE) 0
      in rl_sha256 L (modLE @ expLE))"

definition rsa_SecretKey_Fingerprint :: "std_rsa \<Rightarrow> rsa_secret \<Rightarrow> bytes" where
  "rsa_SecretKey_Fingerprint L k = rsa_Fingerprint L (rsa_SecretKey_PublicKey k)"

definition rsa_MarshalCBOR :: "rsa_public \<Rightarrow> (encoder, cbor_error, unit) op option" where
  "rsa_MarshalCBOR k = map_option (\<lambda>b. emit (EncodeBytes b)) (rsa_PublicKey_Marshal k)"

definition rsa_UnmarshalCBOR :: "(decoder, cbor_error, rsa_public) op" where
  "rsa_UnmarshalCBOR = andThen (DecodeBytesFixed (int rsa_PublicKeySize)) (\<lambda>b. cbor_lift (rsa_ParsePublicKey b))"

definition rsa_Verify :: "std_rsa \<Rightarrow> rsa_public \<Rightarrow> bytes \<Rightarrow> bytes \<Rightarrow> key_error + unit" where
  "rsa_Verify L k message sig =
     (let hash = rl_sha256 L message
      in if rl_verify L (rpk_inner k) hash sig then Inr () else Inl VerificationFailed)"

definition rsa_VerifyHash :: "std_rsa \<Rightarrow> rsa_public \<Rightarrow> bytes \<Rightarrow> bytes \<Rightarrow> key_error + unit" where
  "rsa_VerifyHash L k hash sig =
     (if rl_verify L (rpk_inner k) hash sig then Inr () else Inl VerificationFailed)"

section \<open>Text forms of signatures and fingerprints\<close>

definition rsa_Signature_MarshalText :: "bytes \<Rightarrow> bytes" where
  "rsa_Signature_MarshalText s = b64_encode s"

definition rsa_Signature_UnmarshalText :: "bytes \<Rightarrow> key_error + bytes" where
  "rsa_Signature_UnmarshalText text = text_array rsa_SignatureSize text"

definition rsa_Fingerprint_MarshalText :: "bytes \<Rightarrow> bytes" where
  "rsa_Fingerprint_MarshalText f = b64_encode f"

definition rsa_Fingerprint_UnmarshalText :: "bytes \<Rightarrow> key_error + bytes" where
  "rsa_Fingerprint_UnmarshalText text = text_array rsa_FingerprintSize text"

section \<open>Big integers\<close>

lemma nat_len_le: "nat_len n \<le> k \<longleftrightarrow> n < 2 ^ k"
proof (induction k arbitrary: n)
  case 0
  then show ?case by (simp add: nat_len.simps)
next
  case (Suc k)
  then show ?case by (subst nat_len.simps) (auto simp: div_less_iff_less_mult mult.commute)
qed

lemma BitLen_eq: "BitLen x = Suc k \<longleftrightarrow> 2 ^ k \<le> \<bar>x\<bar> \<and> \<bar>x\<bar> < 2 ^ Suc k"
proof -
  have "BitLen x = Suc k \<longleftrightarrow> \<not> nat \<bar>x\<bar> < 2 ^ k \<and> nat \<bar>x\<bar> < 2 ^ Suc k"
    unfolding BitLen_def nat_len_le [symmetric] by auto
  then show ?thesis by (simp add: nat_less_iff not_less)
qed

lemma length_big_Bytes_le: "length (big_Bytes x) \<le> k \<longleftrightarrow> \<bar>x\<bar> < 256 ^ k"
proof -
  have "nat \<bar>x\<bar> < 256 ^ k" if "length (big_Bytes x) \<le> k"
  proof -
    have "nat \<bar>x\<bar> < 256 ^ length (big_Bytes x)"
      using be_val_less [of "big_Bytes x"] by (simp add: big_Bytes_def be_val_be_min)
    also have "\<dots> \<le> 256 ^ k" using that by (intro power_increasing) auto
    finally show ?thesis .
  qed
  then show ?thesis using length_be_min [of "nat \<bar>x\<bar>" k] by (auto simp: big_Bytes_def nat_less_iff)
qed

lemma be_bytes_be_min: "n < 256 ^ k \<Longrightarrow> be_bytes k n = replicate (k - length (be_min n)) 0 @ be_min n"
proof -
  assume n: "n < 256 ^ k"
  let ?b = "replicate (k - length (be_min n)) 0 @ be_min n"
  have "be_val (replicate j 0 @ b) = be_val b" for j b
    by (induction j) (simp_all add: be_val_Cons)
  then have "be_val ?b = n" by (simp add: be_val_be_min)
  moreover have "length ?b = k" using length_be_min [OF n] by simp
  ultimately show ?thesis using be_bytes_be_val [of ?b] by simp
qed

lemma SetBytes_less: "SetBytes b < 256 ^ length b" "0 \<le> SetBytes b"
proof -
  have "int (be_val b) < int (256 ^ length b)" using be_val_less [of b] by (simp only: of_nat_less_iff)
  then show "SetBytes b < 256 ^ length b" "0 \<le> SetBytes b" by (simp_all add: SetBytes_def)
qed

lemma be_bytes_SetBytes [simp]: "length b = n \<Longrightarrow> be_bytes n (nat (SetBytes b)) = b"
  by (auto simp: SetBytes_def)

lemma SetBytes_be_bytes [simp]: "0 \<le> x \<Longrightarrow> x < 256 ^ n \<Longrightarrow> SetBytes (be_bytes n (nat x)) = x"
  using be_val_be_bytes_id [of "nat x" n] by (simp add: SetBytes_def nat_less_iff)

text \<open>The buffer is written from left to right, into bytes that are still zero.\<close>

lemma copy_ending_fits:
  assumes "0 \<le> x" and "x < 256 ^ w" and "stop = length pre + w"
  shows "copy_ending stop (big_Bytes x) (pre @ replicate (w + r) 0) = Some (pre @ be_bytes w (nat x) @ replicate r 0)"
proof -
  have l: "length (big_Bytes x) \<le> w" using assms(1,2) by (simp add: length_big_Bytes_le)
  have "take (stop - length (big_Bytes x)) (pre @ replicate (w + r) (0 :: byte)) = pre @ replicate (w - length (big_Bytes x)) 0"
    using l assms(3) by (simp add: min_absorb1)
  moreover have "be_bytes w (nat x) = replicate (w - length (big_Bytes x)) 0 @ big_Bytes x"
    using be_bytes_be_min [of "nat x" w] assms(1,2) by (simp add: big_Bytes_def nat_less_iff)
  ultimately show ?thesis using l assms(3) by (simp add: copy_ending_def)
qed

lemma length_copy_ending: "copy_ending stop b out = Some out' \<Longrightarrow> stop \<le> length out \<Longrightarrow> length out' = length out"
  by (auto simp: copy_ending_def split: if_splits)

lemma copy_ending_None: "copy_ending stop (big_Bytes x) out = None \<longleftrightarrow> 256 ^ stop \<le> \<bar>x\<bar>"
  using length_big_Bytes_le [of x stop] by (auto simp: copy_ending_def)

lemma int64_fits: "\<bar>sint (e :: i64)\<bar> < 256 ^ 520"
proof -
  have "\<bar>sint e\<bar> \<le> 2 ^ 63" using sint_ge [of e] sint_lt [of e] by simp
  also have "(2 :: int) ^ 63 < 256 ^ 520" by (rule less_le_trans [of _ "256 ^ 8"]) (simp_all add: power_increasing)
  finally show ?thesis .
qed

section \<open>The raw form of secret keys\<close>

text \<open>A number that fits a field of \<open>w\<close> bytes.\<close>

definition field :: "nat \<Rightarrow> int \<Rightarrow> bool" where
  "field w x \<longleftrightarrow> 0 \<le> x \<and> x < 256 ^ w"

lemma field_SetBytes: "length b = w \<Longrightarrow> field w (SetBytes b)"
  using SetBytes_less [of b] by (simp add: field_def)

lemma SetBytes_field: "field w x \<Longrightarrow> SetBytes (be_bytes w (nat x)) = x"
  by (simp add: field_def)

definition rsa_secret_ok :: "std_rsa \<Rightarrow> rsa_secret \<Rightarrow> bool" where
  "rsa_secret_ok L k \<longleftrightarrow>
     (let key = rk_inner k; n = gr_N (gk_public key)
      in (case gk_Primes key of
            [p, q] \<Rightarrow> n = p * q \<and> field 128 p \<and> field 128 q
          | _ \<Rightarrow> False) \<and>
         BitLen n = 2048 \<and> gr_E (gk_public key) = 65537 \<and> field 256 (gk_D key) \<and> rl_validate L key)"

lemma rsa_Marshal_fits:
  assumes "gk_Primes (rk_inner k) = p # q # ps" and "field 128 p" and "field 128 q"
    and "field 256 (gk_D (rk_inner k))" and "gr_E (gk_public (rk_inner k)) = 65537"
  shows "rsa_SecretKey_Marshal k =
    Some (be_bytes 128 (nat p) @ be_bytes 128 (nat q) @ be_bytes 256 (nat (gk_D (rk_inner k))) @ be_bytes 8 65537)"
proof -
  note fits = copy_ending_fits [OF field_def [THEN iffD1, THEN conjunct1] field_def [THEN iffD1, THEN conjunct2]]
  let ?p = "be_bytes 128 (nat p)" and ?q = "be_bytes 128 (nat q)" and ?d = "be_bytes 256 (nat (gk_D (rk_inner k)))"
  have "copy_ending 128 (big_Bytes p) (replicate 520 0) = Some (?p @ replicate 392 0)"
    using fits [OF assms(2) assms(2), of 128 "[]" 392] by simp
  moreover have "copy_ending 256 (big_Bytes q) (?p @ replicate 392 0) = Some (?p @ ?q @ replicate 264 0)"
    using fits [OF assms(3) assms(3), of 256 ?p 264] by simp
  moreover have "copy_ending 512 (big_Bytes (gk_D (rk_inner k))) (?p @ ?q @ replicate 264 0) = Some (?p @ ?q @ ?d @ replicate 8 0)"
    using fits [OF assms(4) assms(4), of 512 "?p @ ?q" 8] by simp
  moreover have "copy_ending 520 (big_Bytes 65537) (?p @ ?q @ ?d @ replicate 8 0) = Some (?p @ ?q @ ?d @ be_bytes 8 65537)"
    using copy_ending_fits [of 65537 8 520 "?p @ ?q @ ?d" 0] by simp
  ultimately show ?thesis by (simp add: rsa_SecretKey_Marshal_def rsa_consts assms(1,5))
qed

lemma rsa_Marshal_None:
  "rsa_SecretKey_Marshal k = None \<longleftrightarrow>
     (case gk_Primes (rk_inner k) of
        p # q # ps \<Rightarrow> 256 ^ 128 \<le> \<bar>p\<bar> \<or> 256 ^ 256 \<le> \<bar>q\<bar> \<or> 256 ^ 512 \<le> \<bar>gk_D (rk_inner k)\<bar>
      | _ \<Rightarrow> True)"
  using int64_fits [of "gr_E (gk_public (rk_inner k))"]
  by (auto simp: rsa_SecretKey_Marshal_def Option.bind_eq_None_conv copy_ending_None not_le split: list.splits option.splits)

lemma length_rsa_Marshal: "rsa_SecretKey_Marshal k = Some b \<Longrightarrow> length b = 520"
  by (auto simp: rsa_SecretKey_Marshal_def Option.bind_eq_Some_conv rsa_consts dest!: length_copy_ending split: list.splits)

lemma BitLen_2048: "BitLen x = 2048 \<longleftrightarrow> 2 ^ 2047 \<le> \<bar>x\<bar> \<and> \<bar>x\<bar> < 2 ^ 2048"
  using BitLen_eq [of x 2047] by simp

lemma rsa_ParseSecretKey_iff:
  assumes "length b = 520"
  shows "rsa_ParseSecretKey L b = Inr k \<longleftrightarrow> rsa_secret_ok L k \<and> rsa_SecretKey_Marshal k = Some b"
proof -
  obtain bp bq bd be where b: "b = bp @ bq @ bd @ be" "length bp = 128" "length bq = 128" "length bd = 256" "length be = 8"
  proof (rule that [of "take 128 b" "take 128 (drop 128 b)" "take 256 (drop 256 b)" "drop 512 b"])
    have "drop 128 b = take 128 (drop 128 b) @ drop 256 b"
      using append_take_drop_id [of 128 "drop 128 b"] by simp
    moreover have "drop 256 b = take 256 (drop 256 b) @ drop 512 b"
      using append_take_drop_id [of 256 "drop 256 b"] by simp
    ultimately show "b = take 128 b @ take 128 (drop 128 b) @ take 256 (drop 256 b) @ drop 512 b" by simp
  qed (simp_all add: assms)
  let ?p = "SetBytes bp" and ?q = "SetBytes bq" and ?d = "SetBytes bd"
  let ?key = "\<lparr>gk_public = \<lparr>gr_N = ?p * ?q, gr_E = 65537\<rparr>, gk_D = ?d, gk_Primes = [?p, ?q]\<rparr>"
  have parse: "rsa_ParseSecretKey L b = Inr k \<longleftrightarrow>
      BitLen (?p * ?q) = 2048 \<and> SetBytes be = 65537 \<and> rl_validate L ?key \<and> k = \<lparr>rk_inner = ?key\<rparr>"
    by (auto simp: rsa_ParseSecretKey_def Let_def b)
  note bounds = field_SetBytes [OF b(2)] field_SetBytes [OF b(3)] field_SetBytes [OF b(4)]
  show ?thesis
  proof
    assume "rsa_ParseSecretKey L b = Inr k"
    then have *: "BitLen (?p * ?q) = 2048" "SetBytes be = 65537" "rl_validate L ?key" "k = \<lparr>rk_inner = ?key\<rparr>"
      using parse by blast+
    then have e: "be_bytes 8 65537 = be" using be_bytes_SetBytes [OF b(5)] by simp
    have "rsa_SecretKey_Marshal k = Some b"
      using rsa_Marshal_fits [of k ?p ?q "[]"] bounds by (simp add: *(4) b e)
    moreover have "rsa_secret_ok L k"
      using * bounds by (simp add: rsa_secret_ok_def)
    ultimately show "rsa_secret_ok L k \<and> rsa_SecretKey_Marshal k = Some b" by simp
  next
    assume k: "rsa_secret_ok L k \<and> rsa_SecretKey_Marshal k = Some b"
    then obtain p q where ps: "gk_Primes (rk_inner k) = [p, q]" "gr_N (gk_public (rk_inner k)) = p * q"
      "field 128 p" "field 128 q" "BitLen (p * q) = 2048"
      "gr_E (gk_public (rk_inner k)) = 65537" "field 256 (gk_D (rk_inner k))" "rl_validate L (rk_inner k)"
      by (auto simp: rsa_secret_ok_def Let_def split: list.splits)
    with rsa_Marshal_fits [OF ps(1,3,4,7,6)] k
    have "b = be_bytes 128 (nat p) @ be_bytes 128 (nat q) @ be_bytes 256 (nat (gk_D (rk_inner k))) @ be_bytes 8 65537" by simp
    then have parts: "bp = be_bytes 128 (nat p)" "bq = be_bytes 128 (nat q)" "bd = be_bytes 256 (nat (gk_D (rk_inner k)))"
      "be = be_bytes 8 65537" using b by simp_all
    have "SetBytes be = 65537" unfolding parts by (simp add: SetBytes_def)
    moreover have "?p = p" "?q = q" "?d = gk_D (rk_inner k)" using ps by (simp_all add: parts SetBytes_field)
    moreover have "k = \<lparr>rk_inner = ?key\<rparr>"
      using ps calculation by (cases k, cases "rk_inner k", cases "gk_public (rk_inner k)") simp
    ultimately show "rsa_ParseSecretKey L b = Inr k" using parse ps by simp
  qed
qed

section \<open>What the standard library promises\<close>

text \<open>
  A SHA-256 digest has 32 bytes; what the PKCS#8 parser returns is validated; a valid key of 2048
  bits is written as PKCS#8 and its public key as PKIX, both are read back, and it signs with 256
  bytes that its public key verifies.
\<close>

definition std_rsa_ok :: "std_rsa \<Rightarrow> bool" where
  "std_rsa_ok L \<longleftrightarrow>
     (\<forall>m. length (rl_sha256 L m) = 32) \<and>
     (\<forall>der k. rl_parse_pkcs8 L der = Some (Some k) \<longrightarrow> rl_validate L k) \<and>
     (\<forall>k. rl_validate L k \<and> BitLen (gr_N (gk_public k)) = 2048 \<longrightarrow>
        (\<exists>der. rl_marshal_pkcs8 L k = Some der \<and> der \<noteq> [] \<and> rl_parse_pkcs8 L der = Some (Some k)) \<and>
        (\<exists>der. rl_marshal_pkix L (gk_public k) = Some der \<and> der \<noteq> [] \<and> rl_parse_pkix L der = Some (Some (gk_public k))) \<and>
        (\<forall>h. length h = 32 \<longrightarrow>
           (\<exists>sig. rl_sign L k h = Some sig \<and> length sig = 256 \<and> rl_verify L (gk_public k) h sig)))"

text \<open>A library that knows one key, for the witnesses.\<close>

definition one_key :: "std_private \<Rightarrow> std_rsa" where
  "one_key K = \<lparr>
     rl_validate = (\<lambda>k. k = K),
     rl_parse_pkcs8 = (\<lambda>der. if der = [1] then Some (Some K) else None),
     rl_marshal_pkcs8 = (\<lambda>k. if k = K then Some [1] else None),
     rl_parse_pkix = (\<lambda>der. if der = [2] then Some (Some (gk_public K)) else None),
     rl_marshal_pkix = (\<lambda>k. if k = gk_public K then Some [2] else None),
     rl_sign = (\<lambda>k h. Some (fixed 256 h)),
     rl_verify = (\<lambda>k h sig. sig = fixed 256 h),
     rl_sha256 = fixed 32\<rparr>"

lemma one_key_ok: "std_rsa_ok (one_key K)"
  by (simp add: std_rsa_ok_def one_key_def)

section \<open>Public keys are strict\<close>

definition rsa_public_ok :: "rsa_public \<Rightarrow> bool" where
  "rsa_public_ok k \<longleftrightarrow> odd (gr_N (rpk_inner k)) \<and> 2 ^ 2047 \<le> gr_N (rpk_inner k) \<and> gr_N (rpk_inner k) < 2 ^ 2048 \<and>
     gr_E (rpk_inner k) = 65537"

definition rsa_public_bytes :: "rsa_public \<Rightarrow> bytes" where
  "rsa_public_bytes k = be_bytes 256 (nat (gr_N (rpk_inner k))) @ be_bytes 8 65537"

lemma rsa_PublicKey_Marshal_ok: "rsa_public_ok k \<Longrightarrow> rsa_PublicKey_Marshal k = Some (rsa_public_bytes k)"
  using copy_ending_fits [of "gr_N (rpk_inner k)" 256 256 "[]" 8]
    copy_ending_fits [of 65537 8 264 "be_bytes 256 (nat (gr_N (rpk_inner k)))" 0]
  by (simp add: rsa_public_ok_def rsa_PublicKey_Marshal_def rsa_public_bytes_def rsa_consts)

interpretation rsa_public: raw_key rsa_public_bytes rsa_ParsePublicKey rsa_public_ok 264
proof (unfold_locales, goal_cases)
  case (1 b k)
  obtain bn be where b: "b = bn @ be" "length bn = 256" "length be = 8"
    using 1 by (intro that [of "take 256 b" "drop 256 b"]) simp_all
  have "be = be_bytes 8 65537 \<longleftrightarrow> SetBytes be = 65537"
    using be_bytes_SetBytes [OF b(3)] SetBytes_be_bytes [of 65537 8] by auto
  moreover have "bn = be_bytes 256 (nat n) \<longleftrightarrow> SetBytes bn = n" if "0 \<le> n" "n < 256 ^ 256" for n
    using be_bytes_SetBytes [OF b(2)] SetBytes_be_bytes [OF that] by auto
  moreover have "0 \<le> SetBytes bn" "SetBytes bn < 256 ^ 256" using SetBytes_less [of bn] by (simp_all only: b)
  ultimately show ?case
    by (cases k, cases "rpk_inner k")
       (auto simp: rsa_ParsePublicKey_def Let_def b rsa_public_ok_def rsa_public_bytes_def BitLen_2048)
qed (simp_all add: rsa_public_bytes_def max_int_def)

lemma rsa_reverseBytes_rev [simp]: "rsa_reverseBytes b = rev b"
  by (intro nth_equalityI) (simp_all add: rsa_reverseBytes_def rev_nth)

lemma pad_little_endian:
  assumes "0 \<le> x" and "x < 256 ^ w"
  shows "rev (big_Bytes x) @ replicate (w - length (big_Bytes x)) 0 = rev (be_bytes w (nat x))"
  using be_bytes_be_min [of "nat x" w] assms by (simp add: big_Bytes_def nat_less_iff)

lemma rsa_Fingerprint_ok:
  assumes "rsa_public_ok k" and "rsa_public_bytes k = b"
  shows "rsa_Fingerprint L k = rl_sha256 L (rev (take 256 b) @ rev (drop 256 b))"
proof -
  let ?N = "gr_N (rpk_inner k)"
  have N: "0 \<le> ?N" "?N < 256 ^ 256" and e: "sint (gr_E (rpk_inner k)) = 65537" using assms(1) by (simp_all add: rsa_public_ok_def)
  note n = pad_little_endian [OF N]
  have "rev (big_Bytes 65537) @ replicate (8 - length (big_Bytes 65537)) 0 = rev (be_bytes 8 (nat 65537))"
    by (rule pad_little_endian) simp_all
  then have "rsa_Fingerprint L k = rl_sha256 L (rev (be_bytes 256 (nat ?N)) @ rev (be_bytes 8 65537))"
    by (simp only: rsa_Fingerprint_def Let_def rsa_reverseBytes_rev length_rev e n) simp
  then show ?thesis by (simp add: assms(2) [symmetric] rsa_public_bytes_def)
qed

lemma rsa_secret_usable:
  assumes "std_rsa_ok L"
    and "rsa_ParseSecretKeyDER L x = Inr k \<or> length x = 520 \<and> rsa_ParseSecretKey L x = Inr k \<and> odd (gr_N (gk_public (rk_inner k)))"
  shows "rl_validate L (rk_inner k) \<and> BitLen (gr_N (gk_public (rk_inner k))) = 2048 \<and> odd (gr_N (gk_public (rk_inner k))) \<and>
    gr_E (gk_public (rk_inner k)) = 65537"
  using assms(2)
proof (elim disjE conjE)
  assume "rsa_ParseSecretKeyDER L x = Inr k"
  then show ?thesis using assms(1) unfolding std_rsa_ok_def
    by (auto simp: rsa_ParseSecretKeyDER_def split: option.splits if_splits)
next
  assume x: "length x = 520" "rsa_ParseSecretKey L x = Inr k" "odd (gr_N (gk_public (rk_inner k)))"
  then have "rsa_secret_ok L k" using rsa_ParseSecretKey_iff by blast
  then show ?thesis unfolding rsa_secret_ok_def Let_def using x(3) by simp
qed

section \<open>Properties\<close>

text \<open>C26: the raw form of secret keys is strict. A 520-byte array is accepted exactly if it is what
  \<^verbatim>\<open>Marshal\<close> writes for the returned key and that key is usable: two primes of at most 1024 bits
  whose product is the 2048-bit modulus, exponent 65537, a private exponent of at most 2048 bits,
  and accepted by the standard library's validation.\<close>

theorem secret_keys_raw_exact:
  assumes "length b = 520"
  shows "rsa_ParseSecretKey L b = Inr k \<longleftrightarrow>
    rsa_SecretKey_Marshal k = Some b \<and> rl_validate L (rk_inner k) \<and>
    (\<exists>p q. gk_Primes (rk_inner k) = [p, q] \<and> gr_N (gk_public (rk_inner k)) = p * q \<and>
       field 128 p \<and> field 128 q \<and> BitLen (p * q) = 2048 \<and>
       field 256 (gk_D (rk_inner k)) \<and> gr_E (gk_public (rk_inner k)) = 65537)"
  using rsa_ParseSecretKey_iff [OF assms, of L k] by (auto simp: rsa_secret_ok_def Let_def split: list.splits)

definition sample_rsa :: std_private where
  "sample_rsa = \<lparr>gk_public = \<lparr>gr_N = (3 * 2 ^ 1022 + 1) * (3 * 2 ^ 1022 + 1), gr_E = 65537\<rparr>, gk_D = 3,
     gk_Primes = [3 * 2 ^ 1022 + 1, 3 * 2 ^ 1022 + 1]\<rparr>"

lemma secret_keys_raw_exact_witness:
  "\<exists>b. length b = 520 \<and> rsa_ParseSecretKey (one_key sample_rsa) b = Inr \<lparr>rk_inner = sample_rsa\<rparr>"
proof -
  let ?k = "\<lparr>rk_inner = sample_rsa\<rparr>"
  obtain b where m: "rsa_SecretKey_Marshal ?k = Some b"
    using rsa_Marshal_fits [of ?k "3 * 2 ^ 1022 + 1" "3 * 2 ^ 1022 + 1" "[]"] by (simp add: sample_rsa_def field_def)
  from secret_keys_raw_exact [OF length_rsa_Marshal [OF m], of "one_key sample_rsa" ?k]
  have "rsa_ParseSecretKey (one_key sample_rsa) b = Inr ?k" by (simp add: m) (simp add: one_key_def sample_rsa_def field_def BitLen_2048)
  then show ?thesis using length_rsa_Marshal [OF m] by blast
qed

text \<open>C27: what becomes of a key that \<^verbatim>\<open>ParseSecretKeyDER\<close> accepts. \<^verbatim>\<open>MarshalDER\<close> gives back the very
  bytes that were parsed. \<^verbatim>\<open>Marshal\<close> panics exactly if the key has fewer than two primes, the first
  one exceeds 1024 bits, or the second one or the private exponent do not even fit in front of the
  end of their fields; otherwise the array it returns is read back as this key exactly if there
  are no more than two primes, which fit their fields like the private exponent, and the key is
  valid. So the parser for DER lets keys pass whose raw form cannot be written, or is silently
  one of another key.\<close>

theorem accepted_keys_marshal:
  assumes "rsa_ParseSecretKeyDER L der = Inr k"
  shows "rsa_SecretKey_MarshalDER L k = Some der \<and>
    (rsa_SecretKey_Marshal k = None \<longleftrightarrow>
       (case gk_Primes (rk_inner k) of
          p # q # ps \<Rightarrow> 256 ^ 128 \<le> \<bar>p\<bar> \<or> 256 ^ 256 \<le> \<bar>q\<bar> \<or> 256 ^ 512 \<le> \<bar>gk_D (rk_inner k)\<bar>
        | _ \<Rightarrow> True)) \<and>
    (case rsa_SecretKey_Marshal k of
       None \<Rightarrow> True
     | Some b \<Rightarrow> length b = 520 \<and>
         (rsa_ParseSecretKey L b = Inr k \<longleftrightarrow> rl_validate L (rk_inner k) \<and>
            (\<exists>p q. gk_Primes (rk_inner k) = [p, q] \<and> gr_N (gk_public (rk_inner k)) = p * q \<and>
               field 128 p \<and> field 128 q \<and> field 256 (gk_D (rk_inner k)))))"
proof -
  have k: "BitLen (gr_N (gk_public (rk_inner k))) = 2048" "gr_E (gk_public (rk_inner k)) = 65537"
    and der: "rl_marshal_pkcs8 L (rk_inner k) = Some der"
    using assms by (auto simp: rsa_ParseSecretKeyDER_def split: option.splits if_splits)
  have r: "rsa_ParseSecretKey L b = Inr k \<longleftrightarrow> rl_validate L (rk_inner k) \<and>
      (\<exists>p q. gk_Primes (rk_inner k) = [p, q] \<and> gr_N (gk_public (rk_inner k)) = p * q \<and>
         field 128 p \<and> field 128 q \<and> field 256 (gk_D (rk_inner k)))"
    if "rsa_SecretKey_Marshal k = Some b" for b
    using rsa_ParseSecretKey_iff [OF length_rsa_Marshal [OF that], of L k] that k
    by (auto simp: rsa_secret_ok_def Let_def split: list.splits)
  show ?thesis
    unfolding rsa_Marshal_None rsa_SecretKey_MarshalDER_def der
    using r length_rsa_Marshal [of k] by (simp split: option.split)
qed

text \<open>A key whose first prime has 1025 bits: accepted, written as DER, and \<^verbatim>\<open>Marshal\<close> panics.\<close>

definition unbalanced_rsa :: std_private where
  "unbalanced_rsa = \<lparr>gk_public = \<lparr>gr_N = (2 ^ 1024 + 1) * (2 ^ 1023 + 1), gr_E = 65537\<rparr>, gk_D = 3,
     gk_Primes = [2 ^ 1024 + 1, 2 ^ 1023 + 1]\<rparr>"

lemma accepted_keys_marshal_witness:
  "rsa_ParseSecretKeyDER (one_key unbalanced_rsa) [1] = Inr \<lparr>rk_inner = unbalanced_rsa\<rparr> \<and>
   rsa_SecretKey_Marshal \<lparr>rk_inner = unbalanced_rsa\<rparr> = None"
proof -
  have p: "rsa_ParseSecretKeyDER (one_key unbalanced_rsa) [1] = Inr \<lparr>rk_inner = unbalanced_rsa\<rparr>"
    by (simp add: rsa_ParseSecretKeyDER_def one_key_def BitLen_2048) (simp add: unbalanced_rsa_def)
  from accepted_keys_marshal [OF p] p show ?thesis by (simp add: unbalanced_rsa_def)
qed

text \<open>C28: public keys are strict in every form but DER. The raw, text and CBOR forms are accepted
  exactly if they are what the package writes for an odd modulus of 2048 bits with exponent 65537,
  and the fingerprint is the hash of the two numbers of the raw form in little endian, so it
  commits to the whole key.\<close>

theorem rsa_public_keys_strict:
  assumes "length b = 264"
  shows "(rsa_ParsePublicKey b = Inr k \<longleftrightarrow> rsa_public_ok k \<and> rsa_PublicKey_Marshal k = Some b) \<and>
    (rsa_ParsePublicKey b = Inr k \<longrightarrow> rsa_Fingerprint L k = rl_sha256 L (rev (take 256 b) @ rev (drop 256 b))) \<and>
    (rsa_PublicKey_UnmarshalText text = Inr k \<longleftrightarrow> rsa_public_ok k \<and> rsa_PublicKey_MarshalText k = Some text) \<and>
    (rsa_UnmarshalCBOR (at_pos pre s) = (Inr k, at_pos pre' s') \<longleftrightarrow> rsa_public_ok k \<and> pre @ s = pre' @ s' \<and>
       (case rsa_MarshalCBOR k of None \<Rightarrow> False | Some m \<Rightarrow> m \<lparr>buf = pre\<rparr> = (Inr (), \<lparr>buf = pre'\<rparr>)))"
proof (cases "rsa_public_ok k")
  case True
  note m = rsa_PublicKey_Marshal_ok [OF True]
  show ?thesis
    using rsa_public.parse_iff [OF assms, of k] rsa_Fingerprint_ok [OF True, of b L] rsa_public.text_form [of "text" k]
      rsa_public.cbor_exact [of pre s k pre' s'] True
    by (auto simp: m rsa_PublicKey_UnmarshalText_def rsa_PublicKey_MarshalText_def rsa_UnmarshalCBOR_def rsa_MarshalCBOR_def
        rsa_PublicKeySize_def)
next
  case False
  then show ?thesis
    using rsa_public.parse_iff [OF assms, of k] rsa_public.text_form [of "text" k] rsa_public.cbor_exact [of pre s k pre' s']
    by (simp add: rsa_PublicKey_UnmarshalText_def rsa_UnmarshalCBOR_def rsa_PublicKeySize_def)
qed

lemma rsa_public_keys_strict_witness:
  "\<exists>b. length b = 264 \<and> rsa_ParsePublicKey b = Inr (rsa_SecretKey_PublicKey \<lparr>rk_inner = sample_rsa\<rparr>)"
proof -
  let ?k = "rsa_SecretKey_PublicKey \<lparr>rk_inner = sample_rsa\<rparr>"
  have ok: "rsa_public_ok ?k"
    by (simp add: rsa_public_ok_def rsa_SecretKey_PublicKey_def sample_rsa_def)
  from rsa_PublicKey_Marshal_ok [OF ok] rsa_public_keys_strict [OF rsa_public.length_raw [of ?k], of ?k] ok
  show "\<exists>b. length b = 264 \<and> rsa_ParsePublicKey b = Inr ?k" using rsa_public.length_raw [of ?k] by blast
qed

text \<open>C29: a key works in every form in which it is stored. For a secret key read from DER, or from
  its raw form with an odd modulus, the PEM forms of the key and of its public key are written and
  read back; signing never panics nor fails, its signatures have the fixed size, and the public
  key that is read back verifies them, against the message and against its hash.\<close>

theorem rsa_stored_keys_work:
  assumes "std_rsa_ok L"
    and "rsa_ParseSecretKeyDER L x = Inr k \<or> length x = 520 \<and> rsa_ParseSecretKey L x = Inr k \<and> odd (gr_N (gk_public (rk_inner k)))"
  shows "\<exists>pem sig. rsa_SecretKey_MarshalPEM L k = Some pem \<and> rsa_ParseSecretKeyPEM L pem = Inr k \<and>
    rsa_ParsePublicKeyPEM L (rsa_PublicKey_MarshalPEM L (rsa_SecretKey_PublicKey k)) = Inr (rsa_SecretKey_PublicKey k) \<and>
    rsa_Sign L k m = Some (Inr sig) \<and> length sig = 256 \<and>
    rsa_Verify L (rsa_SecretKey_PublicKey k) m sig = Inr () \<and>
    rsa_VerifyHash L (rsa_SecretKey_PublicKey k) (rl_sha256 L m) sig = Inr ()"
proof -
  let ?K = "rk_inner k"
  have k: "rl_validate L ?K" "BitLen (gr_N (gk_public ?K)) = 2048" "odd (gr_N (gk_public ?K))" "gr_E (gk_public ?K) = 65537"
    using rsa_secret_usable [OF assms] by simp_all
  with assms(1) obtain der pub sig where
    der: "rl_marshal_pkcs8 L ?K = Some der" "der \<noteq> []" "rl_parse_pkcs8 L der = Some (Some ?K)"
    and pub: "rl_marshal_pkix L (gk_public ?K) = Some pub" "pub \<noteq> []" "rl_parse_pkix L pub = Some (Some (gk_public ?K))"
    and sig: "rl_sign L ?K (rl_sha256 L m) = Some sig" "length sig = 256" "rl_verify L (gk_public ?K) (rl_sha256 L m) sig"
    unfolding std_rsa_ok_def by blast
  have "Decode (Encode (ascii ''PRIVATE KEY'') der) = Inr (ascii ''PRIVATE KEY'', der)"
    "Decode (Encode (ascii ''PUBLIC KEY'') pub) = Inr (ascii ''PUBLIC KEY'', pub)"
    using der pub by (auto intro!: Decode_Encode_block simp: ascii_def lf_def)
  with der pub sig k show ?thesis
    by (intro exI [of _ "Encode (ascii ''PRIVATE KEY'') der"] exI [of _ sig])
       (simp add: rsa_SecretKey_MarshalPEM_def rsa_SecretKey_MarshalDER_def rsa_ParseSecretKeyPEM_def parse_pem_iff
        rsa_ParseSecretKeyDER_def rsa_PublicKey_MarshalPEM_def rsa_PublicKey_MarshalDER_def rsa_ParsePublicKeyPEM_def
        rsa_ParsePublicKeyDER_def rsa_SecretKey_PublicKey_def rsa_Sign_def rsa_Verify_def rsa_VerifyHash_def rsa_consts)
qed

lemma rsa_stored_keys_work_witness:
  "\<exists>sig. rsa_Sign (one_key sample_rsa) \<lparr>rk_inner = sample_rsa\<rparr> [1, 2, 3] = Some (Inr sig) \<and> length sig = 256"
proof -
  have "rsa_ParseSecretKeyDER (one_key sample_rsa) [1] = Inr \<lparr>rk_inner = sample_rsa\<rparr>"
    by (simp add: rsa_ParseSecretKeyDER_def one_key_def BitLen_2048) (simp add: sample_rsa_def)
  then show ?thesis using rsa_stored_keys_work [OF one_key_ok disjI1] by blast
qed

end
