(* ===== verification/Kdf.thy ===== *)
theory Kdf
  imports Prelude
begin

text \<open>
  The key derivation packages \<^verbatim>\<open>src/hkdf/hkdf.go\<close> and \<^verbatim>\<open>src/argon2/argon2.go\<close>: wrappers of
  \<^verbatim>\<open>golang.org/x/crypto\<close>, whose functions are the parameter \<open>kdf_library\<close>. A panic is \<open>None\<close>.
\<close>

text \<open>
  The readers of HKDF are given by what \<^verbatim>\<open>io.ReadFull\<close> gets for a buffer of some length, \<open>None\<close>
  for an error. Argon2id takes password, salt, time, memory, threads and length, and panics for a
  time or a number of threads of zero.
\<close>

record kdf_library =
  kl_New :: "bytes \<Rightarrow> bytes \<Rightarrow> bytes \<Rightarrow> nat \<Rightarrow> bytes option" \<comment> \<open>secret, salt, info\<close>
  kl_Extract :: "bytes \<Rightarrow> bytes \<Rightarrow> bytes"
  kl_Expand :: "bytes \<Rightarrow> bytes \<Rightarrow> nat \<Rightarrow> bytes option" \<comment> \<open>pseudorandom key, info\<close>
  kl_IDKey :: "bytes \<Rightarrow> bytes \<Rightarrow> u32 \<Rightarrow> u32 \<Rightarrow> byte \<Rightarrow> u32 \<Rightarrow> bytes option"

text \<open>\<^verbatim>\<open>make([]byte, n)\<close> panics for a negative \<open>n\<close>.\<close>

definition hkdf_Key :: "kdf_library \<Rightarrow> bytes \<Rightarrow> bytes \<Rightarrow> bytes \<Rightarrow> int \<Rightarrow> bytes option" where
  "hkdf_Key K secret salt info n = (if n < 0 then None else kl_New K secret salt info (nat n))"

definition hkdf_Extract :: "kdf_library \<Rightarrow> bytes \<Rightarrow> bytes \<Rightarrow> bytes option" where
  "hkdf_Extract K secret salt =
     (let blob = kl_Extract K secret salt in if length blob \<noteq> 32 then None else Some blob)"

definition hkdf_Expand :: "kdf_library \<Rightarrow> bytes \<Rightarrow> bytes \<Rightarrow> int \<Rightarrow> bytes option" where
  "hkdf_Expand K prk info n = (if n < 0 then None else kl_Expand K prk info (nat n))"

definition argon2_Key :: "kdf_library \<Rightarrow> bytes \<Rightarrow> bytes \<Rightarrow> u32 \<Rightarrow> u32 \<Rightarrow> byte \<Rightarrow> u32 \<Rightarrow> bytes option" where
  "argon2_Key K password salt time memory threads keyLen = kl_IDKey K password salt time memory threads keyLen"

text \<open>
  RFC 5869: HKDF is extraction followed by expansion, the extracted key has the size of a SHA-256
  digest, and expansion gives the requested number of bytes up to 255 digests.
\<close>

definition kdf_library_ok :: "kdf_library \<Rightarrow> bool" where
  "kdf_library_ok K \<longleftrightarrow>
     (\<forall>secret salt info n. kl_New K secret salt info n = kl_Expand K (kl_Extract K secret salt) info n) \<and>
     (\<forall>secret salt. length (kl_Extract K secret salt) = 32) \<and>
     (\<forall>prk info n. case kl_Expand K prk info n of None \<Rightarrow> 255 * 32 < n | Some out \<Rightarrow> length out = n \<and> n \<le> 255 * 32)"

lemma hkdf_Key_split:
  "kdf_library_ok K \<Longrightarrow> hkdf_Key K secret salt info n = Option.bind (hkdf_Extract K secret salt) (\<lambda>prk. hkdf_Expand K prk info n)"
  by (simp add: kdf_library_ok_def hkdf_Key_def hkdf_Extract_def hkdf_Expand_def)

lemma hkdf_Expand_length:
  assumes "kdf_library_ok K"
  shows "hkdf_Expand K prk info n = None \<longleftrightarrow> n \<notin> {0..8160}" "hkdf_Expand K prk info n = Some out \<Longrightarrow> int (length out) = n"
proof -
  have "case kl_Expand K prk info (nat n) of None \<Rightarrow> 255 * 32 < nat n | Some out \<Rightarrow> length out = nat n \<and> nat n \<le> 255 * 32"
    using assms by (simp add: kdf_library_ok_def)
  then show "hkdf_Expand K prk info n = None \<longleftrightarrow> n \<notin> {0..8160}" "hkdf_Expand K prk info n = Some out \<Longrightarrow> int (length out) = n"
    by (auto simp: hkdf_Expand_def split: option.splits if_splits)
qed

end
