(* ===== verification/Cbor_Fill.thy ===== *)
theory Cbor_Fill
  imports Cbor_Typed
begin

text \<open>
  \<^verbatim>\<open>Unmarshal\<close> in place. \<open>decodeValue\<close> returns the value that a variable holds after a successful
  decoding; the Go function fills the variable as it goes, and stops in the middle at an error.
  \<open>fillValue\<close> has the same steps with the variable as part of the state, so that it says what a
  failed \<^verbatim>\<open>Unmarshal\<close> leaves behind. The two agree wherever both speak, and the variable never
  holds anything but a value of its type.
\<close>

section \<open>Filling a variable\<close>

text \<open>The state is the decoder and the variable.\<close>

type_synonym ('c, 'a) fill = "(decoder \<times> 'c gval, cbor_error, 'a) op"

definition on_dec :: "(decoder, cbor_error, 'a) op \<Rightarrow> ('c, 'a) fill" where
  "on_dec f = (\<lambda>(d, v). case f d of (r, d') \<Rightarrow> (r, (d', v)))"

definition put :: "'c gval \<Rightarrow> ('c, unit) fill" where
  "put x = (\<lambda>(d, v). (Inr (), (d, x)))"

definition on_field :: "nat \<Rightarrow> ('c, 'a) fill \<Rightarrow> ('c, 'a) fill" where
  "on_field i f = (\<lambda>(d, v). case f (d, old_fields v ! i) of (r, (d', x)) \<Rightarrow> (r, (d', VStruct ((old_fields v)[i := x]))))"

text \<open>\<^verbatim>\<open>v.Elem()\<close>; \<open>new_ptr\<close> has made the pointer point somewhere.\<close>

definition new_ptr :: "'c hooks \<Rightarrow> gtype \<Rightarrow> ('c, unit) fill" where
  "new_ptr hk t = (\<lambda>(d, v). (Inr (), (d, case v of VPtr (Some x) \<Rightarrow> v | _ \<Rightarrow> VPtr (Some (zero_val hk t)))))"

definition on_elem :: "('c, 'a) fill \<Rightarrow> ('c, 'a) fill" where
  "on_elem f = (\<lambda>(d, v). case v of
     VPtr (Some x) \<Rightarrow> (case f (d, x) of (r, (d', y)) \<Rightarrow> (r, (d', VPtr (Some y))))
   | _ \<Rightarrow> fail ErrUnsupportedType (d, v))"

text \<open>
  The receiver of \<^verbatim>\<open>UnmarshalCBOR\<close> after a failed call is up to the method: \<open>lv nm c d\<close>, when it held
  \<open>c\<close> and was called with the decoder \<open>d\<close>.
\<close>

type_synonym 'c leaves = "string \<Rightarrow> 'c \<Rightarrow> decoder \<Rightarrow> 'c"

definition call_custom :: "'c hooks \<Rightarrow> 'c leaves \<Rightarrow> string \<Rightarrow> ('c, unit) fill" where
  "call_custom hk lv nm = (\<lambda>(d, v). case unmarshalCBOR hk nm d of
     (Inl e, d') \<Rightarrow> (Inl e, (d', case v of VCustom c \<Rightarrow> VCustom (lv nm c d) | _ \<Rightarrow> v))
   | (Inr c, d') \<Rightarrow> (Inr (), (d', VCustom c)))"

definition fill_step :: "(fieldInfo \<Rightarrow> ('c, unit) fill) \<Rightarrow> fieldInfo list \<Rightarrow> i64 option \<Rightarrow> nat \<Rightarrow> ('c, i64 option) fill" where
  "fill_step fill mf = (\<lambda>prevKey _.
     andThen (on_dec DecodeInt) (\<lambda>key.
       if (case prevKey of None \<Rightarrow> False | Some p \<Rightarrow> mapKeyCmp p key = 0) then fail ErrDuplicateMapKey
       else if (case prevKey of None \<Rightarrow> False | Some p \<Rightarrow> mapKeyCmp p key > 0) then fail ErrInvalidMapKeyOrder
       else case keyToField mf key of
         None \<Rightarrow> fail ErrUnsupportedType
       | Some fi \<Rightarrow> andThen (fill fi) (\<lambda>_. ret (Some key))))"

lemma fill_step_cong [fundef_cong]:
  assumes "mf = mf'" and "prev = prev'" and "n = n'" and "\<And>fi. fi \<in> set mf' \<Longrightarrow> fill fi = fill' fi"
  shows "fill_step fill mf prev n = fill_step fill' mf' prev' n'"
proof -
  have "fill_step fill mf' prev' n' = fill_step fill' mf' prev' n'"
    unfolding fill_step_def
    by (rule arg_cong [where f = "andThen (on_dec DecodeInt)"], rule ext)
       (use assms(4) keyToField_mem in \<open>simp split: option.split\<close>)
  with assms(1,2,3) show ?thesis by simp
qed

function fillValue :: "'c hooks \<Rightarrow> 'c leaves \<Rightarrow> gtype \<Rightarrow> bool \<Rightarrow> ('c, unit) fill"
  and fillKind :: "'c hooks \<Rightarrow> 'c leaves \<Rightarrow> gtype \<Rightarrow> bool \<Rightarrow> ('c, unit) fill"
where
  "fillValue hk lv ty optional =
     (case ty of
        TCustom nm \<Rightarrow> call_custom hk lv nm
      | TPtr t \<Rightarrow>
          andThen (new_ptr hk t) (\<lambda>_.
            case t of
              TCustom nm \<Rightarrow> on_elem (call_custom hk lv nm)
            | _ \<Rightarrow> (\<lambda>(dec, v).
                if \<not> isOptionType t \<and> PeekNull dec then
                  (if \<not> optional then fail ErrUnexpectedNull
                   else andThen (on_dec DecodeNull) (\<lambda>_. put (VPtr None))) (dec, v)
                else andThen (new_ptr hk t) (\<lambda>_. on_elem (fillKind hk lv t False)) (dec, v)))
      | _ \<Rightarrow> fillKind hk lv ty optional)"
| "fillKind hk lv ty optional =
     (case ty of
        TBool \<Rightarrow> andThen (on_dec DecodeBool) (\<lambda>b. put (VBool b))
      | TUint b \<Rightarrow> andThen (on_dec DecodeUint) (\<lambda>n. put (set_uint b n))
      | TInt b \<Rightarrow> andThen (on_dec DecodeInt) (\<lambda>n. put (set_int b n))
      | TString \<Rightarrow> andThen (on_dec DecodeText) (\<lambda>s. put (VString s))
      | TRaw \<Rightarrow> (\<lambda>(dec, v). andThen (on_dec (skipObject maxDepth))
          (\<lambda>_ (dec', v). put (VBytes (Some (take (pos dec' - pos dec) (drop (pos dec) (data dec))))) (dec', v)) (dec, v))
      | TBytes \<Rightarrow> (\<lambda>(dec, v).
          if PeekNull dec then
            (if \<not> optional then fail ErrUnexpectedNull
             else andThen (on_dec DecodeNull) (\<lambda>_. put (VBytes None))) (dec, v)
          else andThen (on_dec DecodeBytes) (\<lambda>bs. put (VBytes (Some bs))) (dec, v))
      | TByteArray n \<Rightarrow> andThen (on_dec (DecodeBytesFixed (int n))) (\<lambda>bs. put (VArray bs))
      | TUnit \<Rightarrow> andThen (on_dec DecodeArrayHeader) (\<lambda>len. if len \<noteq> 0 then fail ErrUnexpectedItemCount else ret ())
      | TNull \<Rightarrow> on_dec DecodeNull
      | TStruct nm fs \<Rightarrow>
          if isOptionType ty then (\<lambda>(dec, v).
            if PeekNull dec then
              andThen (on_dec DecodeNull) (\<lambda>_. andThen (on_field 1 (put (VBool False))) (\<lambda>_.
                on_field 0 (put (zero_val hk (f_type (fs ! 0)))))) (dec, v)
            else
              andThen (on_field 0 (fillValue hk lv (f_type (fs ! 0)) False)) (\<lambda>_. on_field 1 (put (VBool True))) (dec, v))
          else if wantArray fs then
            andThen (on_dec DecodeArrayHeader) (\<lambda>len.
              if sint len \<noteq> int (length (arrayFields fs)) then fail ErrUnexpectedItemCount
              else seq_ops (map (\<lambda>f. on_field (afi_field f) (fillValue hk lv (f_type (fs ! afi_field f)) (afi_optional f)))
                (arrayFields fs)))
          else
            (case mapFields fs of
               Inl e \<Rightarrow> fail e
             | Inr mf \<Rightarrow>
                 if mf = [] \<and> structFields fs \<noteq> [] then fail ErrUnsupportedType
                 else andThen (on_dec DecodeMapHeader) (\<lambda>len.
                   if sint len \<noteq> int (length mf) then fail ErrUnexpectedItemCount
                   else andThen (fold_ops (fill_step (\<lambda>fi. on_field (fi_field fi)
                       (fillValue hk lv (f_type (fs ! fi_field fi)) (fi_optional fi))) mf) None [0..<unat len]) (\<lambda>_. ret ())))
      | _ \<Rightarrow> fail ErrUnsupportedType)"
  by pat_completeness auto
termination
  by (relation "measures [\<lambda>a. case a of Inl (hk, lv, ty, _) \<Rightarrow> size ty | Inr (hk, lv, ty, _) \<Rightarrow> size ty,
        \<lambda>a. case a of Inl _ \<Rightarrow> 1 | Inr _ \<Rightarrow> 0]")
    (auto dest!: arrayFields_index mapFields_index isOptionType_length)

declare fillValue.simps [simp del] fillKind.simps [simp del]

text \<open>\<^verbatim>\<open>Unmarshal(data, &x)\<close>: the error and what \<^verbatim>\<open>x\<close> holds afterwards.\<close>

definition Unmarshal_into :: "'c hooks \<Rightarrow> 'c leaves \<Rightarrow> bytes \<Rightarrow> gtype \<Rightarrow> 'c gval \<Rightarrow> (cbor_error + unit) \<times> 'c gval" where
  "Unmarshal_into hk lv bs ty old =
     (case fillValue hk lv (TPtr ty) False (NewDecoder bs, VPtr (Some old)) of
        (r, (dec, v)) \<Rightarrow>
          (case r of Inl e \<Rightarrow> Inl e | Inr _ \<Rightarrow> Finish dec, case v of VPtr (Some x) \<Rightarrow> x | _ \<Rightarrow> old))"

section \<open>Filling agrees with decoding\<close>

text \<open>What \<open>f\<close> does to a variable of type \<open>ty\<close> is what \<open>g\<close> returns for it; on an error it is of the type still.\<close>

definition agrees :: "(string \<Rightarrow> 'c \<Rightarrow> bool) \<Rightarrow> gtype \<Rightarrow> ('c, unit) fill \<Rightarrow>
    ('c gval \<Rightarrow> (decoder, cbor_error, 'c gval) op) \<Rightarrow> bool" where
  "agrees C ty f g \<longleftrightarrow> (\<forall>d old. typed C ty old \<longrightarrow> (case f (d, old) of (r, (d', v)) \<Rightarrow>
     typed C ty v \<and> g old d = (map_sum id (\<lambda>_. v) r, d')))"

lemma agreesI:
  assumes "\<And>d old e d' v. typed C ty old \<Longrightarrow> f (d, old) = (Inl e, (d', v)) \<Longrightarrow> typed C ty v \<and> g old d = (Inl e, d')"
    and "\<And>d old d' v. typed C ty old \<Longrightarrow> f (d, old) = (Inr (), (d', v)) \<Longrightarrow> typed C ty v \<and> g old d = (Inr v, d')"
  shows "agrees C ty f g"
  unfolding agrees_def
proof (intro allI impI)
  fix d old assume t: "typed C ty old"
  obtain r d' v where f: "f (d, old) = (r, (d', v))" by (metis surj_pair)
  show "case f (d, old) of (r, (d', v)) \<Rightarrow> typed C ty v \<and> g old d = (map_sum id (\<lambda>_. v) r, d')"
    using assms(1) [OF t, of d _ d' v] assms(2) [OF t, of d d' v] f by (cases r) auto
qed

lemma agreesD:
  assumes "agrees C ty f g" and "typed C ty old" and "f (d, old) = (r, (d', v))"
  shows "typed C ty v" and "g old d = (map_sum id (\<lambda>_. v) r, d')"
proof -
  have "case f (d, old) of (r, (d', v)) \<Rightarrow> typed C ty v \<and> g old d = (map_sum id (\<lambda>_. v) r, d')"
    by (rule assms(1) [unfolded agrees_def, rule_format, OF assms(2)])
  then show "typed C ty v" "g old d = (map_sum id (\<lambda>_. v) r, d')" by (simp_all add: assms(3))
qed

text \<open>What succeeds needs no proof of its type: decoding yields values of the type.\<close>

lemma agrees_leaf:
  assumes "\<And>old. typed C ty old \<Longrightarrow> yields (g old) (typed C ty)"
    and "\<And>old d. g old d = andThen m (\<lambda>x. ret (h x)) d"
  shows "agrees C ty (andThen (on_dec m) (\<lambda>x. put (h x))) g"
proof (rule agreesI, goal_cases)
  case (1 d old e d' v)
  then show ?case by (auto simp: assms(2) andThen_def on_dec_def put_def split: prod.splits sum.splits)
next
  case (2 d old d' v)
  then have "g old d = (Inr v, d')" by (auto simp: assms(2) andThen_def on_dec_def put_def split: prod.splits sum.splits)
  then show ?case using yieldsD [OF assms(1) [OF 2(1)]] by blast
qed

lemma agrees_fail: "agrees C ty (fail e) (\<lambda>_. fail e)"
  by (simp add: agrees_def fail_def)

text \<open>The same for the fields of a struct, one after another.\<close>

definition fields_agree :: "(string \<Rightarrow> 'c \<Rightarrow> bool) \<Rightarrow> gfield list \<Rightarrow> ('c, 'a) fill \<Rightarrow>
    ('c gval list \<Rightarrow> (decoder, cbor_error, 'c gval list \<times> 'a) op) \<Rightarrow> bool" where
  "fields_agree C fs f g \<longleftrightarrow> (\<forall>d vs. fields_typed C fs vs \<longrightarrow> (case f (d, VStruct vs) of (r, (d', v)) \<Rightarrow>
     \<exists>vs'. v = VStruct vs' \<and> fields_typed C fs vs' \<and> g vs d = (map_sum id (\<lambda>a. (vs', a)) r, d')))"

lemma fields_agreeE:
  assumes "fields_agree C fs f g" and "fields_typed C fs vs"
  obtains r d' vs' where "f (d, VStruct vs) = (r, (d', VStruct vs'))" "fields_typed C fs vs'"
    "g vs d = (map_sum id (\<lambda>a. (vs', a)) r, d')"
proof -
  obtain r d' v where f: "f (d, VStruct vs) = (r, (d', v))" by (metis surj_pair)
  with assms show thesis unfolding fields_agree_def by (fastforce intro: that)
qed

lemma fields_agree_dec: "fields_agree C fs (on_dec m) (\<lambda>vs. andThen m (\<lambda>a. ret (vs, a)))"
  by (auto simp: fields_agree_def on_dec_def andThen_def split: prod.splits sum.splits)

lemma fields_agree_bind:
  assumes f: "fields_agree C fs f g" and f': "\<And>a. fields_agree C fs (f' a) (g' a)"
  shows "fields_agree C fs (andThen f f') (\<lambda>vs. andThen (g vs) (\<lambda>(vs, a). g' a vs))"
  unfolding fields_agree_def
proof (intro allI impI)
  fix d vs assume "fields_typed C fs vs"
  then obtain r d1 vs1 where 1: "f (d, VStruct vs) = (r, (d1, VStruct vs1))" "fields_typed C fs vs1"
    "g vs d = (map_sum id (\<lambda>a. (vs1, a)) r, d1)" using fields_agreeE [OF f] by blast
  show "case andThen f f' (d, VStruct vs) of (r, (d', v)) \<Rightarrow> \<exists>vs'. v = VStruct vs' \<and> fields_typed C fs vs' \<and>
      andThen (g vs) (\<lambda>(vs, a). g' a vs) d = (map_sum id (\<lambda>a. (vs', a)) r, d')"
  proof (cases r)
    case (Inl e)
    then show ?thesis using 1 by (simp add: andThen_def)
  next
    case (Inr a)
    obtain r2 d2 vs2 where "f' a (d1, VStruct vs1) = (r2, (d2, VStruct vs2))" "fields_typed C fs vs2"
      "g' a vs1 d1 = (map_sum id (\<lambda>a. (vs2, a)) r2, d2)" using fields_agreeE [OF f' 1(2)] by blast
    then show ?thesis using 1 by (simp add: andThen_def Inr)
  qed
qed

lemma fields_agree_fail: "fields_agree C fs (fail e) (\<lambda>vs. fail e)"
  and fields_agree_ret: "fields_agree C fs (ret a) (\<lambda>vs. ret (vs, a))"
  by (simp_all add: fields_agree_def fail_def)

lemma fields_agree_field:
  assumes "agrees C (f_type (fs ! i)) f g" and "i < length fs"
  shows "fields_agree C fs (on_field i f) (\<lambda>vs. andThen (g (vs ! i)) (\<lambda>x. ret (vs[i := x], ())))"
  unfolding fields_agree_def
proof (intro allI impI)
  fix d vs assume vs: "fields_typed C fs vs"
  then have t: "typed C (f_type (fs ! i)) (vs ! i)" using assms(2) by (simp add: fields_typed_def)
  obtain r d' x where f: "f (d, vs ! i) = (r, (d', x))" by (metis surj_pair)
  note a = agreesD [OF assms(1) t f]
  show "case on_field i f (d, VStruct vs) of (r, (d', v)) \<Rightarrow> \<exists>vs'. v = VStruct vs' \<and> fields_typed C fs vs' \<and>
      andThen (g (vs ! i)) (\<lambda>x. ret (vs[i := x], ())) d = (map_sum id (\<lambda>a. (vs', a)) r, d')"
    using a fields_typed_update [OF vs assms(2) a(1)]
    by (cases r) (simp_all add: on_field_def old_fields_def f andThen_def)
qed

lemma fields_agree_fold:
  assumes "\<And>a x. x \<in> set xs \<Longrightarrow> fields_agree C fs (f a x) (\<lambda>vs. g (vs, a) x)"
  shows "fields_agree C fs (fold_ops f a xs) (\<lambda>vs. fold_ops g (vs, a) xs)"
  using assms
proof (induction xs arbitrary: a)
  case Nil
  then show ?case by (simp only: fold_ops.simps fields_agree_ret)
next
  case (Cons x xs)
  have "fields_agree C fs (andThen (f a x) (\<lambda>a. fold_ops f a xs)) (\<lambda>vs. andThen (g (vs, a) x) (\<lambda>(vs, a). fold_ops g (vs, a) xs))"
    by (rule fields_agree_bind) (simp_all add: Cons)
  then show ?case by (simp only: fold_ops.simps case_prod_eta [of "\<lambda>s. fold_ops g s xs"])
qed

lemma fields_agree_step:
  assumes "\<And>fi. fi \<in> set mf \<Longrightarrow> agrees C (f_type (fs ! fi_field fi)) (fill fi) (dec fi) \<and> fi_field fi < length fs"
  shows "fields_agree C fs (fill_step (\<lambda>fi. on_field (fi_field fi) (fill fi)) mf prev n) (\<lambda>vs. map_step dec mf (vs, prev) n)"
proof -
  let ?k = "\<lambda>key vs. if (case prev of None \<Rightarrow> False | Some p \<Rightarrow> mapKeyCmp p key = 0) then fail ErrDuplicateMapKey
    else if (case prev of None \<Rightarrow> False | Some p \<Rightarrow> mapKeyCmp p key > 0) then fail ErrInvalidMapKeyOrder
    else case keyToField mf key of None \<Rightarrow> fail ErrUnsupportedType
      | Some fi \<Rightarrow> andThen (dec fi (vs ! fi_field fi)) (\<lambda>x. ret (vs[fi_field fi := x], Some key))"
  have "fields_agree C fs (fill_step (\<lambda>fi. on_field (fi_field fi) (fill fi)) mf prev n)
      (\<lambda>vs. andThen (andThen DecodeInt (\<lambda>a. ret (vs, a))) (\<lambda>(vs, key). ?k key vs))"
    unfolding fill_step_def
  proof (rule fields_agree_bind [OF fields_agree_dec])
    fix key
    show "fields_agree C fs
      (if (case prev of None \<Rightarrow> False | Some p \<Rightarrow> mapKeyCmp p key = 0) then fail ErrDuplicateMapKey
       else if (case prev of None \<Rightarrow> False | Some p \<Rightarrow> mapKeyCmp p key > 0) then fail ErrInvalidMapKeyOrder
       else case keyToField mf key of None \<Rightarrow> fail ErrUnsupportedType
         | Some fi \<Rightarrow> andThen (on_field (fi_field fi) (fill fi)) (\<lambda>_. ret (Some key))) (?k key)"
    proof (cases "keyToField mf key")
      case None
      then show ?thesis by (simp add: fields_agree_fail)
    next
      case (Some fi)
      then have fi: "agrees C (f_type (fs ! fi_field fi)) (fill fi) (dec fi)" "fi_field fi < length fs"
        using assms keyToField_mem by blast+
      have "fields_agree C fs (andThen (on_field (fi_field fi) (fill fi)) (\<lambda>_. ret (Some key)))
          (\<lambda>vs. andThen (andThen (dec fi (vs ! fi_field fi)) (\<lambda>x. ret (vs[fi_field fi := x], ()))) (\<lambda>(vs, _). ret (vs, Some key)))"
        by (rule fields_agree_bind [OF fields_agree_field [OF fi] fields_agree_ret])
      then show ?thesis by (simp add: Some fields_agree_fail andThen_andThen andThen_ret del: ret_app)
    qed
  qed
  then show ?thesis by (simp add: map_step_def andThen_andThen andThen_ret del: ret_app)
qed

lemma fields_agree_seq:
  assumes "\<And>f. f \<in> set xs \<Longrightarrow> agrees C (f_type (fs ! afi_field f)) (fill f) (dec f) \<and> afi_field f < length fs"
  shows "fields_agree C fs (seq_ops (map (\<lambda>f. on_field (afi_field f) (fill f)) xs))
    (\<lambda>vs. andThen (fold_ops (\<lambda>vs f. andThen (dec f (vs ! afi_field f)) (\<lambda>x. ret (vs[afi_field f := x]))) vs xs) (\<lambda>vs. ret (vs, ())))"
  using assms
proof (induction xs)
  case Nil
  then show ?case by (simp add: fields_agree_ret andThen_ret del: ret_app)
next
  case (Cons f xs)
  then have f: "agrees C (f_type (fs ! afi_field f)) (fill f) (dec f)" "afi_field f < length fs" by simp_all
  have "fields_agree C fs (seq_ops (map (\<lambda>f. on_field (afi_field f) (fill f)) xs))
    (\<lambda>vs. andThen (fold_ops (\<lambda>vs f. andThen (dec f (vs ! afi_field f)) (\<lambda>x. ret (vs[afi_field f := x]))) vs xs) (\<lambda>vs. ret (vs, ())))"
    by (rule Cons.IH) (use Cons.prems in simp)
  from fields_agree_bind [OF fields_agree_field [OF f] this] show ?case by (simp add: andThen_andThen andThen_ret del: ret_app)
qed

lemma andThen_if: "andThen (if b then f else g) h = (if b then andThen f h else andThen g h)"
  and andThen_fail: "andThen (fail e) h = fail e"
  by (simp_all add: fun_eq_iff andThen_def fail_def)

lemma fields_agree_if:
  "(b \<Longrightarrow> fields_agree C fs f g) \<Longrightarrow> (\<not> b \<Longrightarrow> fields_agree C fs f' g') \<Longrightarrow>
   fields_agree C fs (if b then f else f') (\<lambda>vs. if b then g vs else g' vs)"
  by simp

lemma fields_agree_struct:
  assumes "fields_agree C fs f (\<lambda>vs. g vs)"
    and "\<And>old. h old = andThen (g (old_fields old)) (\<lambda>(vs, _). ret (VStruct vs))"
  shows "agrees C (TStruct nm fs) f h"
  unfolding agrees_def
proof (intro allI impI)
  fix d old assume "typed C (TStruct nm fs) old"
  then obtain vs where vs: "old = VStruct vs" "fields_typed C fs vs" by (auto simp: typed_struct fields_typed_def)
  then obtain r d' vs' where "f (d, VStruct vs) = (r, (d', VStruct vs'))" "fields_typed C fs vs'"
    "g vs d = (map_sum id (\<lambda>a. (vs', a)) r, d')" using fields_agreeE [OF assms(1)] by blast
  then show "case f (d, old) of (r, (d', v)) \<Rightarrow> typed C (TStruct nm fs) v \<and> h old d = (map_sum id (\<lambda>_. v) r, d')"
    by (cases r) (simp_all add: assms(2) vs old_fields_def andThen_def struct_typed)
qed

section \<open>All types\<close>

text \<open>Methods that leave only values in \<open>C\<close> behind, also when they fail.\<close>

definition leaves_ok :: "'c leaves \<Rightarrow> (string \<Rightarrow> 'c \<Rightarrow> bool) \<Rightarrow> bool" where
  "leaves_ok lv C \<longleftrightarrow> (\<forall>nm c d. C nm c \<longrightarrow> C nm (lv nm c d))"

lemma custom_agrees:
  assumes "keeps hk C" and "leaves_ok lv C"
  shows "agrees C (TCustom nm) (call_custom hk lv nm) (\<lambda>_. andThen (unmarshalCBOR hk nm) (\<lambda>c. ret (VCustom c)))"
  unfolding agrees_def
proof (intro allI impI)
  fix d and old :: "'a gval" assume "typed C (TCustom nm) old"
  then obtain c where old: "old = VCustom c" "C nm c" by (cases old) (auto simp: typed.simps)
  obtain r d' where u: "unmarshalCBOR hk nm d = (r, d')" by fastforce
  have "C nm x" if "r = Inr x" for x using assms(1) u that by (auto simp: keeps_def dest: yieldsD)
  then show "case call_custom hk lv nm (d, old) of (r, (d', v)) \<Rightarrow> typed C (TCustom nm) v \<and>
      andThen (unmarshalCBOR hk nm) (\<lambda>c. ret (VCustom c)) d = (map_sum id (\<lambda>_. v) r, d')"
    using old assms(2) by (cases r) (simp_all add: call_custom_def u andThen_def leaves_ok_def)
qed

lemma elem_agrees:
  assumes "agrees C t f g" and "typed C t (zero_val hk t)"
  shows "agrees C (TPtr t) (andThen (new_ptr hk t) (\<lambda>_. on_elem f))
    (\<lambda>old. andThen (g (case old of VPtr (Some x) \<Rightarrow> x | _ \<Rightarrow> zero_val hk t)) (\<lambda>x. ret (VPtr (Some x))))"
  unfolding agrees_def
proof (intro allI impI)
  fix d old assume "typed C (TPtr t) old"
  then obtain p where p: "old = VPtr p" "\<forall>x. p = Some x \<longrightarrow> typed C t x" by (cases old) (auto simp: typed.simps split: option.splits)
  define x where "x = (case old of VPtr (Some x) \<Rightarrow> x | _ \<Rightarrow> zero_val hk t)"
  have new: "new_ptr hk t (d, old) = (Inr (), (d, VPtr (Some x)))" by (simp add: new_ptr_def x_def p(1) split: option.splits)
  have t: "typed C t x" using p assms(2) by (auto simp: x_def split: option.splits)
  obtain r d' y where f: "f (d, x) = (r, (d', y))" by (metis surj_pair)
  from agreesD [OF assms(1) t f] show "case andThen (new_ptr hk t) (\<lambda>_. on_elem f) (d, old) of (r, (d', v)) \<Rightarrow>
      typed C (TPtr t) v \<and> andThen (g (case old of VPtr (Some x) \<Rightarrow> x | _ \<Rightarrow> zero_val hk t)) (\<lambda>x. ret (VPtr (Some x))) d =
        (map_sum id (\<lambda>_. v) r, d')"
    unfolding x_def [symmetric] by (cases r) (simp_all add: andThen_def new on_elem_def f)
qed

lemma decodeKind_yields:
  "keeps hk C \<Longrightarrow> \<forall>nm. ty \<noteq> TCustom nm \<Longrightarrow> typed C ty old \<Longrightarrow> yields (decodeKind hk ty old opt) (typed C ty)"
  by (rule decodeKind_typed) (auto intro: decodeValue_typed)

text \<open>A kind that is set at the end, if at all.\<close>

lemma agrees_last:
  assumes "\<And>old. typed C ty old \<Longrightarrow> yields (g old) (typed C ty)"
    and "\<And>d old e d' v. typed C ty old \<Longrightarrow> f (d, old) = (Inl e, (d', v)) \<Longrightarrow> v = old \<and> g old d = (Inl e, d')"
    and "\<And>d old d' v. typed C ty old \<Longrightarrow> f (d, old) = (Inr (), (d', v)) \<Longrightarrow> g old d = (Inr v, d')"
  shows "agrees C ty f g"
  by (rule agreesI) (use assms in \<open>blast dest: yieldsD\<close>)+

text \<open>The three kinds of structs.\<close>

lemma fillKind_option:
  "isOptionType (TStruct nm [f0, f1]) \<Longrightarrow> fillKind hk lv (TStruct nm [f0, f1]) opt =
     (\<lambda>(dec, v). if PeekNull dec then andThen (on_dec DecodeNull) (\<lambda>_. andThen (on_field 1 (put (VBool False))) (\<lambda>_.
          on_field 0 (put (zero_val hk (f_type f0))))) (dec, v)
      else andThen (on_field 0 (fillValue hk lv (f_type f0) False)) (\<lambda>_. on_field 1 (put (VBool True))) (dec, v))"
  by (subst fillKind.simps) (simp cong del: if_weak_cong)

lemma fillKind_array:
  "\<not> isOptionType (TStruct nm fs) \<Longrightarrow> wantArray fs \<Longrightarrow> fillKind hk lv (TStruct nm fs) opt =
     andThen (on_dec DecodeArrayHeader) (\<lambda>len. if sint len \<noteq> int (length (arrayFields fs)) then fail ErrUnexpectedItemCount
       else seq_ops (map (\<lambda>f. on_field (afi_field f) (fillValue hk lv (f_type (fs ! afi_field f)) (afi_optional f))) (arrayFields fs)))"
  by (subst fillKind.simps) (simp only: gtype.case if_False if_True)

lemma fillKind_map:
  "\<not> isOptionType (TStruct nm fs) \<Longrightarrow> \<not> wantArray fs \<Longrightarrow> mapFields fs = Inr mf \<Longrightarrow> fillKind hk lv (TStruct nm fs) opt =
     (if mf = [] \<and> structFields fs \<noteq> [] then fail ErrUnsupportedType
      else andThen (on_dec DecodeMapHeader) (\<lambda>len. if sint len \<noteq> int (length mf) then fail ErrUnexpectedItemCount
       else andThen (fold_ops (fill_step (\<lambda>fi. on_field (fi_field fi)
           (fillValue hk lv (f_type (fs ! fi_field fi)) (fi_optional fi))) mf) None [0..<unat len]) (\<lambda>_. ret ())))"
  by (subst fillKind.simps) (simp only: gtype.case if_False sum.case)

lemma option_agrees:
  assumes o: "isOptionType (TStruct nm [f0, f1])" and zero: "typed C (f_type f0) (zero_val hk (f_type f0))"
    and f: "agrees C (f_type f0) (fillValue hk lv (f_type f0) False) (\<lambda>old. decodeValue hk (f_type f0) old False)"
  shows "agrees C (TStruct nm [f0, f1]) (fillKind hk lv (TStruct nm [f0, f1]) opt) (\<lambda>old. decodeKind hk (TStruct nm [f0, f1]) old opt)"
  unfolding agrees_def
proof (intro allI impI)
  fix d old assume "typed C (TStruct nm [f0, f1]) old"
  then obtain x y where xy: "old = VStruct [x, y]" "typed C (f_type f0) x" "typed C (f_type f1) y"
    by (auto simp: typed_struct length_Suc_conv All_less_Suc)
  moreover have "f_type f1 = TBool" using o by (simp add: isOptionType_struct)
  ultimately obtain b where old: "old = VStruct [x, VBool b]" and x: "typed C (f_type f0) x"
    by (cases y) (simp_all add: typed.simps)
  note defs = fillKind_option [OF o] decodeKind_option [OF o] old andThen_def on_dec_def on_field_def put_def old_fields_def option_typed [OF o]
  obtain r d' y where fx: "fillValue hk lv (f_type f0) False (d, x) = (r, (d', y))" by (metis surj_pair)
  note a = agreesD [OF f x fx]
  show "case fillKind hk lv (TStruct nm [f0, f1]) opt (d, old) of (r, (d', v)) \<Rightarrow> typed C (TStruct nm [f0, f1]) v \<and>
      decodeKind hk (TStruct nm [f0, f1]) old opt d = (map_sum id (\<lambda>_. v) r, d')"
  proof (cases "PeekNull d")
    case True
    then show ?thesis by (simp add: defs x zero split: prod.splits sum.splits)
  next
    case False
    then show ?thesis using a by (cases r) (simp_all add: defs fx)
  qed
qed

lemma struct_agrees:
  assumes IH: "\<And>f opt. f \<in> set fs \<Longrightarrow> agrees C (f_type f) (fillValue hk lv (f_type f) opt) (\<lambda>old. decodeValue hk (f_type f) old opt)"
    and hk: "keeps hk C"
  shows "agrees C (TStruct nm fs) (fillKind hk lv (TStruct nm fs) opt) (\<lambda>old. decodeKind hk (TStruct nm fs) old opt)"
proof -
  consider (opt) "isOptionType (TStruct nm fs)" | (arr) "\<not> isOptionType (TStruct nm fs)" "wantArray fs"
    | (err) e where "\<not> isOptionType (TStruct nm fs)" "\<not> wantArray fs" "mapFields fs = Inl e"
    | (map_struct) mf where "\<not> isOptionType (TStruct nm fs)" "\<not> wantArray fs" "mapFields fs = Inr mf"
    by (cases "mapFields fs") auto
  then show ?thesis
  proof cases
    case opt
    then obtain f0 f1 where fs: "fs = [f0, f1]" using isOptionType_two by blast
    show ?thesis using opt IH unfolding fs by (intro option_agrees keeps_zero [OF hk]) auto
  next
    case arr
    show ?thesis unfolding fillKind_array [OF arr]
      by (rule fields_agree_struct [OF fields_agree_bind [OF fields_agree_dec fields_agree_if [OF fields_agree_fail
          fields_agree_seq [where dec = "\<lambda>f old. decodeValue hk (f_type (fs ! afi_field f)) old (afi_optional f)"]]]])
         (use IH in \<open>auto simp: decodeKind_array [OF arr] andThen_andThen andThen_ret andThen_if andThen_fail simp del: ret_app cong del: if_weak_cong dest: arrayFields_index\<close>)
  next
    case err
    then have "fillKind hk lv (TStruct nm fs) opt = fail e" by (subst fillKind.simps) simp
    then show ?thesis using err by (simp add: decodeKind_map_error agrees_fail)
  next
    case map_struct
    show ?thesis 
    proof (cases "mf = [] \<and> structFields fs \<noteq> []")
      case True
      show ?thesis unfolding decodeKind_map [OF map_struct] fillKind_map [OF map_struct] if_P [OF True] by (rule agrees_fail)
    next
      case False
      show ?thesis unfolding decodeKind_map [OF map_struct] fillKind_map [OF map_struct] if_not_P [OF False]
        by (rule fields_agree_struct [OF fields_agree_bind [OF fields_agree_dec fields_agree_if [OF fields_agree_fail
              fields_agree_bind [OF fields_agree_fold [OF fields_agree_step [where
                dec = "\<lambda>fi old. decodeValue hk (f_type (fs ! fi_field fi)) old (fi_optional fi)"]] fields_agree_ret]]]])
           (use IH in \<open>auto simp: andThen_andThen andThen_ret andThen_if andThen_fail case_prod_unfold simp del: ret_app cong del: if_weak_cong dest: mapFields_index [OF map_struct(3)]\<close>)
    qed
  qed
qed

lemma leaf_agrees:
  assumes hk: "keeps hk C" and ty: "\<forall>nm. ty \<noteq> TCustom nm" "\<forall>nm fs. ty \<noteq> TStruct nm fs"
  shows "agrees C ty (fillKind hk lv ty opt) (\<lambda>old. decodeKind hk ty old opt)"
  by (rule agrees_last [OF decodeKind_yields [OF hk ty(1)]]; assumption?; use ty in \<open>cases ty;
    auto simp: fillKind.simps decodeKind.simps andThen_def on_dec_def put_def fail_def typed.simps
      split: prod.splits sum.splits if_splits gval.splits\<close>)

lemma kind_agrees:
  assumes hk: "keeps hk C" and ty: "\<forall>nm. ty \<noteq> TCustom nm"
    and IH: "\<And>nm fs f opt. ty = TStruct nm fs \<Longrightarrow> f \<in> set fs \<Longrightarrow>
      agrees C (f_type f) (fillValue hk lv (f_type f) opt) (\<lambda>old. decodeValue hk (f_type f) old opt)"
  shows "agrees C ty (fillKind hk lv ty opt) (\<lambda>old. decodeKind hk ty old opt)"
proof (cases "\<exists>nm fs. ty = TStruct nm fs")
  case True
  then obtain nm fs where s: "ty = TStruct nm fs" by blast
  show ?thesis unfolding s using IH [OF s] hk by (rule struct_agrees)
next
  case False
  with ty show ?thesis by (intro leaf_agrees [OF hk]) simp_all
qed

lemma pointer_agrees:
  assumes hk: "keeps hk C" and t: "\<forall>nm. t \<noteq> TCustom nm"
    and kind: "agrees C t (fillKind hk lv t False) (\<lambda>old. decodeKind hk t old False)"
  shows "agrees C (TPtr t) (fillValue hk lv (TPtr t) opt) (\<lambda>old. decodeValue hk (TPtr t) old opt)"
  unfolding agrees_def
proof (intro allI impI)
  let ?elem = "\<lambda>old. case old of VPtr (Some x) \<Rightarrow> x | _ \<Rightarrow> zero_val hk t"
  fix d and old :: "'a gval" assume old: "typed C (TPtr t) old"
  have f: "fillValue hk lv (TPtr t) opt = andThen (new_ptr hk t) (\<lambda>_ (dec, v).
      if \<not> isOptionType t \<and> PeekNull dec then
        (if \<not> opt then fail ErrUnexpectedNull else andThen (on_dec DecodeNull) (\<lambda>_. put (VPtr None))) (dec, v)
      else andThen (new_ptr hk t) (\<lambda>_. on_elem (fillKind hk lv t False)) (dec, v))"
    using t by (subst fillValue.simps) (cases t; simp only: gtype.case; blast)
  have g: "decodeValue hk (TPtr t) old opt d =
      (if \<not> isOptionType t \<and> PeekNull d then
         (if \<not> opt then fail ErrUnexpectedNull else andThen DecodeNull (\<lambda>_. ret (VPtr None))) d
       else andThen (decodeKind hk t (?elem old) False) (\<lambda>x. ret (VPtr (Some x))) d)"
    using t by (subst decodeValue.simps) (cases t; hypsubst; simp)
  have x: "typed C (TPtr t) (VPtr (Some (?elem old)))" using old keeps_zero [OF hk, of t]
    by (auto simp: typed.simps [of C "TPtr t"] split: gval.splits option.splits)
  have new: "new_ptr hk t (d, v) = (Inr (), (d, VPtr (Some (?elem v))))" for v
    by (simp add: new_ptr_def split: gval.splits option.splits)
  show "case fillValue hk lv (TPtr t) opt (d, old) of (r, (d', v)) \<Rightarrow> typed C (TPtr t) v \<and>
      decodeValue hk (TPtr t) old opt d = (map_sum id (\<lambda>_. v) r, d')"
  proof (cases "\<not> isOptionType t \<and> PeekNull d")
    case True
    then show ?thesis using x by (auto simp: f g new andThen_def fail_def on_dec_def put_def split: prod.splits sum.splits)
  next
    case False
    have "fillValue hk lv (TPtr t) opt (d, old) = andThen (new_ptr hk t) (\<lambda>_. on_elem (fillKind hk lv t False)) (d, old)"
      unfolding f andThen_def [of "new_ptr hk t"] new prod.case sum.case if_not_P [OF False] by (simp add: new)
    then show ?thesis unfolding g if_not_P [OF False]
      using elem_agrees [OF kind keeps_zero [OF hk], unfolded agrees_def, rule_format, OF old] by simp
  qed
qed

lemma value_agrees:
  assumes hk: "keeps hk C" and lv: "leaves_ok lv C"
  shows "agrees C ty (fillValue hk lv ty opt) (\<lambda>old. decodeValue hk ty old opt)"
proof (induction ty arbitrary: opt rule: measure_induct_rule [where f = size])
  case (less ty)
  have no_ptr: "agrees C t (fillKind hk lv t opt) (\<lambda>old. decodeKind hk t old opt)"
    if "size t \<le> size ty" "\<forall>nm. t \<noteq> TCustom nm" for t opt
    using that less.IH by (intro kind_agrees [OF hk]) (auto intro: less_le_trans [OF size_field_mem])
  consider (custom) nm where "ty = TCustom nm" | (custom_ptr) nm where "ty = TPtr (TCustom nm)"
    | (pointer) t where "ty = TPtr t" "\<forall>nm. t \<noteq> TCustom nm" | (kind) "\<forall>nm. ty \<noteq> TCustom nm" "\<forall>t. ty \<noteq> TPtr t"
    by (cases ty) auto
  then show ?case
  proof cases
    case custom
    then show ?thesis using custom_agrees [OF hk lv] by (simp add: fillValue.simps decodeValue.simps)
  next
    case custom_ptr
    have f: "fillValue hk lv (TPtr (TCustom nm)) opt = andThen (new_ptr hk (TCustom nm)) (\<lambda>_. on_elem (call_custom hk lv nm))"
      by (subst fillValue.simps) (simp only: gtype.case)
    show ?thesis unfolding custom_ptr f
      using elem_agrees [OF custom_agrees [OF hk lv] keeps_zero [OF hk]]
      by (subst decodeValue.simps) (simp add: andThen_andThen andThen_ret del: ret_app)
  next
    case pointer
    then show ?thesis by (simp only:) (intro pointer_agrees [OF hk] no_ptr, simp_all)
  next
    case kind
    then have "fillValue hk lv ty opt = fillKind hk lv ty opt" by (cases ty) (simp_all add: fillValue.simps)
    then show ?thesis using no_ptr [of ty opt] kind by (simp add: decodeValue_kind)
  qed
qed

lemma Unmarshal_agrees:
  assumes "keeps hk C" and "leaves_ok lv C" and "typed C ty old"
  shows "typed C ty (snd (Unmarshal_into hk lv bs ty old)) \<and>
    Unmarshal hk bs ty old = map_sum id (\<lambda>_. snd (Unmarshal_into hk lv bs ty old)) (fst (Unmarshal_into hk lv bs ty old))"
proof -
  have old: "typed C (TPtr ty) (VPtr (Some old))" using assms(3) by simp
  obtain r d v where f: "fillValue hk lv (TPtr ty) False (NewDecoder bs, VPtr (Some old)) = (r, (d, v))" by (metis surj_pair)
  note a = agreesD [OF value_agrees [OF assms(1,2)] old f]
  let ?x = "case v of VPtr (Some x) \<Rightarrow> x | _ \<Rightarrow> old"
  have x: "Unmarshal_into hk lv bs ty old = (case r of Inl e \<Rightarrow> Inl e | Inr _ \<Rightarrow> Finish d, ?x)"
    by (simp add: Unmarshal_into_def f)
  have "typed C ty ?x" using a(1) assms(3) by (simp add: typed.simps [of C "TPtr ty"] split: gval.splits option.splits)
  moreover have "\<exists>y. v = VPtr (Some y)" if "r = Inr ()" using a(2) that by (auto dest: decode_ptr_some)
  ultimately show ?thesis using a(2) unfolding x Unmarshal_def by (cases r) (auto split: sum.splits)
qed

section \<open>Properties\<close>

text \<open>C18: \<^verbatim>\<open>Unmarshal\<close> is type safe, also when it fails. Whatever the input, and whatever the variable held
  before, the variable holds a value of its type afterwards: numbers fit their width, arrays have their
  length, structs have all their fields. Values of a type with a decoder of its own are, wherever
  they stand in it, values that decoder returned or left, or zero values: \<open>C\<close> is what all of those
  have in common. The error and, without one, the value are those of the decoder of the other
  properties; after an error the variable may hold any part of the input's value.\<close>

theorem Unmarshal_target:
  assumes "keeps hk C" and "leaves_ok lv C" and "typed C ty old"
  shows "typed C ty (snd (Unmarshal_into hk lv bs ty old)) \<and>
    Unmarshal hk bs ty old = map_sum id (\<lambda>_. snd (Unmarshal_into hk lv bs ty old)) (fst (Unmarshal_into hk lv bs ty old))"
  using assms by (rule Unmarshal_agrees)

text \<open>Two numbers, of which the input is cut off in the second: the first one is set.\<close>

definition two_numbers :: gtype where
  "two_numbers = TStruct ''Point'' [GField ''X'' True ''1,key'' (TUint 64), GField ''Y'' True ''2,key'' (TUint 64)]"

lemma Unmarshal_target_witness:
  "Unmarshal_into byte_hooks (\<lambda>nm c d. c) [0xA2, 1, 5, 2] two_numbers (VStruct [VUint 7, VUint 8]) =
     (Inl ErrUnexpectedEOF, VStruct [VUint 5, VUint 8]) \<and>
   Unmarshal byte_hooks [0xA2, 1, 5, 2] two_numbers (VStruct [VUint 7, VUint 8]) = Inl ErrUnexpectedEOF \<and>
   typed (\<lambda>_ _. True) two_numbers (VStruct [VUint 5, VUint 8] :: bytes gval)"
proof -
  have run: "Unmarshal_into byte_hooks (\<lambda>nm c d. c) [0xA2, 1, 5, 2] two_numbers (VStruct [VUint 7, VUint 8]) =
     (Inl ErrUnexpectedEOF, VStruct [VUint 5, VUint 8])" by code_simp
  have "typed (\<lambda>_ _. True) two_numbers (VStruct [VUint 7, VUint 8] :: bytes gval)" by code_simp
  moreover have "leaves_ok (\<lambda>nm c d. c :: bytes) (\<lambda>_ _. True)" by (simp add: leaves_ok_def)
  ultimately show ?thesis using Unmarshal_target [OF keeps_True, of "\<lambda>nm c d. c" two_numbers "VStruct [VUint 7, VUint 8]" byte_hooks
      "[0xA2, 1, 5, 2]"] by (simp add: run)
qed

end
