(* ===== verification/Key_Values.thy ===== *)
theory Key_Values
  imports Rsa Xhpke Cbor_Fill
begin

text \<open>
  Public keys inside CBOR values. The five key packages give \<^verbatim>\<open>*PublicKey\<close> the methods
  \<^verbatim>\<open>MarshalCBOR\<close> and \<^verbatim>\<open>UnmarshalCBOR\<close> that the reflective marshaller of \<^verbatim>\<open>src/cbor/reflect.go\<close>
  looks for. \<open>key_hooks\<close> hands these methods to the marshaller: a variable of type
  \<^verbatim>\<open>xdsa.PublicKey\<close> is a \<open>TCustom ''xdsa.PublicKey''\<close>, and its value is a \<open>key_value\<close>. The theorems
  about \<open>Marshal\<close> and \<open>Unmarshal\<close>, which assume that such methods write what they read, then hold
  for messages with keys in them; what goes wrong is a key that the methods do not reach.
\<close>

section \<open>Key values and their methods\<close>

text \<open>
  \<open>Nil_Key\<close> is the zero value of the structs that hold a pointer or an interface (all but
  \<^verbatim>\<open>eddsa.PublicKey\<close>, which holds a slice): every method dereferences it.
\<close>

datatype key_value =
    Eddsa_Key eddsa_public
  | Mldsa_Key mldsa_public
  | Xdsa_Key xdsa_public
  | Xhpke_Key xhpke_public
  | Rsa_Key rsa_public
  | Nil_Key

text \<open>A panic in a method; the marshaller does not recover from it, as it does not from an error.\<close>

definition go_panic :: cbor_error where
  "go_panic = ErrCustom 1"

definition key_MarshalCBOR :: "key_value option \<Rightarrow> (encoder, cbor_error, unit) op" where
  "key_MarshalCBOR k =
     (case k of
        Some (Eddsa_Key k) \<Rightarrow> eddsa_MarshalCBOR k
      | Some (Mldsa_Key k) \<Rightarrow> mldsa_MarshalCBOR k
      | Some (Xdsa_Key k) \<Rightarrow> xdsa_MarshalCBOR k
      | Some (Xhpke_Key k) \<Rightarrow> xhpke_MarshalCBOR k
      | Some (Rsa_Key k) \<Rightarrow> (case rsa_MarshalCBOR k of None \<Rightarrow> fail go_panic | Some m \<Rightarrow> m)
      | Some Nil_Key \<Rightarrow> fail go_panic
      | None \<Rightarrow> fail go_panic)"

text \<open>There is no type of any other name.\<close>

definition key_UnmarshalCBOR :: "'r primitives \<Rightarrow> string \<Rightarrow> (decoder, cbor_error, key_value) op" where
  "key_UnmarshalCBOR P nm =
     (if nm = ''eddsa.PublicKey'' then andThen (eddsa_UnmarshalCBOR P) (\<lambda>k. ret (Eddsa_Key k))
      else if nm = ''mldsa.PublicKey'' then andThen mldsa_UnmarshalCBOR (\<lambda>k. ret (Mldsa_Key k))
      else if nm = ''xdsa.PublicKey'' then andThen (xdsa_UnmarshalCBOR P) (\<lambda>k. ret (Xdsa_Key k))
      else if nm = ''xhpke.PublicKey'' then andThen (xhpke_UnmarshalCBOR P) (\<lambda>k. ret (Xhpke_Key k))
      else if nm = ''rsa.PublicKey'' then andThen rsa_UnmarshalCBOR (\<lambda>k. ret (Rsa_Key k))
      else fail ErrUnsupportedType)"

definition key_zero :: "string \<Rightarrow> key_value" where
  "key_zero nm = (if nm = ''eddsa.PublicKey'' then Eddsa_Key \<lparr>ep_key = []\<rparr> else Nil_Key)"

definition key_hooks :: "'r primitives \<Rightarrow> key_value hooks" where
  "key_hooks P = \<lparr>marshalCBOR = (\<lambda>nm. key_MarshalCBOR), unmarshalCBOR = key_UnmarshalCBOR P, zeroCustom = key_zero\<rparr>"

section \<open>The methods are a codec for the valid keys\<close>

definition key_ok :: "'r primitives \<Rightarrow> string \<Rightarrow> key_value \<Rightarrow> bool" where
  "key_ok P nm c \<longleftrightarrow>
     (case c of
        Eddsa_Key k \<Rightarrow> nm = ''eddsa.PublicKey'' \<and> eddsa_public_ok P k
      | Mldsa_Key k \<Rightarrow> nm = ''mldsa.PublicKey'' \<and> mldsa_public_ok k
      | Xdsa_Key k \<Rightarrow> nm = ''xdsa.PublicKey'' \<and> xdsa_public_ok P k
      | Xhpke_Key k \<Rightarrow> nm = ''xhpke.PublicKey'' \<and> xhpke_public_ok P k
      | Rsa_Key k \<Rightarrow> nm = ''rsa.PublicKey'' \<and> rsa_public_ok k
      | Nil_Key \<Rightarrow> False)"

definition key_bytes :: "key_value \<Rightarrow> bytes" where
  "key_bytes c =
     (case c of
        Eddsa_Key k \<Rightarrow> eddsa_PublicKey_Marshal k
      | Mldsa_Key k \<Rightarrow> mldsa_PublicKey_Marshal k
      | Xdsa_Key k \<Rightarrow> xdsa_PublicKey_Marshal k
      | Xhpke_Key k \<Rightarrow> xhpke_PublicKey_Marshal k
      | Rsa_Key k \<Rightarrow> rsa_public_bytes k
      | Nil_Key \<Rightarrow> [])"

lemma wire_codec_wrap:
  assumes c: "wire_codec enc dec ok wire"
    and ok': "\<And>y. ok' y \<longleftrightarrow> (\<exists>x. y = C x \<and> ok x)"
    and enc': "\<And>x. ok x \<Longrightarrow> enc' (C x) = enc x"
    and wire': "\<And>x. wire' (C x) = wire x"
  shows "wire_codec enc' (andThen dec (\<lambda>x. ret (C x))) ok' wire'"
proof (unfold_locales, goal_cases)
  case (1 y e)
  then show ?case using wire_codec.enc_wire [OF c] by (auto simp: ok' enc' wire')
next
  case (2 y pre s)
  then show ?case using wire_codec.dec_wire [OF c] by (auto simp: ok' wire')
next
  case (3 pre s y d)
  then show ?case by (elim andThen_InrE) (auto simp: ok' wire' dest: wire_codec.dec_only [OF c])
next
  case (4 y)
  then show ?case using wire_codec.wire_nonempty [OF c] by (auto simp: ok' wire')
qed

text \<open>What the packages' interfaces promise, for the methods.\<close>

context raw_key
begin

lemma raw_yields: "yields (andThen (DecodeBytesFixed (int n)) (\<lambda>b. cbor_lift (parse b))) ok"
  by (rule yields_andThen [OF yields_fixed]) (auto simp: yields_def cbor_lift_def parse_iff split: sum.splits)

end

lemma mldsa_UnmarshalCBOR_lift:
  "mldsa_UnmarshalCBOR = andThen (DecodeBytesFixed (int 1952)) (\<lambda>b. cbor_lift (Inr (mldsa_ParsePublicKey b)))"
  by (simp only: mldsa_UnmarshalCBOR_def cbor_lift_def sum.case key_consts)

lemmas package_methods = eddsa_MarshalCBOR_def [abs_def] mldsa_MarshalCBOR_def [abs_def] xdsa_MarshalCBOR_def [abs_def]
  xhpke_MarshalCBOR_def [abs_def] eddsa_UnmarshalCBOR_def xdsa_UnmarshalCBOR_def xhpke_UnmarshalCBOR_def
  rsa_UnmarshalCBOR_def key_consts rsa_PublicKeySize_def mldsa_UnmarshalCBOR_lift

lemma package_codecs:
  assumes P: "primitives_ok P"
  shows "wire_codec eddsa_MarshalCBOR (eddsa_UnmarshalCBOR P) (eddsa_public_ok P) (\<lambda>k. wire_bytes (eddsa_PublicKey_Marshal k))"
    and "wire_codec mldsa_MarshalCBOR mldsa_UnmarshalCBOR mldsa_public_ok (\<lambda>k. wire_bytes (mldsa_PublicKey_Marshal k))"
    and "wire_codec xdsa_MarshalCBOR (xdsa_UnmarshalCBOR P) (xdsa_public_ok P) (\<lambda>k. wire_bytes (xdsa_PublicKey_Marshal k))"
    and "wire_codec xhpke_MarshalCBOR (xhpke_UnmarshalCBOR P) (xhpke_public_ok P) (\<lambda>k. wire_bytes (xhpke_PublicKey_Marshal k))"
    and "wire_codec (\<lambda>k. emit (EncodeBytes (rsa_public_bytes k))) rsa_UnmarshalCBOR rsa_public_ok (\<lambda>k. wire_bytes (rsa_public_bytes k))"
  using eddsa_public.raw_codec [of P] mldsa_public.raw_codec xdsa_public.raw_codec [of P] xhpke_public.raw_codec [of P]
    rsa_public.raw_codec
  by (simp_all only: package_methods strict_points_id [OF P])

lemma package_yields:
  assumes P: "primitives_ok P"
  shows "yields (eddsa_UnmarshalCBOR P) (eddsa_public_ok P)" and "yields mldsa_UnmarshalCBOR mldsa_public_ok"
    and "yields (xdsa_UnmarshalCBOR P) (xdsa_public_ok P)" and "yields (xhpke_UnmarshalCBOR P) (xhpke_public_ok P)"
    and "yields rsa_UnmarshalCBOR rsa_public_ok"
  using eddsa_public.raw_yields [of P] mldsa_public.raw_yields xdsa_public.raw_yields [of P] xhpke_public.raw_yields [of P]
    rsa_public.raw_yields
  by (simp_all only: package_methods strict_points_id [OF P])

lemma rsa_MarshalCBOR_ok: "rsa_public_ok k \<Longrightarrow> rsa_MarshalCBOR k = Some (emit (EncodeBytes (rsa_public_bytes k)))"
  by (simp only: rsa_MarshalCBOR_def rsa_PublicKey_Marshal_ok option.map)

lemma no_codec: "wire_codec enc (fail e) (\<lambda>_. False) wire"
  by unfold_locales simp_all

lemma key_ok_names:
  "key_ok P ''eddsa.PublicKey'' c \<longleftrightarrow> (\<exists>k. c = Eddsa_Key k \<and> eddsa_public_ok P k)"
  "key_ok P ''mldsa.PublicKey'' c \<longleftrightarrow> (\<exists>k. c = Mldsa_Key k \<and> mldsa_public_ok k)"
  "key_ok P ''xdsa.PublicKey'' c \<longleftrightarrow> (\<exists>k. c = Xdsa_Key k \<and> xdsa_public_ok P k)"
  "key_ok P ''xhpke.PublicKey'' c \<longleftrightarrow> (\<exists>k. c = Xhpke_Key k \<and> xhpke_public_ok P k)"
  "key_ok P ''rsa.PublicKey'' c \<longleftrightarrow> (\<exists>k. c = Rsa_Key k \<and> rsa_public_ok k)"
  by (simp_all add: key_ok_def split: key_value.splits)

definition key_names :: "string list" where
  "key_names = [''eddsa.PublicKey'', ''mldsa.PublicKey'', ''xdsa.PublicKey'', ''xhpke.PublicKey'', ''rsa.PublicKey'']"

lemma key_ok_other: "nm \<notin> set key_names \<Longrightarrow> \<not> key_ok P nm c"
  by (cases c) (simp_all add: key_ok_def key_names_def)

lemma key_UnmarshalCBOR_names:
  "key_UnmarshalCBOR P ''eddsa.PublicKey'' = andThen (eddsa_UnmarshalCBOR P) (\<lambda>k. ret (Eddsa_Key k))"
  "key_UnmarshalCBOR P ''mldsa.PublicKey'' = andThen mldsa_UnmarshalCBOR (\<lambda>k. ret (Mldsa_Key k))"
  "key_UnmarshalCBOR P ''xdsa.PublicKey'' = andThen (xdsa_UnmarshalCBOR P) (\<lambda>k. ret (Xdsa_Key k))"
  "key_UnmarshalCBOR P ''xhpke.PublicKey'' = andThen (xhpke_UnmarshalCBOR P) (\<lambda>k. ret (Xhpke_Key k))"
  "key_UnmarshalCBOR P ''rsa.PublicKey'' = andThen rsa_UnmarshalCBOR (\<lambda>k. ret (Rsa_Key k))"
  "nm \<notin> set key_names \<Longrightarrow> key_UnmarshalCBOR P nm = fail ErrUnsupportedType"
  by (simp_all add: key_UnmarshalCBOR_def key_names_def)

lemma key_name_cases:
  obtains "nm = ''eddsa.PublicKey''" | "nm = ''mldsa.PublicKey''" | "nm = ''xdsa.PublicKey''"
    | "nm = ''xhpke.PublicKey''" | "nm = ''rsa.PublicKey''" | "nm \<notin> set key_names"
proof (cases "nm \<in> set key_names")
  case True
  then show ?thesis unfolding key_names_def list.set insert_iff empty_iff by (elim disjE FalseE that(1-5))
qed (rule that(6))

lemma key_codec:
  assumes P: "primitives_ok P"
  shows "wire_codec (\<lambda>c. key_MarshalCBOR (Some c)) (key_UnmarshalCBOR P nm) (key_ok P nm) (\<lambda>c. wire_bytes (key_bytes c))"
proof -
  note m = key_MarshalCBOR_def key_bytes_def rsa_MarshalCBOR_ok option.case key_value.case
  show ?thesis
  proof (cases nm rule: key_name_cases)
    case 1
    show ?thesis unfolding 1 key_UnmarshalCBOR_names
      by (rule wire_codec_wrap [OF package_codecs(1) [OF P] key_ok_names(1)]) (simp_all only: m)
  next
    case 2
    show ?thesis unfolding 2 key_UnmarshalCBOR_names
      by (rule wire_codec_wrap [OF package_codecs(2) [OF P] key_ok_names(2)]) (simp_all only: m)
  next
    case 3
    show ?thesis unfolding 3 key_UnmarshalCBOR_names
      by (rule wire_codec_wrap [OF package_codecs(3) [OF P] key_ok_names(3)]) (simp_all only: m)
  next
    case 4
    show ?thesis unfolding 4 key_UnmarshalCBOR_names
      by (rule wire_codec_wrap [OF package_codecs(4) [OF P] key_ok_names(4)]) (simp_all only: m)
  next
    case 5
    show ?thesis unfolding 5 key_UnmarshalCBOR_names
      by (rule wire_codec_wrap [OF package_codecs(5) [OF P] key_ok_names(5)]) (simp_all only: m)
  next
    case 6
    then have "key_ok P nm = (\<lambda>_. False)" using key_ok_other by blast
    then show ?thesis unfolding key_UnmarshalCBOR_names(6) [OF 6] by (simp only: no_codec)
  qed
qed

lemma key_hooks_ok: "primitives_ok P \<Longrightarrow> hooks_ok (key_hooks P) (key_ok P) (\<lambda>nm c. wire_bytes (key_bytes c))"
  by (simp add: hooks_ok_def key_hooks_def key_codec null_first_wires)

text \<open>Every key that decoding leaves in a value is a valid one, or the zero value it began with.\<close>

definition key_in :: "'r primitives \<Rightarrow> string \<Rightarrow> key_value \<Rightarrow> bool" where
  "key_in P nm c \<longleftrightarrow> key_ok P nm c \<or> c = key_zero nm"

lemma key_hooks_keep:
  assumes P: "primitives_ok P"
  shows "keeps (key_hooks P) (key_in P)"
  unfolding keeps_def
proof (intro allI conjI)
  fix nm
  have wrap: "yields f ok \<Longrightarrow> yields (andThen f (\<lambda>k. ret (C k))) (\<lambda>c. \<exists>k. c = C k \<and> ok k)" for f :: "(decoder, cbor_error, 'k) op" and ok and C :: "'k \<Rightarrow> key_value"
    by (auto simp: yields_def andThen_eq_Inr)
  have "yields (key_UnmarshalCBOR P nm) (key_ok P nm)"
    by (cases nm rule: key_name_cases)
       (simp_all only: key_UnmarshalCBOR_names not_False_eq_True key_ok_names [abs_def] package_yields [OF P, THEN wrap] yields_fail)
  then show "yields (unmarshalCBOR (key_hooks P) nm) (key_in P nm)"
    by (auto simp: yields_def key_hooks_def key_in_def)
qed (simp add: key_in_def key_hooks_def)

text \<open>The methods of all packages assign to the receiver as the last thing they do.\<close>

definition key_left :: "key_value leaves" where
  "key_left nm c d = c"

lemma key_left_ok: "leaves_ok key_left C"
  by (simp add: leaves_ok_def key_left_def)

section \<open>Keys the methods do not reach\<close>

text \<open>A message with a key, held by value, and one with an optional pointer to a key.\<close>

definition key_msg :: "string \<Rightarrow> gtype" where
  "key_msg nm = TStruct ''Msg'' [GField ''Key'' True ''1,key'' (TCustom nm)]"

definition optional_key_msg :: "string \<Rightarrow> gtype" where
  "optional_key_msg nm = TStruct ''Msg'' [GField ''Key'' True ''1,key,optional'' (TPtr (TCustom nm))]"

lemma key_msg_tags:
  "\<not> wantArray [GField ''Key'' True ''1,key'' t]" "\<not> wantArray [GField ''Key'' True ''1,key,optional'' t]"
  "mapFields [GField ''Key'' True ''1,key'' t] = Inr [\<lparr>fi_field = 0, fi_key = 1, fi_optional = False\<rparr>]"
  "mapFields [GField ''Key'' True ''1,key,optional'' t] = Inr [\<lparr>fi_field = 0, fi_key = 1, fi_optional = True\<rparr>]"
  "\<not> isOptionType (TStruct ''Msg'' [f])"
  by code_simp+

lemma header_of_map_and_null:
  "decodeHeader (at_pos pre [0xA0]) = (Inr (5, 0), at_pos (pre @ [0xA0]) [])"
  "decodeHeader (at_pos pre [0xF6]) = (Inr (7, 22), at_pos (pre @ [0xF6]) [])"
  unfolding decodeHeader_step by code_simp+

lemma not_a_key:
  "b \<in> {0xA0, 0xF6} \<Longrightarrow> \<exists>e d. andThen (andThen (DecodeBytesFixed (int n)) f) g (at_pos pre [b]) = (Inl e, d)"
  by (auto simp: DecodeBytesFixed_def andThen_def header_of_map_and_null fail_def go_consts)

lemma key_rejects: "b \<in> {0xA0, 0xF6} \<Longrightarrow> \<exists>e d. key_UnmarshalCBOR P nm (at_pos pre [b]) = (Inl e, d)"
  by (cases nm rule: key_name_cases)
     (simp_all only: key_UnmarshalCBOR_names package_methods fail_def not_False_eq_True prod.inject sum.inject not_a_key simp_thms,
      blast)

lemma read_only_field:
  assumes r: "\<exists>e d. decodeValue hk ty old opt (at_pos [0xA1, 1] [b]) = (Inl e, d)"
    and fs: "fs = [GField nm True tag ty]" "\<not> wantArray fs" "mapFields fs = Inr [\<lparr>fi_field = 0, fi_key = 1, fi_optional = opt\<rparr>]"
  shows "\<exists>e. Unmarshal hk [0xA1, 1, b] (TStruct ''Msg'' fs) (VStruct [old]) = Inl e"
proof -
  from r obtain e d where r: "decodeValue hk ty old opt (at_pos [0xA1, 1] [b]) = (Inl e, d)" by blast
  have head: "DecodeMapHeader (at_pos [] [0xA1, 1, b]) = (Inr 1, at_pos [0xA1] [1, b])"
    by (simp add: DecodeMapHeader_def decodeHeader_step) code_simp
  have key: "DecodeInt (at_pos [0xA1] [1, b]) = (Inr 1, at_pos [0xA1, 1] [b])"
    by (simp add: DecodeInt_def decodeHeader_step) code_simp
  have no_null: "\<not> PeekNull (at_pos [] [0xA1, 1, b])" by (simp add: PeekNull_def go_consts head_byte_def)
  have opt: "\<not> isOptionType (TStruct ''Msg'' fs)" by (simp add: fs(1) key_msg_tags)
  have "\<exists>d. decodeKind hk (TStruct ''Msg'' fs) (VStruct [old]) False (at_pos [] [0xA1, 1, b]) = (Inl e, d)"
    unfolding decodeKind_map [OF opt fs(2,3)]
    by (simp add: head key r map_step_def keyToField_def andThen_def old_fields_def fs(1))
  then show ?thesis
    by (auto simp: Unmarshal_def NewDecoder_at_pos decode_ptr no_null decodeValue_kind andThen_def)
qed

section \<open>Properties\<close>

text \<open>C19: messages may hold the library's public keys, and carry them safely. A value of a supported
  type whose keys are valid is marshalled without a panic and read back. Conversely, whatever the
  input, and whether \<^verbatim>\<open>Unmarshal\<close> into a fresh variable accepts it or not, every key in the variable
  afterwards, at any depth, is one that its package's \<^verbatim>\<open>ParsePublicKey\<close> accepts, or still the zero
  value, which is what a key that decoding did not set holds. If moreover the integers of the type
  are 64 bits wide and the map keys of its structs differ, an accepted input is the one \<^verbatim>\<open>Marshal\<close>
  writes for the result. The marshaller and the key packages meet only
  through the methods \<^verbatim>\<open>MarshalCBOR\<close> and \<^verbatim>\<open>UnmarshalCBOR\<close>, and those of all five packages are used
  as the code has them.\<close>

theorem messages_with_keys:
  assumes "primitives_ok P"
  shows "(val_ok (key_hooks P) (key_ok P) (TPtr ty) (VPtr (Some v)) False \<longrightarrow>
      (\<exists>bs. Marshal (key_hooks P) (TPtr ty) (VPtr (Some v)) = Inr bs \<and> Unmarshal (key_hooks P) bs ty (zero_val (key_hooks P) ty) = Inr v)) \<and>
    typed (key_in P) ty (snd (Unmarshal_into (key_hooks P) key_left bs ty (zero_val (key_hooks P) ty))) \<and>
    (Unmarshal_into (key_hooks P) key_left bs ty (zero_val (key_hooks P) ty) = (Inr (), v) \<longrightarrow>
      type_exact ty \<longrightarrow> Marshal (key_hooks P) (TPtr ty) (VPtr (Some v)) = Inr bs)"
  using Unmarshal_run [OF key_hooks_ok [OF assms]] Unmarshal_exact [OF key_hooks_ok [OF assms]]
    Unmarshal_agrees [OF key_hooks_keep [OF assms] key_left_ok keeps_zero [OF key_hooks_keep [OF assms]]]
  by force

text \<open>A request that names its sender by value and its recipient by pointer.\<close>

definition request_fields :: "gfield list" where
  "request_fields = [GField ''Sender'' True ''1,key'' (TCustom ''xdsa.PublicKey''),
     GField ''Recipient'' True ''-2,key,optional'' (TPtr (TCustom ''xhpke.PublicKey''))]"

definition request_value :: "key_value gval" where
  "request_value = VStruct [VCustom (Xdsa_Key \<lparr>xp_ml = \<lparr>mp_key = replicate 1952 1\<rparr>, xp_ed = \<lparr>ep_key = replicate 32 2\<rparr>\<rparr>),
     VPtr (Some (VCustom (Xhpke_Key \<lparr>hpk_key = replicate 1216 3\<rparr>)))]"

lemma request_ok:
  "val_ok (key_hooks sample_primitives) (key_ok sample_primitives) (TPtr (TStruct ''Request'' request_fields)) (VPtr (Some request_value)) False"
proof -
  let ?ios = "[(0, False), (1, True)] :: (nat \<times> bool) list"
  have o: "\<not> isOptionType (TStruct ''Request'' request_fields)" and d: "distinct_keys request_fields"
    and f: "fields_of request_fields = Inr ?ios" by code_simp+
  have points: "ed_point sample_primitives k \<longleftrightarrow> length k = 32" "hp_point sample_primitives k \<longleftrightarrow> length k = 1216" for k
    by (simp_all add: sample_primitives_def)
  let ?vs = "[VCustom (Xdsa_Key \<lparr>xp_ml = \<lparr>mp_key = replicate 1952 1\<rparr>, xp_ed = \<lparr>ep_key = replicate 32 2\<rparr>\<rparr>),
     VPtr (Some (VCustom (Xhpke_Key \<lparr>hpk_key = replicate 1216 3\<rparr>)))]"
  have len: "length request_fields = 2" by (simp add: request_fields_def)
  have "val_ok (key_hooks sample_primitives) (key_ok sample_primitives) (TStruct ''Request'' request_fields) request_value False"
    unfolding val_ok_struct [OF o] request_value_def
  proof (intro exI [of _ ?vs] exI [of _ ?ios] conjI)
    show "\<forall>i<length request_fields. i \<in> fst ` set ?ios \<or> ?vs ! i = zero_val (key_hooks sample_primitives) (f_type (request_fields ! i))"
      by (auto simp: len)
    show "\<forall>p\<in>set ?ios. val_ok (key_hooks sample_primitives) (key_ok sample_primitives) (f_type (request_fields ! fst p)) (?vs ! fst p) (snd p)"
      by (simp add: request_fields_def val_ok_leaf val_ok_ptr null_val.simps key_ok_def xdsa_public_ok_def mldsa_public_ok_def
          eddsa_public_ok_def xhpke_public_ok_def points)
  qed (simp_all add: d f len go_slice_def max_int_def)
  then show "val_ok (key_hooks sample_primitives) (key_ok sample_primitives) (TPtr (TStruct ''Request'' request_fields)) (VPtr (Some request_value)) False"
    by (simp add: val_ok_ptr null_val.simps o request_value_def)
qed

lemma messages_with_keys_witness:
  "\<exists>bs. Marshal (key_hooks sample_primitives) (TPtr (TStruct ''Request'' request_fields)) (VPtr (Some request_value)) = Inr bs \<and>
     Unmarshal (key_hooks sample_primitives) bs (TStruct ''Request'' request_fields)
       (zero_val (key_hooks sample_primitives) (TStruct ''Request'' request_fields)) = Inr request_value \<and>
     typed (key_in sample_primitives) (TStruct ''Request'' request_fields) (snd (Unmarshal_into (key_hooks sample_primitives) key_left bs
       (TStruct ''Request'' request_fields) (zero_val (key_hooks sample_primitives) (TStruct ''Request'' request_fields))))"
  using messages_with_keys [OF sample_primitives_ok] request_ok by blast

text \<open>C20: a key that is held by value in something that is not addressable is lost. \<^verbatim>\<open>MarshalCBOR\<close> has a
  pointer receiver, so \<^verbatim>\<open>Marshal(*key)\<close>, and \<^verbatim>\<open>Marshal(Msg{Key: *key})\<close> for a struct that is not
  passed by pointer, do not find it: without an error, the key is written as an empty map, which
  no key type's \<^verbatim>\<open>UnmarshalCBOR\<close> reads back. And a pointer to a key cannot be optional: marshalling
  the nil pointer calls the method on it, which panics, and a null in the input is handed to
  \<^verbatim>\<open>UnmarshalCBOR\<close>, which rejects it.\<close>

theorem keys_out_of_reach:
  "Marshal (key_hooks P) (TCustom nm) (VCustom k) = Inr [0xA0] \<and>
   Marshal (key_hooks P) (key_msg nm) (VStruct [VCustom k]) = Inr [0xA1, 1, 0xA0] \<and>
   (\<exists>e. Unmarshal (key_hooks P) [0xA1, 1, 0xA0] (key_msg nm) (VStruct [VCustom old]) = Inl e) \<and>
   Marshal (key_hooks P) (TPtr (optional_key_msg nm)) (VPtr (Some (VStruct [VPtr None]))) = Inl go_panic \<and>
   (\<exists>e. Unmarshal (key_hooks P) [0xA1, 1, 0xF6] (optional_key_msg nm) (VStruct [VPtr None]) = Inl e)"
proof (intro conjI)
  show "Marshal (key_hooks P) (TCustom nm) (VCustom k) = Inr [0xA0]"
    by (simp add: Marshal_def encodeValue.simps) code_simp
  show "Marshal (key_hooks P) (key_msg nm) (VStruct [VCustom k]) = Inr [0xA1, 1, 0xA0]"
    by (simp add: Marshal_def encodeValue.simps key_msg_def key_msg_tags sort_fields_def) code_simp
  show "Marshal (key_hooks P) (TPtr (optional_key_msg nm)) (VPtr (Some (VStruct [VPtr None]))) = Inl go_panic"
    by (simp add: Marshal_def encodeValue.simps optional_key_msg_def key_msg_tags sort_fields_def key_hooks_def key_MarshalCBOR_def)
  have rejects: "\<exists>e d. andThen (unmarshalCBOR (key_hooks P) nm) f (at_pos [0xA1, 1] [b]) = (Inl e, d)"
    if b: "b \<in> {0xA0, 0xF6}" for b and f :: "key_value \<Rightarrow> (decoder, cbor_error, key_value gval) op"
  proof -
    obtain e d where "key_UnmarshalCBOR P nm (at_pos [0xA1, 1] [b]) = (Inl e, d)" using key_rejects [OF b] by blast
    then show ?thesis by (simp add: andThen_def key_hooks_def)
  qed
  show "\<exists>e. Unmarshal (key_hooks P) [0xA1, 1, 0xA0] (key_msg nm) (VStruct [VCustom old]) = Inl e"
    unfolding key_msg_def
    by (rule read_only_field [OF _ refl key_msg_tags(1,3)]) (subst decodeValue.simps, simp add: rejects)
  show "\<exists>e. Unmarshal (key_hooks P) [0xA1, 1, 0xF6] (optional_key_msg nm) (VStruct [VPtr None]) = Inl e"
    unfolding optional_key_msg_def
    by (rule read_only_field [OF _ refl key_msg_tags(2,4)]) (subst decodeValue.simps, simp add: rejects)
qed

end
