(* ===== verification/Spec2Isabelle.thy ===== *)
theory Spec2Isabelle
  imports Stream_Shared Cose Certs Rsa Kdf Key_Values
begin

text \<open>
  A verification development of the Go library \<^verbatim>\<open>dark-bio/crypto-go\<close>: a strict CBOR codec, a strict
  PEM codec, chunked stream encryption, key packages (Ed25519, ML-DSA-65, their composite xDSA,
  X-Wing HPKE and RSA), X.509 certificates for the composite and HPKE keys, and COSE messages built
  on all of them.

  \<^bold>\<open>Parts and theories.\<close> Every definition keeps the name of its Go function; the key packages, which
  share their method names, carry the package's name in front.

  \<^item> \<^verbatim>\<open>Prelude\<close>: machine types (\<open>byte\<close>, \<open>u64\<close>, \<open>i64\<close> are words, Go's \<^verbatim>\<open>int\<close> is an integer with its
    bounds written out), fallible operations on a piece of state (\<open>op\<close>, whose result is a sum and
    whose state is returned also on error, as a Go receiver keeps what a failed method did to it),
    \<open>strict_codec\<close>, the contract \<open>dec bs = Inr v \<longleftrightarrow> ok v \<and> bs = enc v\<close> that most of the library
    aims at. \<^verbatim>\<open>Utf8\<close>, \<^verbatim>\<open>Base64\<close>: the two standard codecs the sources call, written out.
  \<^item> \<^verbatim>\<open>Cbor_Core\<close> (\<^verbatim>\<open>cbor/cbor.go\<close>: \<open>encoder\<close> is its buffer, \<open>decoder\<close> data and position),
    \<^verbatim>\<open>Cbor_Codec\<close> (each Encode/Decode pair instantiates the locale \<open>wire_codec\<close>), \<^verbatim>\<open>Cbor_Verify\<close>
    (the validating walks against the data type \<open>item\<close> of canonical documents), \<^verbatim>\<open>Cbor_Reflect\<close>
    (\<^verbatim>\<open>cbor/reflect.go\<close> over explicit type descriptors \<open>gtype\<close> and values \<open>gval\<close>),
    \<^verbatim>\<open>Cbor_Marshal\<close> (its correctness), \<^verbatim>\<open>Cbor_Typed\<close> (its type safety) and \<^verbatim>\<open>Cbor_Fill\<close> (decoding
    once more, in place: what the variable holds when decoding fails).
  \<^item> \<^verbatim>\<open>Pem\<close> (\<^verbatim>\<open>pem/pem.go\<close>), \<^verbatim>\<open>Asn1\<close> (\<^verbatim>\<open>internal/asn1ext\<close>).
  \<^item> \<^verbatim>\<open>Stream_Core\<close> (\<^verbatim>\<open>stream/stream.go\<close>: the four state machines as records with one function per
    method), \<^verbatim>\<open>Stream_Format\<close> (the specification \<open>stream_encrypt\<close> and the locale \<open>byte_stream\<close> of
    readers that deliver a fixed stream however they are called), \<^verbatim>\<open>Stream_Encrypt\<close>,
    \<^verbatim>\<open>Stream_Decrypt\<close>, \<^verbatim>\<open>Stream_At\<close> (random access), \<^verbatim>\<open>Stream_Ends\<close> (its termination on any
    store), \<^verbatim>\<open>Stream_Shared\<close> (its concurrent calls, as interleaved atomic steps on the cache).
  \<^item> \<^verbatim>\<open>Keys\<close> (what the key packages share, and the locales \<open>raw_key\<close>, \<open>spki_key\<close>, \<open>pkcs8_key\<close> of
    their encodings), \<^verbatim>\<open>Eddsa\<close>, \<^verbatim>\<open>Mldsa\<close>, \<^verbatim>\<open>Xdsa\<close>, \<^verbatim>\<open>Xhpke\<close>, \<^verbatim>\<open>Rsa\<close>; \<^verbatim>\<open>Kdf\<close> (\<^verbatim>\<open>hkdf\<close> and
    \<^verbatim>\<open>argon2\<close>). \<^verbatim>\<open>Key_Values\<close>: public keys inside CBOR messages, the \<open>hooks\<close> of the marshaller
    filled in with the methods of the five key packages.
  \<^item> \<^verbatim>\<open>X509\<close> (\<^verbatim>\<open>x509/x509.go\<close> and \<^verbatim>\<open>internal/x509ext\<close>: templates, extensions, the DER of a
    certificate and \<open>New\<close>, which issues one), \<^verbatim>\<open>X509_Binding\<close> (a certificate determines the request),
    \<^verbatim>\<open>Certs\<close> (\<^verbatim>\<open>xdsa/cert.go\<close> and \<^verbatim>\<open>xhpke/cert.go\<close>: issuing and verifying, alone and as a chain,
    over the locale \<open>certified_key\<close> that extends \<open>spki_key\<close>).
  \<^item> \<^verbatim>\<open>Cose_Messages\<close> (the struct types of \<^verbatim>\<open>cose/cose.go\<close> as type descriptors with the bytes they
    stand for, locale \<open>message\<close>), \<^verbatim>\<open>Cose\<close> (signing, verifying, sealing, opening).
  \<^item> This theory: a property that runs through all layers.

  \<^bold>\<open>What the lemmas show.\<close> The codecs are exact: a decoder accepts precisely what its encoder writes,
  from integers to whole Go values and PEM files. The stream writers and readers implement the
  stream format for every split of the data over calls, never reuse a nonce, report errors for good,
  and what they decrypt is what was encrypted. The key packages accept exactly the documented
  containers, and a composite signature needs both halves. Issuing a certificate ends in one of the
  stated outcomes, an issued certificate determines what was requested, and verification accepts
  exactly the chains of authorities it means to. RSA keys have exact raw, text and CBOR forms, and
  what DER keys lack of them is stated. Decoding a message with keys in it sets them to valid keys only, and the
  ways to lose a key in one are stated. COSE verification accepts exactly the
  canonical message whose signature covers header, domain, additional data and payload.

  \<^bold>\<open>Parameters and hypotheses.\<close> Code outside the repository is an argument: the AEAD (\<open>aead\<close>;
  \<open>aead_ok\<close>-style laws say that opening inverts sealing, and for the safety properties that only
  sealed text opens), the cryptobyte readers (\<open>cryptobyte\<close>, law \<open>der_reader\<close>), the primitives of
  the key packages (\<open>primitives\<close>, law \<open>primitives_ok\<close>), \<^verbatim>\<open>crypto/rsa\<close> with the parsers of
  \<^verbatim>\<open>crypto/x509\<close> for its keys (\<open>std_rsa\<close>, law \<open>std_rsa_ok\<close>), \<^verbatim>\<open>x509.ParseCertificate\<close>
  (\<open>parse_certificate\<close>, law \<open>reads_back\<close>, whose result is a record of the fields the code reads,
  the printed names among them), SHA-1, the key derivation functions (\<open>kdf_library\<close>), user-defined
  CBOR methods (\<open>hooks\<close>, law \<open>hooks_ok\<close>, which \<open>key_hooks_ok\<close> proves of the library's own; \<open>keeps\<close> and \<open>leaves_ok\<close> say what
  they return and leave), the stores behind readers (\<open>contract\<close>, \<open>serves\<close>). A
  \<^verbatim>\<open>time.Time\<close> is its calendar reading in UTC (\<open>go_time\<close>). Random bytes and the time are arguments of the functions that draw or read them. For
  each law there is a concrete instance that keeps it (\<open>sample_reader\<close>, \<open>sample_primitives\<close>,
  \<open>byte_hooks\<close> and others), on which the witnesses run.

  \<^bold>\<open>Bounds and fuel.\<close> No definition uses fuel of its own: the recursion of the CBOR walks is on the depth
  budget \<open>maxDepth = 32\<close> that the code carries, the loops are structural or have a measure. The
  stream properties assume less than \<open>max_chunks = 2 ^ 88\<close> chunks, the range of the nonce's counter.
  A run-time panic is an error value (\<open>Panic\<close>, \<open>go_panic\<close> in a CBOR method) or \<open>None\<close>; a loop that would not end is \<open>Diverge\<close>.

  \<^bold>\<open>Not modelled.\<close> The texts of error messages; concurrent use of anything but \<^verbatim>\<open>DecryptReaderAt\<close>; negative arcs of object identifiers; stores
  that break the contract of \<^verbatim>\<open>io.ReaderAt\<close>; recursive Go struct types (a type descriptor is a finite
  tree); an \<^verbatim>\<open>xdsa.Signer\<close> that returns a signature together with an error, or neither;
  the precomputed values of RSA keys, which only speed up later operations.
\<close>

section \<open>Properties that span components\<close>

text \<open>C40: end to end, from the bytes on the wire to the application's value. If \<^verbatim>\<open>OpenAt\<close> returns a value
  for some input, then the value is one of the requested type, with nothing in it (a key, say) that
  the decoder of its own type does not return; the input is the canonical
  COSE_Encrypt0 structure for the recipient's key; it decrypts, bound to the domain and the
  additional data, to the canonical COSE_Sign1 structure of the sender's key around exactly the
  canonical encoding of the value; its timestamp is not stale; and both halves of its signature
  are valid for the bytes that bind header, domain, additional data and value.\<close>

theorem Open_accepts_only:
  assumes "primitives_ok P" and "hooks_ok hk cok cw" and "keeps hk C" and "type_exact ty"
    and "OpenAt hk P ty msg auth k sender domain maxDrift now = Inr v"
  shows "\<exists>a emb ts sig ek c. marshal_any hk auth = Inr a \<and> Marshal hk (TPtr ty) (VPtr (Some v)) = Inr emb \<and> typed C ty v \<and>
    msg = cose_sealed P (xhpke_SecretKey_PublicKey P k) ek c \<and>
    xhpke_Open P k ek c (sealed_aad (enc_header_wire (enc_cose_header P (xhpke_SecretKey_PublicKey P k))) a) (DomainPrefix @ domain) =
      Inr (cose_message P sender ts (Some emb) sig) \<and>
    \<not> stale maxDrift now ts \<and>
    (let m = cmldsaMessagePrime P (to_be_signed domain a (sig_header_wire (cose_header P sender ts)) emb)
     in mldsa_Verify P (xp_ml sender) m xdsa_signatureDomain (take 3309 sig) = Inr () \<and>
        eddsa_Verify P (xp_ed sender) m (drop 3309 sig) = Inr ())"
proof -
  from assms(5) obtain inner where d: "Decrypt hk P msg auth k domain = Inr inner"
    and v: "VerifyAt hk P ty inner auth sender domain maxDrift now = Inr v"
    by (auto simp: OpenAt_def split: sum.splits)
  from v obtain a emb where a: "marshal_any hk auth = Inr a"
    and s: "verify P inner a sender domain maxDrift now = Inr emb" and u: "Unmarshal hk emb ty (zero_val hk ty) = Inr v"
    by (auto simp: VerifyAt_def unmarshal_any_def split: sum.splits)
  from s obtain ts sig where "inner = cose_message P sender ts (Some emb) sig" "\<not> stale maxDrift now ts"
    "xdsa_Verify P sender (to_be_signed domain a (sig_header_wire (cose_header P sender ts)) emb) sig = Inr ()"
    unfolding verify_iff [OF assms(1)] by blast
  moreover from d obtain ek c where "msg = cose_sealed P (xhpke_SecretKey_PublicKey P k) ek c"
    "xhpke_Open P k ek c (sealed_aad (enc_header_wire (enc_cose_header P (xhpke_SecretKey_PublicKey P k))) a) (DomainPrefix @ domain) = Inr inner"
    unfolding Decrypt_iff [OF assms(1) a] by blast
  moreover have "Marshal hk (TPtr ty) (VPtr (Some v)) = Inr emb" by (rule Unmarshal_exact [OF assms(2,4) u])
  moreover have "typed C ty v" by (rule Unmarshal_typed [OF assms(3) keeps_zero [OF assms(3)] u])
  ultimately show ?thesis
    using a by (auto simp: xdsa_Verify_iff mldsa_Verify_def eddsa_Verify_def Let_def)
qed

lemma Open_accepts_only_witness:
  "\<exists>msg v. OpenAt byte_hooks sample_primitives (TInt 64) msg (TRaw, VBytes (Some [0])) \<lparr>hs_seed = replicate 32 1\<rparr>
      (sg_public sample_signer) [1, 2] (Some 60) 1000 = Inr v \<and> has_type (TInt 64) v"
proof -
  let ?k = "\<lparr>hs_seed = replicate 32 1\<rparr>" and ?auth = "(TRaw, VBytes (Some [0])) :: bytes any"
  obtain s where s: "length s = 3373"
    "signAt sample_primitives (wire_int 5) [0] sample_signer [1, 2] 990 = Inr (cose_message sample_primitives (sg_public sample_signer) 990 (Some (wire_int 5)) s)"
    "verify sample_primitives (cose_message sample_primitives (sg_public sample_signer) 990 (Some (wire_int 5)) s) [0]
       (sg_public sample_signer) [1, 2] (Some 60) 1000 = Inr (wire_int 5)"
    by (rule verify_signAt [OF sample_primitives_ok sample_message(1,5,7)])
  let ?inner = "cose_message sample_primitives (sg_public sample_signer) 990 (Some (wire_int 5)) s"
  have "length ?inner + 16 \<le> max_int"
    using length_cose_message [OF sample_primitives_ok s(1), of "sg_public sample_signer" 990 "wire_int 5"] length_wire_int [of 5]
    by (simp add: max_int_def)
  from Decrypt_Encrypt [OF sample_primitives_ok sample_message(6) this, of "[3]" ?k "[1, 2]"]
  obtain msg where "Decrypt byte_hooks sample_primitives msg ?auth ?k [1, 2] = Inr ?inner" by metis
  then have o: "OpenAt byte_hooks sample_primitives (TInt 64) msg ?auth ?k (sg_public sample_signer) [1, 2] (Some 60) 1000 = Inr (VInt 5)"
    by (simp add: OpenAt_def VerifyAt_def sample_message(6) s(3) unmarshal_marshalled [OF sample_message(2,3,4)])
  have "type_exact (TInt 64)" by simp
  from Open_accepts_only [OF sample_primitives_ok sample_message(2) keeps_True this o] o show ?thesis by blast
qed

end
